(* ===== verification/Prelude.thy ===== *)
theory Prelude
  imports Main "HOL-Library.Monad_Syntax" "HOL-Library.Product_Lexorder"
begin

text \<open>
  What every component of the model shares.

  \<^item> \<open>chk\<close> is \<open>assert\<close>: a process that fails an assertion, dereferences a pointer to freed
    memory, frees memory twice or overflows a signed integer has no further state, which is the
    value \<open>None\<close>; every operation of the model that can do so returns an \<open>option\<close> and is
    written in the \<open>do\<close> notation of \<open>Monad_Syntax\<close>, statement by statement as the source.
  \<^item> \<open>std::set\<close> is the strictly sorted list of its elements, in iteration order:
    \<open>set_insert\<close>, \<open>set_erase\<close> and \<open>set_split\<close> (\<open>lower_bound\<close>).
  \<^item> \<open>run\<close> drives a partial step function over a list of events. The locale
    \<open>safe_machine\<close> states once, for every component, that events which keep to the protocol
    preserve the component's invariant and never reach \<open>None\<close>.
\<close>

named_theorems frames \<open>what an operation leaves alone, as destruction rules for its result\<close>

text \<open>Addresses of objects, file descriptors and what system calls return.\<close>

type_synonym ptr = nat
type_synonym fd = int
type_synonym errno = int

subsection \<open>Assertions\<close>

definition chk :: "bool \<Rightarrow> unit option" where
  "chk b = (if b then Some () else None)"

lemma chk_simps [simp]: "chk True = Some ()" "chk False = None"
  by (simp_all add: chk_def)

lemma chk_Some_iff [simp]: "(chk b = Some u) = b"
  by (simp add: chk_def)

lemma chk_None_iff [simp]: "(chk b = None) = (\<not> b)"
  by (simp add: chk_def)

lemma bind_chk_Some_iff [simp]: "(Option.bind (chk b) f = Some r) = (b \<and> f () = Some r)"
  by (simp add: chk_def)

lemma bind_chk_True: "b \<Longrightarrow> Option.bind (chk b) f = f ()"
  by simp

subsection \<open>\<open>std::set\<close> as a strictly sorted list\<close>

abbreviation sset :: "'a::linorder list \<Rightarrow> bool" where
  "sset xs \<equiv> sorted_wrt (<) xs"

text \<open>\<open>insert\<close> returns the new set and whether the element was new (\<open>result.second\<close>).\<close>

fun set_ins :: "'a::linorder \<Rightarrow> 'a list \<Rightarrow> 'a list" where
  "set_ins x [] = [x]"
| "set_ins x (y # ys) =
     (if x < y then x # y # ys else if x = y then y # ys else y # set_ins x ys)"

definition set_insert :: "'a::linorder \<Rightarrow> 'a list \<Rightarrow> 'a list \<times> bool" where
  "set_insert x xs = (set_ins x xs, x \<notin> set xs)"

text \<open>\<open>erase\<close> by key returns the new set and the number of elements removed.\<close>

definition set_erase :: "'a::linorder \<Rightarrow> 'a list \<Rightarrow> 'a list \<times> nat" where
  "set_erase x xs = (filter (\<lambda>y. y \<noteq> x) xs, if x \<in> set xs then 1 else 0)"

text \<open>The elements before \<open>lower_bound(x)\<close> and those from it on.\<close>

definition set_split :: "'a::linorder \<Rightarrow> 'a list \<Rightarrow> 'a list \<times> 'a list" where
  "set_split x xs = (takeWhile (\<lambda>y. y < x) xs, dropWhile (\<lambda>y. y < x) xs)"

lemma set_set_ins [simp]: "set (set_ins x xs) = insert x (set xs)"
  by (induction xs) auto

lemma sset_set_ins [simp]: "sset xs \<Longrightarrow> sset (set_ins x xs)"
  by (induction xs) auto

lemma length_set_ins [simp]:
  "sset xs \<Longrightarrow> length (set_ins x xs) = (if x \<in> set xs then length xs else Suc (length xs))"
  by (induction xs) auto

lemma hd_set_ins:
  "set_ins x xs = y # ys \<Longrightarrow> y = (case xs of [] \<Rightarrow> x | z # _ \<Rightarrow> if x < z then x else z)"
  by (cases xs) (auto split: if_splits)

lemma set_ins_not_Nil [simp]: "set_ins x xs \<noteq> []"
  by (cases xs) auto

lemma sset_distinct: "sset xs \<Longrightarrow> distinct xs"
  by (induction xs) auto

lemma sset_filter [simp]: "sset xs \<Longrightarrow> sset (filter P xs)"
  by (induction xs) auto

lemma length_sset: "sset xs \<Longrightarrow> length xs = card (set xs)"
  by (simp add: distinct_card sset_distinct)

lemma length_filter_neq:
  "distinct xs \<Longrightarrow> x \<in> set xs \<Longrightarrow> length (filter (\<lambda>y. y \<noteq> x) xs) = length xs - 1"
proof -
  assume a: "distinct xs" "x \<in> set xs"
  have "filter (\<lambda>y. y \<noteq> x) xs = remove1 x xs"
    using a(1) by (induction xs) (auto simp: filter_id_conv)
  with a show ?thesis by (simp add: length_remove1)
qed

lemma sset_takeWhile: "sset xs \<Longrightarrow> set (takeWhile (\<lambda>y. y < x) xs) = {y \<in> set xs. y < x}"
proof (induction xs)
  case (Cons a xs)
  then show ?case
  proof (cases "a < x")
    case False
    with Cons.prems have "\<forall>y \<in> set xs. \<not> y < x" by (meson order.strict_trans sorted_wrt.simps(2))
    with False show ?thesis by auto
  qed auto
qed simp

lemma sset_dropWhile: "sset xs \<Longrightarrow> set (dropWhile (\<lambda>y. y < x) xs) = {y \<in> set xs. x \<le> y}"
  by (induction xs) (auto simp: not_less dest: order.strict_trans1 order.strict_implies_order order.trans)

lemma sset_append_iff:
  "sset (xs @ ys) = (sset xs \<and> sset ys \<and> (\<forall>x \<in> set xs. \<forall>y \<in> set ys. x < y))"
  by (rule sorted_wrt_append)

lemma sset_split_sorted:
  assumes "sset xs" and "set_split x xs = (ys, zs)"
  shows "sset ys" "sset zs" "xs = ys @ zs"
    "set ys = {y \<in> set xs. y < x}" "set zs = {y \<in> set xs. x \<le> y}"
proof -
  have eq: "xs = ys @ zs" and ys: "ys = takeWhile (\<lambda>y. y < x) xs" and zs: "zs = dropWhile (\<lambda>y. y < x) xs"
    using assms(2) by (auto simp: set_split_def)
  show "xs = ys @ zs" by (rule eq)
  show "sset ys" "sset zs" using assms(1) eq by (auto simp: sset_append_iff)
  show "set ys = {y \<in> set xs. y < x}" using ys assms(1) by (simp add: sset_takeWhile)
  show "set zs = {y \<in> set xs. x \<le> y}" using zs assms(1) by (simp add: sset_dropWhile)
qed

lemmas std_set_defs = set_insert_def set_erase_def

subsection \<open>Machines driven by a list of events\<close>

fun run :: "('e \<Rightarrow> 's \<Rightarrow> 's option) \<Rightarrow> 'e list \<Rightarrow> 's \<Rightarrow> 's option" where
  "run step [] s = Some s"
| "run step (e # es) s = do { s' \<leftarrow> step e s; run step es s' }"

text \<open>Every event of a run keeps to the protocol \<open>ok\<close> in the state in which it happens.\<close>

fun run_ok :: "('e \<Rightarrow> 's \<Rightarrow> 's option) \<Rightarrow> ('e \<Rightarrow> 's \<Rightarrow> bool) \<Rightarrow> 'e list \<Rightarrow> 's \<Rightarrow> bool" where
  "run_ok step ok [] s = True"
| "run_ok step ok (e # es) s =
     (ok e s \<and> (case step e s of None \<Rightarrow> True | Some s' \<Rightarrow> run_ok step ok es s'))"

lemma run_append:
  "run step (xs @ ys) s = do { s' \<leftarrow> run step xs s; run step ys s' }"
  by (induction xs arbitrary: s) (auto split: bind_splits)

lemma run_ok_prefix: "run_ok step ok (es @ fs) s \<Longrightarrow> run_ok step ok es s"
  by (induction es arbitrary: s) (auto split: option.splits)

lemma run_ok_suffix: "run_ok step ok (es @ fs) s \<Longrightarrow> run step es s = Some t \<Longrightarrow> run_ok step ok fs t"
  by (induction es arbitrary: s) (auto split: option.splits bind_splits)

locale safe_machine =
  fixes step :: "'e \<Rightarrow> 's \<Rightarrow> 's option"
    and ok :: "'e \<Rightarrow> 's \<Rightarrow> bool"
    and inv :: "'s \<Rightarrow> bool"
  assumes step_safe: "inv s \<Longrightarrow> ok e s \<Longrightarrow> \<exists>s'. step e s = Some s' \<and> inv s'"
begin

lemma run_safe:
  "inv s \<Longrightarrow> run_ok step ok es s \<Longrightarrow> \<exists>s'. run step es s = Some s' \<and> inv s'"
proof (induction es arbitrary: s)
  case Nil
  then show ?case by simp
next
  case (Cons e es)
  from Cons.prems obtain s' where s': "step e s = Some s'" "inv s'"
    using step_safe by fastforce
  with Cons.prems have "run_ok step ok es s'" by simp
  with Cons.IH s' show ?case by simp
qed

lemma run_inv: "inv s \<Longrightarrow> run_ok step ok es s \<Longrightarrow> run step es s = Some s' \<Longrightarrow> inv s'"
  using run_safe by fastforce

end

text \<open>
  A second predicate that single steps keep, once the invariant is known, is kept by runs.
\<close>

locale safe_machine_with = safe_machine +
  fixes also_inv :: "'s \<Rightarrow> bool"
  assumes also_step: "inv s \<Longrightarrow> ok e s \<Longrightarrow> also_inv s \<Longrightarrow> step e s = Some s' \<Longrightarrow> also_inv s'"
begin

lemma run_also:
  "inv s \<Longrightarrow> also_inv s \<Longrightarrow> run_ok step ok es s \<Longrightarrow> run step es s = Some s' \<Longrightarrow> also_inv s'"
proof (induction es arbitrary: s)
  case Nil
  then show ?case by simp
next
  case (Cons e es)
  from Cons.prems obtain t where t: "step e s = Some t" "run step es t = Some s'"
    by (auto simp: bind_eq_Some_conv)
  with Cons.prems have "inv t" "also_inv t" "run_ok step ok es t"
    using step_safe also_step by fastforce+
  with Cons.IH t show ?case by blast
qed

end

subsection \<open>Threads as a step relation\<close>

text \<open>An invariant of every state that a step relation reaches from its initial states.\<close>

locale step_invariant =
  fixes step :: "'s \<Rightarrow> 's \<Rightarrow> bool"
    and init :: "'s \<Rightarrow> bool"
    and inv :: "'s \<Rightarrow> bool"
  assumes init_inv: "init s \<Longrightarrow> inv s"
    and step_inv: "inv s \<Longrightarrow> step s t \<Longrightarrow> inv t"
begin

lemma reach_inv:
  assumes "init s" and "step\<^sup>*\<^sup>* s t"
  shows "inv t"
  using assms(2)
proof (induction rule: rtranclp_induct)
  case base
  show ?case by (rule init_inv [OF assms(1)])
next
  case (step t u)
  then show ?case by (blast intro: step_inv)
qed

end

end
