(* ===== verification/Machine.thy ===== *)
theory Machine
  imports Prelude Complex_Main "HOL-Library.Word" "HOL-Library.Signed_Division" "HOL-Library.Log_Nat"
begin

text \<open>
  The parts of C and of its library that several components use: signed 64-bit arithmetic, whose
  overflow is undefined (\<open>None\<close>); finite doubles, as the rationals they denote, with the IEEE 754
  rounding of a result to 53 bits; the conversion of a double to \<open>int64_t\<close>; and the integer
  conversions of \<open>snprintf\<close>.
\<close>

type_synonym bytes = "8 word list"

subsection \<open>Signed 64-bit integers\<close>

definition INT64_MIN :: int where "INT64_MIN = - (2 ^ 63)"
definition INT64_MAX :: int where "INT64_MAX = 2 ^ 63 - 1"

definition in_int64 :: "int \<Rightarrow> bool" where
  "in_int64 x \<longleftrightarrow> INT64_MIN \<le> x \<and> x \<le> INT64_MAX"

text \<open>The result of a signed operation: undefined where it does not fit.\<close>

definition i64 :: "int \<Rightarrow> int option" where
  "i64 x = (if in_int64 x then Some x else None)"

lemmas int64_defs = in_int64_def INT64_MIN_def INT64_MAX_def

lemma i64_Some_iff [simp]: "(i64 x = Some y) = (in_int64 x \<and> y = x)"
  by (auto simp: i64_def)

lemma i64_in [simp]: "in_int64 x \<Longrightarrow> i64 x = Some x"
  by simp

lemma i64_None_iff [simp]: "(i64 x = None) = (\<not> in_int64 x)"
  by (simp add: i64_def)

subsection \<open>Doubles\<close>

type_synonym double = rat

text \<open>Round to the nearest integer, ties to even.\<close>

definition round_half_even :: "rat \<Rightarrow> int" where
  "round_half_even x =
     (let f = \<lfloor>x\<rfloor>; r = x - of_int f
      in if r < 1 / 2 then f else if 1 / 2 < r then f + 1 else if even f then f else f + 1)"

text \<open>The exponent of the last of the 53 bits of a positive rational (at least that of a subnormal).\<close>

definition ulp_exp :: "rat \<Rightarrow> int" where
  "ulp_exp x =
     (let (n, d) = quotient_of x; e = bitlen n - bitlen d
      in max (-1074) (if 2 powi e \<le> x then e - 52 else e - 53))"

definition dround :: "rat \<Rightarrow> double" where
  "dround x =
     (if x = 0 then 0
      else let e = ulp_exp \<bar>x\<bar> in of_int (round_half_even (x / 2 powi e)) * 2 powi e)"

definition dmul :: "double \<Rightarrow> double \<Rightarrow> double" where
  "dmul x y = dround (x * y)"

definition ddiv :: "double \<Rightarrow> double \<Rightarrow> double" where
  "ddiv x y = dround (x / y)"

text \<open>\<open>static_cast<int64_t>\<close> of a double truncates, and is undefined out of range.\<close>

definition double_to_i64 :: "double \<Rightarrow> int option" where
  "double_to_i64 x = i64 (if 0 \<le> x then \<lfloor>x\<rfloor> else \<lceil>x\<rceil>)"

lemma round_half_even_of_int [simp]: "round_half_even (of_int n) = n"
  by (simp add: round_half_even_def Let_def)

lemma round_half_even_nonneg: "0 \<le> x \<Longrightarrow> 0 \<le> round_half_even x"
  by (auto simp: round_half_even_def Let_def)

lemma dround_nonneg: "0 \<le> x \<Longrightarrow> 0 \<le> dround x"
  by (auto simp: dround_def Let_def intro!: mult_nonneg_nonneg round_half_even_nonneg divide_nonneg_nonneg)

lemma double_to_i64_nonneg: "0 \<le> x \<Longrightarrow> double_to_i64 x = Some y \<Longrightarrow> 0 \<le> y"
  by (auto simp: double_to_i64_def)

text \<open>Integers of at most 53 bits are exact.\<close>

lemma bitlen_le: "0 < n \<Longrightarrow> n < 2 ^ k \<Longrightarrow> bitlen n \<le> int k"
  by (simp add: bitlen_le_iff_power)

lemma dround_of_int:
  assumes "0 < n" and "n < 2 ^ 53"
  shows "dround (of_int n) = of_int n"
proof -
  let ?e = "ulp_exp (of_int n)"
  have "quotient_of (of_int n) = (n, 1)" by (simp add: quotient_of_int)
  moreover have "bitlen n \<le> 53" using bitlen_le [OF assms] by simp
  moreover have "bitlen 1 = 1" by (simp add: bitlen_def floorlog_def)
  ultimately have e: "?e \<le> 0" by (simp add: ulp_exp_def Let_def)
  define k where "k = nat (- ?e)"
  have "(2::rat) powi ?e = 1 / 2 ^ k" using e by (simp add: k_def power_int_def field_simps)
  then have "dround (of_int n) = of_int (round_half_even (of_int n / (1 / 2 ^ k))) * (1 / 2 ^ k)"
    using assms(1) by (simp add: dround_def Let_def)
  also have "of_int n / (1 / 2 ^ k) = (of_int (n * 2 ^ k) :: rat)" by simp
  also have "of_int (round_half_even (of_int (n * 2 ^ k))) * (1 / 2 ^ k) = (of_int n :: rat)"
    unfolding round_half_even_of_int by simp
  finally show ?thesis .
qed

lemma dround_half: "dround (1 / 2) = 1 / 2"
  by code_simp

subsection \<open>Integer conversions of \<open>snprintf\<close>\<close>

definition digit :: "nat \<Rightarrow> char" where
  "digit n = char_of (48 + n)"

fun dec :: "nat \<Rightarrow> string" where
  "dec n = (if n < 10 then [digit n] else dec (n div 10) @ [digit (n mod 10)])"

declare dec.simps [simp del]

text \<open>\<open>%d\<close>, \<open>%0wd\<close> (the sign counts towards the width) and \<open>%wd\<close>.\<close>

definition fmt_d :: "int \<Rightarrow> string" where
  "fmt_d v = (if v < 0 then CHR ''-'' # dec (nat (- v)) else dec (nat v))"

definition fmt_0d :: "nat \<Rightarrow> int \<Rightarrow> string" where
  "fmt_0d w v =
     (if v < 0 then CHR ''-'' # (let s = dec (nat (- v)) in replicate (w - 1 - length s) CHR ''0'' @ s)
      else let s = dec (nat v) in replicate (w - length s) CHR ''0'' @ s)"

definition fmt_wd :: "nat \<Rightarrow> int \<Rightarrow> string" where
  "fmt_wd w v = (let s = fmt_d v in replicate (w - length s) CHR '' '' @ s)"

text \<open>\<open>snprintf(buf, n, ...)\<close> keeps the first \<open>n - 1\<close> characters of its output.\<close>

definition snprintf :: "nat \<Rightarrow> string \<Rightarrow> string" where
  "snprintf n s = take (n - 1) s"

text \<open>Reading decimal digits back, the reference the printed forms are compared with.\<close>

definition undigit :: "char \<Rightarrow> nat" where
  "undigit c = of_char c - 48"

definition undec :: "string \<Rightarrow> nat" where
  "undec s = foldl (\<lambda>a c. 10 * a + undigit c) 0 s"

lemma undigit_digit [simp]: "d < 10 \<Longrightarrow> undigit (digit d) = d"
  by (simp add: undigit_def digit_def)

lemma undec_append_digit [simp]: "d < 10 \<Longrightarrow> undec (s @ [digit d]) = 10 * undec s + d"
  by (simp add: undec_def)

lemma undec_dec [simp]: "undec (dec n) = n"
proof (induction n rule: dec.induct)
  case (1 n)
  show ?case
  proof (cases "n < 10")
    case True
    then show ?thesis by (simp add: dec.simps undec_def)
  next
    case False
    with 1 show ?thesis by (subst dec.simps) simp
  qed
qed

lemma undec_zeros [simp]: "undec (replicate k CHR ''0'' @ s) = undec s"
proof -
  have "foldl (\<lambda>a c. 10 * a + undigit c) 0 (replicate k CHR ''0'') = 0"
    by (induction k) (simp_all add: undigit_def)
  then show ?thesis by (simp add: undec_def)
qed

lemma dec_digits: "c \<in> set (dec n) \<Longrightarrow> \<exists>d<10. c = digit d"
proof (induction n rule: dec.induct)
  case (1 n)
  then show ?case by (cases "n < 10") (auto simp: dec.simps [of n] intro: exI [of _ "n mod 10"])
qed

lemma digit_neq [simp]:
  "d < 10 \<Longrightarrow> digit d \<noteq> CHR ''.''" "d < 10 \<Longrightarrow> digit d \<noteq> CHR ''-''"
  "d < 10 \<Longrightarrow> digit d \<noteq> CHR ''#''" "d < 10 \<Longrightarrow> digit d \<noteq> CHR '':''"
  by (auto simp: digit_def dest!: arg_cong [where f = "of_char :: char \<Rightarrow> nat"])

lemma dec_no_special:
  "CHR ''.'' \<notin> set (dec n)" "CHR ''-'' \<notin> set (dec n)" "CHR ''#'' \<notin> set (dec n)" "CHR '':'' \<notin> set (dec n)"
  using dec_digits digit_neq by metis+

lemma length_dec_pos: "0 < length (dec n)"
  by (subst dec.simps) auto

lemma dec_not_Nil [simp]: "dec n \<noteq> []"
  using length_dec_pos [of n] by auto

lemma length_dec_le: "n < 10 ^ k \<Longrightarrow> 0 < k \<Longrightarrow> length (dec n) \<le> k"
proof (induction k arbitrary: n)
  case 0
  then show ?case by simp
next
  case (Suc k)
  show ?case
  proof (cases "n < 10")
    case True
    then show ?thesis by (simp add: dec.simps)
  next
    case False
    with Suc.prems have "0 < k" by (cases k) auto
    moreover have "n div 10 < 10 ^ k" using Suc.prems by (simp add: less_mult_imp_div_less)
    ultimately show ?thesis using Suc.IH [of "n div 10"] False by (subst dec.simps) simp
  qed
qed

lemma inj_dec: "inj dec"
  by (metis injI undec_dec)

lemma dec_eq_iff [simp]: "(dec m = dec n) = (m = n)"
  using inj_dec by (auto dest: injD)

lemma inj_fmt_d: "inj fmt_d"
proof (rule injI)
  fix x y :: int
  assume "fmt_d x = fmt_d y"
  then show "x = y"
    using dec_no_special(2) by (auto simp: fmt_d_def split: if_splits) (metis list.set_intros(1))+
qed

lemma fmt_0d_nonneg:
  "0 \<le> v \<Longrightarrow> fmt_0d w v = replicate (w - length (dec (nat v))) CHR ''0'' @ dec (nat v)"
  by (simp add: fmt_0d_def Let_def)

lemma length_fmt_0d: "0 \<le> v \<Longrightarrow> nat v < 10 ^ w \<Longrightarrow> 0 < w \<Longrightarrow> length (fmt_0d w v) = w"
  using length_dec_le [of "nat v" w] by (simp add: fmt_0d_nonneg)

end
