(* ===== verification/Timestamps.thy ===== *)
theory Timestamps
  imports Machine
begin

text \<open>
  \<^verbatim>\<open>Timestamp.h\<close> and \<^verbatim>\<open>Timestamp.c\<close>: microseconds since the epoch, their order, the arithmetic on
  them and their two printed forms. The clock (\<open>gettimeofday\<close>) is an argument. \<open>gmtime_r\<close> is the
  C library's: the proleptic Gregorian calendar in UTC, defined here over whole 400-year eras.
\<close>

subsection \<open>The class\<close>

datatype timestamp = Timestamp (microSecondsSinceEpoch: int)

definition kMicroSecondsPerSecond :: int where
  "kMicroSecondsPerSecond = 1000 * 1000"

lemma kMicro_value [simp]: "kMicroSecondsPerSecond = 1000000"
  by (simp add: kMicroSecondsPerSecond_def)

definition invalid :: timestamp where
  "invalid = Timestamp 0"

definition valid :: "timestamp \<Rightarrow> bool" where
  "valid t \<longleftrightarrow> microSecondsSinceEpoch t > 0"

text \<open>\<open>operator<\<close> and \<open>operator==\<close>; the other comparisons come from \<open>boost::less_than_comparable\<close>.\<close>

definition timestamp_less :: "timestamp \<Rightarrow> timestamp \<Rightarrow> bool" where
  "timestamp_less lhs rhs \<longleftrightarrow> microSecondsSinceEpoch lhs < microSecondsSinceEpoch rhs"

instantiation timestamp :: linorder
begin

definition less_timestamp :: "timestamp \<Rightarrow> timestamp \<Rightarrow> bool" where
  "less_timestamp lhs rhs \<longleftrightarrow> timestamp_less lhs rhs"

definition less_eq_timestamp :: "timestamp \<Rightarrow> timestamp \<Rightarrow> bool" where
  "less_eq_timestamp lhs rhs \<longleftrightarrow> \<not> rhs < lhs"

instance
  by standard (auto simp: less_timestamp_def timestamp_less_def less_eq_timestamp_def intro: timestamp.expand)

end

lemma le_timestamp_iff:
  "(s \<le> t) = (microSecondsSinceEpoch s \<le> microSecondsSinceEpoch t)"
  by (auto simp: less_eq_timestamp_def less_timestamp_def timestamp_less_def)

lemma less_Timestamp [simp]: "(Timestamp a < Timestamp b) = (a < b)"
  by (simp add: less_timestamp_def timestamp_less_def)

lemma le_Timestamp [simp]: "(Timestamp a \<le> Timestamp b) = (a \<le> b)"
  by (simp add: le_timestamp_iff)

definition secondsSinceEpoch :: "timestamp \<Rightarrow> int" where
  "secondsSinceEpoch t = microSecondsSinceEpoch t sdiv kMicroSecondsPerSecond"

definition fromUnixTime :: "int \<Rightarrow> int \<Rightarrow> timestamp option" where
  "fromUnixTime t microseconds =
     do { s \<leftarrow> i64 (t * kMicroSecondsPerSecond);
          us \<leftarrow> i64 (s + microseconds);
          Some (Timestamp us) }"

text \<open>\<open>Timestamp::now\<close>, given what \<open>gettimeofday\<close> stored in \<open>tv\<close>.\<close>

definition Timestamp_now :: "int \<Rightarrow> int \<Rightarrow> timestamp option" where
  "Timestamp_now tv_sec tv_usec =
     do { s \<leftarrow> i64 (tv_sec * kMicroSecondsPerSecond);
          us \<leftarrow> i64 (s + tv_usec);
          Some (Timestamp us) }"

definition timeDifference :: "timestamp \<Rightarrow> timestamp \<Rightarrow> double option" where
  "timeDifference high low =
     do { diff \<leftarrow> i64 (microSecondsSinceEpoch high - microSecondsSinceEpoch low);
          Some (ddiv (dround (of_int diff)) (of_int kMicroSecondsPerSecond)) }"

definition addTime :: "timestamp \<Rightarrow> double \<Rightarrow> timestamp option" where
  "addTime timestamp seconds =
     do { delta \<leftarrow> double_to_i64 (dmul seconds (of_int kMicroSecondsPerSecond));
          us \<leftarrow> i64 (microSecondsSinceEpoch timestamp + delta);
          Some (Timestamp us) }"

subsection \<open>\<open>toString\<close>\<close>

definition toString :: "timestamp \<Rightarrow> string" where
  "toString t =
     (let seconds = microSecondsSinceEpoch t sdiv kMicroSecondsPerSecond;
          microseconds = microSecondsSinceEpoch t smod kMicroSecondsPerSecond
      in snprintf (32 - 1) (fmt_d seconds @ ''.'' @ fmt_0d 6 microseconds))"

subsection \<open>\<open>gmtime_r\<close> and \<open>toFormattedString\<close>\<close>

record tm =
  tm_year :: int
  tm_mon :: int
  tm_mday :: int
  tm_hour :: int
  tm_min :: int
  tm_sec :: int

definition leap :: "int \<Rightarrow> bool" where
  "leap y \<longleftrightarrow> y mod 4 = 0 \<and> y mod 100 \<noteq> 0 \<or> y mod 400 = 0"

definition year_len :: "int \<Rightarrow> int" where
  "year_len y = (if leap y then 366 else 365)"

definition month_lens :: "int \<Rightarrow> int list" where
  "month_lens y = [31, if leap y then 29 else 28, 31, 30, 31, 30, 31, 31, 30, 31, 30, 31]"

function year_day :: "int \<Rightarrow> int \<Rightarrow> int \<times> int" where
  "year_day y d = (if d < year_len y then (y, d) else year_day (y + 1) (d - year_len y))"
  by pat_completeness auto
termination
  by (relation "measure (\<lambda>(y, d). nat d)") (auto simp: year_len_def split: if_splits)

declare year_day.simps [simp del]

fun month_day :: "int list \<Rightarrow> int \<Rightarrow> int \<times> int" where
  "month_day [] d = (0, d)"
| "month_day (l # ls) d =
     (if d < l then (0, d) else case month_day ls (d - l) of (m, e) \<Rightarrow> (m + 1, e))"

definition gmtime_r :: "int \<Rightarrow> tm" where
  "gmtime_r secs =
     (let days = secs div 86400; s = secs mod 86400;
          (y, yd) = year_day (1970 + 400 * (days div 146097)) (days mod 146097);
          (m, md) = month_day (month_lens y) yd
      in \<lparr>tm_year = y - 1900, tm_mon = m, tm_mday = md + 1,
          tm_hour = s div 3600, tm_min = s mod 3600 div 60, tm_sec = s mod 60\<rparr>)"

definition toFormattedString :: "bool \<Rightarrow> timestamp \<Rightarrow> string" where
  "toFormattedString showMicroseconds t =
     (let seconds = microSecondsSinceEpoch t sdiv kMicroSecondsPerSecond;
          tm_time = gmtime_r seconds;
          date = fmt_wd 4 (tm_year tm_time + 1900) @ fmt_0d 2 (tm_mon tm_time + 1)
                 @ fmt_0d 2 (tm_mday tm_time) @ '' ''
                 @ fmt_0d 2 (tm_hour tm_time) @ '':'' @ fmt_0d 2 (tm_min tm_time)
                 @ '':'' @ fmt_0d 2 (tm_sec tm_time)
      in if showMicroseconds
         then let microseconds = microSecondsSinceEpoch t smod kMicroSecondsPerSecond
              in snprintf 64 (date @ ''.'' @ fmt_0d 6 microseconds)
         else snprintf 64 date)"

subsection \<open>Lemmas on the arithmetic\<close>

lemma sdiv_nonneg [simp]: "0 \<le> a \<Longrightarrow> (a::int) sdiv 1000000 = a div 1000000"
  by (simp add: signed_divide_int_def sgn_if)

lemma smod_nonneg [simp]: "0 \<le> a \<Longrightarrow> (a::int) smod 1000000 = a mod 1000000"
  by (simp add: signed_modulo_int_def minus_div_mult_eq_mod sgn_if)

lemma addTime_later:
  "0 \<le> seconds \<Longrightarrow> addTime t seconds = Some t' \<Longrightarrow> t \<le> t'"
  by (auto simp: addTime_def dmul_def bind_eq_Some_conv le_timestamp_iff
      dest!: double_to_i64_nonneg [rotated] intro: dround_nonneg)

text \<open>The calendar: \<open>year_day\<close> and \<open>month_day\<close> undone.\<close>

function years_before :: "int \<Rightarrow> int \<Rightarrow> int" where
  "years_before base y = (if base < y then years_before base (y - 1) + year_len (y - 1) else 0)"
  by pat_completeness auto
termination
  by (relation "measure (\<lambda>(base, y). nat (y - base))") auto

declare years_before.simps [simp del]

lemma years_before_self [simp]: "years_before b b = 0"
  by (simp add: years_before.simps)

lemma years_before_step: "b \<le> y \<Longrightarrow> years_before b (y + 1) = years_before b y + year_len y"
  by (simp add: years_before.simps [of b "y + 1"])

lemma year_day_correct:
  "0 \<le> d \<Longrightarrow> b \<le> y \<Longrightarrow> year_day y d = (y', d') \<Longrightarrow>
   y \<le> y' \<and> 0 \<le> d' \<and> d' < year_len y' \<and> years_before b y' + d' = years_before b y + d"
proof (induction y d rule: year_day.induct)
  case (1 y d)
  show ?case
  proof (cases "d < year_len y")
    case True
    with "1.prems" show ?thesis by (auto simp: year_day.simps [of y d])
  next
    case False
    with "1.prems" have "year_day (y + 1) (d - year_len y) = (y', d')"
      by (simp add: year_day.simps [of y d])
    with 1 False have "y + 1 \<le> y' \<and> 0 \<le> d' \<and> d' < year_len y'
        \<and> years_before b y' + d' = years_before b (y + 1) + (d - year_len y)"
      by simp
    with "1.prems"(2) show ?thesis by (simp add: years_before_step)
  qed
qed

lemma month_day_correct:
  "0 \<le> d \<Longrightarrow> d < sum_list ls \<Longrightarrow> month_day ls d = (m, e) \<Longrightarrow>
   0 \<le> m \<and> m < int (length ls) \<and> 0 \<le> e \<and> e < ls ! nat m \<and> sum_list (take (nat m) ls) + e = d"
proof (induction ls arbitrary: d m e)
  case Nil
  then show ?case by simp
next
  case (Cons l ls)
  show ?case
  proof (cases "d < l")
    case True
    with Cons.prems show ?thesis by auto
  next
    case False
    with Cons.prems obtain m' where m': "month_day ls (d - l) = (m', e)" "m = m' + 1"
      by (auto split: prod.splits)
    with Cons.IH [of "d - l" m' e] Cons.prems False
    have "0 \<le> m' \<and> m' < int (length ls) \<and> 0 \<le> e \<and> e < ls ! nat m'
        \<and> sum_list (take (nat m') ls) + e = d - l"
      by simp
    with m'(2) show ?thesis by (simp add: nat_add_distrib)
  qed
qed

lemma sum_month_lens: "sum_list (month_lens y) = year_len y"
  by (simp add: month_lens_def year_len_def)

lemma length_month_lens: "length (month_lens y) = 12"
  by (simp add: month_lens_def)

text \<open>The seconds since the epoch that a broken-down time denotes (\<open>timegm\<close>), counted from the
  start of the era \<open>e\<close>.\<close>

definition seconds_of :: "int \<Rightarrow> tm \<Rightarrow> int" where
  "seconds_of e t =
     (146097 * e + years_before (1970 + 400 * e) (tm_year t + 1900)
      + sum_list (take (nat (tm_mon t)) (month_lens (tm_year t + 1900))) + (tm_mday t - 1)) * 86400
     + tm_hour t * 3600 + tm_min t * 60 + tm_sec t"

definition tm_wf :: "tm \<Rightarrow> bool" where
  "tm_wf t \<longleftrightarrow> 0 \<le> tm_mon t \<and> tm_mon t < 12
     \<and> 1 \<le> tm_mday t \<and> tm_mday t \<le> month_lens (tm_year t + 1900) ! nat (tm_mon t)
     \<and> 0 \<le> tm_hour t \<and> tm_hour t < 24 \<and> 0 \<le> tm_min t \<and> tm_min t < 60
     \<and> 0 \<le> tm_sec t \<and> tm_sec t < 60"

lemma time_of_day:
  fixes s :: int
  assumes "0 \<le> s" and "s < 86400"
  shows "s div 3600 * 3600 + s mod 3600 div 60 * 60 + s mod 60 = s"
    and "0 \<le> s div 3600" "s div 3600 < 24" "0 \<le> s mod 3600 div 60" "s mod 3600 div 60 < 60"
proof -
  have "s mod 3600 div 60 * 60 + s mod 60 = s mod 3600"
    using div_mult_mod_eq [of "s mod 3600" 60] by (simp add: mod_mod_cancel)
  then show "s div 3600 * 3600 + s mod 3600 div 60 * 60 + s mod 60 = s"
    using div_mult_mod_eq [of s 3600] by linarith
  show "0 \<le> s div 3600" "s div 3600 < 24" using assms by simp_all
  show "0 \<le> s mod 3600 div 60" by simp
  have "s mod 3600 < 3600" "0 \<le> s mod 3600 mod 60" by simp_all
  then show "s mod 3600 div 60 < 60"
    using div_mult_mod_eq [of "s mod 3600" 60] by linarith
qed

lemma gmtime_r_correct:
  "tm_wf (gmtime_r secs) \<and> seconds_of (secs div 86400 div 146097) (gmtime_r secs) = secs"
proof -
  define days where "days = secs div 86400"
  define s where "s = secs mod 86400"
  define e where "e = days div 146097"
  obtain y yd where y: "year_day (1970 + 400 * e) (days mod 146097) = (y, yd)" by fastforce
  obtain m md where m: "month_day (month_lens y) yd = (m, md)" by fastforce
  have s: "0 \<le> s" "s < 86400" by (simp_all add: s_def)
  have yd: "0 \<le> yd" "yd < year_len y" "years_before (1970 + 400 * e) y + yd = days mod 146097"
    using year_day_correct [OF _ order_refl y] by auto
  have md: "0 \<le> m" "m < 12" "0 \<le> md" "md < month_lens y ! nat m"
      "sum_list (take (nat m) (month_lens y)) + md = yd"
    using month_day_correct [OF yd(1) _ m] yd(2) by (auto simp: sum_month_lens length_month_lens)
  have g: "gmtime_r secs = \<lparr>tm_year = y - 1900, tm_mon = m, tm_mday = md + 1,
      tm_hour = s div 3600, tm_min = s mod 3600 div 60, tm_sec = s mod 60\<rparr>"
    unfolding gmtime_r_def Let_def days_def [symmetric] s_def [symmetric] e_def [symmetric] y m
      prod.case ..
  have wf: "tm_wf (gmtime_r secs)"
    unfolding g tm_wf_def tm.simps using md time_of_day(2-5) [OF s] by simp
  have "146097 * e + days mod 146097 = days"
    by (simp add: e_def)
  with yd(3) md(5) have "146097 * e + years_before (1970 + 400 * e) y
      + sum_list (take (nat m) (month_lens y)) + md = days"
    by linarith
  then have "seconds_of e (gmtime_r secs) = days * 86400 + s"
    unfolding g seconds_of_def tm.simps using time_of_day(1) [OF s] by simp
  also have "\<dots> = secs" unfolding days_def s_def by (rule div_mult_mod_eq)
  finally show ?thesis using wf unfolding e_def days_def by blast
qed

lemma gmtime_r_wf: "tm_wf (gmtime_r secs)"
  using gmtime_r_correct by blast

lemma fmt_0d_dec: "0 \<le> v \<Longrightarrow> undec (fmt_0d w v) = nat v"
  by (simp add: fmt_0d_nonneg)

subsection \<open>Properties\<close>

text \<open>
  C8: \<open>toString\<close> loses nothing: for every timestamp at or after the epoch the buffer is long enough
  (the output is never truncated), and the decimal seconds before the point and the six digits after
  it give the microseconds back.\<close>

theorem toString_roundtrip:
  assumes "0 \<le> us" and "us \<le> INT64_MAX"
  shows "\<exists>s f. toString (Timestamp us) = s @ ''.'' @ f \<and> length f = 6 \<and> CHR ''.'' \<notin> set s
    \<and> int (undec s) * kMicroSecondsPerSecond + int (undec f) = us"
proof -
  define s where "s = dec (nat (us div 1000000))"
  define f where "f = fmt_0d 6 (us mod 1000000)"
  have "nat (us div 1000000) < 10 ^ 13"
    using assms by (simp add: INT64_MAX_def)
  from length_dec_le [OF this] have ls: "length s \<le> 13" by (simp add: s_def)
  have lf: "length f = 6" unfolding f_def by (rule length_fmt_0d) auto
  have "toString (Timestamp us) = snprintf 31 (s @ ''.'' @ f)"
    using assms(1) by (simp add: toString_def fmt_d_def Let_def s_def f_def pos_imp_zdiv_neg_iff)
  also have "\<dots> = s @ ''.'' @ f" using ls lf by (simp add: snprintf_def)
  moreover have "int (undec s) * 1000000 + int (undec f) = us"
    using assms(1) by (simp add: s_def f_def fmt_0d_dec pos_imp_zdiv_nonneg_iff)
  ultimately show ?thesis
    using lf dec_no_special(1) s_def by (intro exI [of _ s] exI [of _ f]) auto
qed

theorem toString_roundtrip_witness:
  "\<exists>s f. toString (Timestamp 1500000000000042) = s @ ''.'' @ f \<and> length f = 6 \<and> CHR ''.'' \<notin> set s
    \<and> int (undec s) * kMicroSecondsPerSecond + int (undec f) = 1500000000000042"
  by (rule toString_roundtrip) (simp_all add: INT64_MAX_def)

end
