(* ===== verification/Atomics.thy ===== *)
theory Atomics
  imports Machine
begin

text \<open>
  \<^verbatim>\<open>Atomic.h\<close>: \<open>AtomicIntegerT\<close> over a machine word, instantiated in the source at 32 and 64
  bits. Every operation is one atomic builtin, so it is a function from the stored value to the
  returned value and the new stored value; concurrent calls are sequences of them.
\<close>

definition get :: "'a::len word \<Rightarrow> 'a word \<times> 'a word" where
  "get value = (value, if value = 0 then 0 else value)"

definition getAndAdd :: "'a::len word \<Rightarrow> 'a word \<Rightarrow> 'a word \<times> 'a word" where
  "getAndAdd x value = (value, value + x)"

definition addAndGet :: "'a::len word \<Rightarrow> 'a word \<Rightarrow> 'a word \<times> 'a word" where
  "addAndGet x value = (let (old, value') = getAndAdd x value in (old + x, value'))"

definition incrementAndGet :: "'a::len word \<Rightarrow> 'a word \<times> 'a word" where
  "incrementAndGet value = addAndGet 1 value"

definition decrementAndGet :: "'a::len word \<Rightarrow> 'a word \<times> 'a word" where
  "decrementAndGet value = addAndGet (- 1) value"

definition add :: "'a::len word \<Rightarrow> 'a word \<Rightarrow> 'a word" where
  "add x value = snd (getAndAdd x value)"

definition increment :: "'a::len word \<Rightarrow> 'a word" where
  "increment value = snd (incrementAndGet value)"

definition decrement :: "'a::len word \<Rightarrow> 'a word" where
  "decrement value = snd (decrementAndGet value)"

definition getAndSet :: "'a::len word \<Rightarrow> 'a word \<Rightarrow> 'a word \<times> 'a word" where
  "getAndSet newValue value = (value, newValue)"

lemma incrementAndGet_eq: "incrementAndGet v = (v + 1, v + 1)"
  by (simp add: incrementAndGet_def addAndGet_def getAndAdd_def)

text \<open>The values that \<open>n\<close> calls of \<open>incrementAndGet\<close> return, in the order in which they take effect.\<close>

fun tickets :: "nat \<Rightarrow> 'a::len word \<Rightarrow> 'a word list" where
  "tickets 0 value = []"
| "tickets (Suc n) value = (let (t, value') = incrementAndGet value in t # tickets n value')"

lemma tickets_eq: "tickets n v = map (\<lambda>i. v + of_nat (Suc i)) [0..<n]"
proof (induction n arbitrary: v)
  case (Suc n)
  have "map (\<lambda>i. v + of_nat (Suc i)) [0..<Suc n]
      = (v + 1) # map (\<lambda>i. v + 1 + of_nat (Suc i)) [0..<n]"
    by (simp only: upt_conv_Cons [OF zero_less_Suc] map_Suc_upt [symmetric] map_map list.map)
      (simp add: comp_def add.assoc)
  with Suc show ?case by (simp add: incrementAndGet_eq)
qed simp

lemma sint_increment:
  "sint (v :: 64 word) < INT64_MAX \<Longrightarrow> sint (v + 1) = sint v + 1"
  using sint_ge [of v]
  by (simp add: sint_word_add signed_take_bit_int_eq_self INT64_MAX_def)

text \<open>
  Calls of \<open>incrementAndGet\<close> hand out distinct values, whatever the counter holds and however they
  are interleaved, until the counter has gone once round its range; the counter itself then stands
  at the last value handed out.\<close>

theorem incrementAndGet_distinct:
  fixes v :: "'a::len word"
  assumes "n \<le> 2 ^ LENGTH('a)"
  shows "distinct (tickets n v) \<and> (((\<lambda>v. snd (incrementAndGet v)) ^^ n) v = last (v # tickets n v))"
proof
  have "inj_on (\<lambda>i. v + of_nat (Suc i)) {0..<n}"
  proof (rule inj_onI)
    fix i j assume ij: "i \<in> {0..<n}" "j \<in> {0..<n}" "v + of_nat (Suc i) = v + of_nat (Suc j)"
    then have "(of_nat i :: 'a word) = of_nat j" by simp
    then have "i mod 2 ^ LENGTH('a) = j mod 2 ^ LENGTH('a)"
      by (metis unat_of_nat)
    with ij assms show "i = j" by simp
  qed
  then show "distinct (tickets n v)" by (simp add: tickets_eq distinct_map)
  have "((\<lambda>v. snd (incrementAndGet v)) ^^ n) v = v + of_nat n"
    by (induction n) (simp_all add: incrementAndGet_eq add.commute)
  then show "((\<lambda>v. snd (incrementAndGet v)) ^^ n) v = last (v # tickets n v)"
    by (cases n) (simp_all add: tickets_eq)
qed

theorem incrementAndGet_distinct_witness:
  "distinct (tickets 3 (254 :: 8 word)) \<and> tickets 3 (254 :: 8 word) = [255, 0, 1]"
  using incrementAndGet_distinct [of 3 "254 :: 8 word"] by (simp add: numeral_3_eq_3 incrementAndGet_eq)

end
