(* ===== verification/Timers.thy ===== *)
theory Timers
  imports Timestamps Atomics
begin

text \<open>
  \<^verbatim>\<open>Timer.h\<close>, \<^verbatim>\<open>Timer.c\<close>, \<^verbatim>\<open>TimerId.h\<close>, \<^verbatim>\<open>TimerQueue.h\<close> and \<^verbatim>\<open>TimerQueue.c\<close>, as they run in
  the loop's thread. \<open>Timer\<close> objects live in an explicit heap, so that using or freeing a freed
  timer is \<open>None\<close> and a leak is visible. Addresses come from the caller (they are what \<open>malloc\<close>
  returned), and so do the readings of the clock. A user's timer callback is a function on the
  queue; what it may do is stated by the locale \<open>timer_callbacks\<close> and met by every callback that
  is a sequence of calls of \<open>addTimer\<close> and \<open>cancel\<close>.
\<close>

subsection \<open>Timers\<close>

definition UINTPTR_MAX :: ptr where
  "UINTPTR_MAX = 2 ^ 64 - 1"

record 'cb timer =
  callback :: 'cb
  expiration :: timestamp
  interval :: double
  repeats :: bool
  sequence :: int

definition Timer :: "'cb \<Rightarrow> timestamp \<Rightarrow> double \<Rightarrow> 64 word \<Rightarrow> 'cb timer \<times> 64 word" where
  "Timer cb when interval' s_numCreated =
     (let (sq, s_numCreated') = incrementAndGet s_numCreated
      in (\<lparr>callback = cb, expiration = when, interval = interval', repeats = interval' > 0,
           sequence = sint sq\<rparr>, s_numCreated'))"

definition restart :: "timestamp \<Rightarrow> 'cb timer \<Rightarrow> 'cb timer option" where
  "restart now t =
     (if repeats t
      then do { e \<leftarrow> addTime now (interval t); Some (t\<lparr>expiration := e\<rparr>) }
      else Some (t\<lparr>expiration := invalid\<rparr>))"

datatype timer_id = TimerId (timer_ptr: ptr) (timer_sequence: int)

subsection \<open>The timer descriptor\<close>

text \<open>
  What \<open>timerfd_settime\<close>, \<open>read\<close> and the passing of time do to the descriptor: the remaining
  one-shot setting, if armed, and whether an expiration waits to be read.
\<close>

record timerfd =
  it_value :: "(int \<times> int) option"
  fired :: bool

definition timerfd_settime :: "int \<times> int \<Rightarrow> timerfd \<Rightarrow> timerfd" where
  "timerfd_settime v fd = fd\<lparr>it_value := if v = (0, 0) then None else Some v, fired := False\<rparr>"

definition timerfd_expire :: "timerfd \<Rightarrow> timerfd" where
  "timerfd_expire fd = (if it_value fd = None then fd else \<lparr>it_value = None, fired = True\<rparr>)"

definition readTimerfd :: "timerfd \<Rightarrow> timerfd" where
  "readTimerfd fd = fd\<lparr>fired := False\<rparr>"

definition howMuchTimeFromNow :: "timestamp \<Rightarrow> timestamp \<Rightarrow> (int \<times> int) option" where
  "howMuchTimeFromNow when clock =
     do { microseconds \<leftarrow> i64 (microSecondsSinceEpoch when - microSecondsSinceEpoch clock);
          let microseconds = (if microseconds < 100 then 100 else microseconds);
          Some (microseconds sdiv kMicroSecondsPerSecond,
                (microseconds smod kMicroSecondsPerSecond) * 1000) }"

definition resetTimerfd :: "timestamp \<Rightarrow> timestamp \<Rightarrow> timerfd \<Rightarrow> timerfd option" where
  "resetTimerfd expiration' clock fd =
     do { newValue \<leftarrow> howMuchTimeFromNow expiration' clock;
          Some (timerfd_settime newValue fd) }"

subsection \<open>The queue\<close>

type_synonym entry = "timestamp \<times> ptr"
type_synonym active_timer = "ptr \<times> int"

record 'cb timer_queue =
  heap :: "ptr \<Rightarrow> 'cb timer option"
  s_numCreated :: "64 word"
  activeTimers :: "active_timer list"
  callingExpiredTimers :: bool
  cancelingTimers :: "active_timer list"
  timerfd :: timerfd
  timers :: "entry list"

definition TimerQueue :: "64 word \<Rightarrow> 'cb timer_queue" where
  "TimerQueue s_num =
     \<lparr>heap = Map.empty, s_numCreated = s_num, activeTimers = [], callingExpiredTimers = False,
      cancelingTimers = [], timerfd = \<lparr>it_value = None, fired = False\<rparr>, timers = []\<rparr>"

text \<open>\<open>new Timer(cb, when, interval)\<close> at the address \<open>p\<close>, and \<open>delete\<close>.\<close>

definition new_Timer :: "ptr \<Rightarrow> 'cb \<Rightarrow> timestamp \<Rightarrow> double \<Rightarrow> 'cb timer_queue \<Rightarrow> 'cb timer_queue \<times> timer_id" where
  "new_Timer p cb when interval' q =
     (let (t, n) = Timer cb when interval' (s_numCreated q)
      in (q\<lparr>heap := (heap q)(p \<mapsto> t), s_numCreated := n\<rparr>, TimerId p (sequence t)))"

definition delete_Timer :: "ptr \<Rightarrow> 'cb timer_queue \<Rightarrow> 'cb timer_queue option" where
  "delete_Timer p q = do { t \<leftarrow> heap q p; Some (q\<lparr>heap := (heap q)(p := None)\<rparr>) }"

definition insert_timer :: "ptr \<Rightarrow> 'cb timer_queue \<Rightarrow> ('cb timer_queue \<times> bool) option" where
  "insert_timer p q =
     do { chk (length (timers q) = length (activeTimers q));
          t \<leftarrow> heap q p;
          let when = expiration t;
          let earliestChanged = (case timers q of [] \<Rightarrow> True | it # _ \<Rightarrow> when < fst it);
          let (timers', second) = set_insert (when, p) (timers q);
          chk second;
          let (activeTimers', second') = set_insert (p, sequence t) (activeTimers q);
          chk second';
          chk (length timers' = length activeTimers');
          Some (q\<lparr>timers := timers', activeTimers := activeTimers'\<rparr>, earliestChanged) }"

definition addTimerInLoop :: "ptr \<Rightarrow> timestamp \<Rightarrow> 'cb timer_queue \<Rightarrow> 'cb timer_queue option" where
  "addTimerInLoop p clock q =
     do { (q, earliestChanged) \<leftarrow> insert_timer p q;
          if earliestChanged
          then do { t \<leftarrow> heap q p;
                    fd \<leftarrow> resetTimerfd (expiration t) clock (timerfd q);
                    Some (q\<lparr>timerfd := fd\<rparr>) }
          else Some q }"

definition cancelInLoop :: "timer_id \<Rightarrow> 'cb timer_queue \<Rightarrow> 'cb timer_queue option" where
  "cancelInLoop timerId q =
     do { chk (length (timers q) = length (activeTimers q));
          let timer = (timer_ptr timerId, timer_sequence timerId);
          q \<leftarrow> (if timer \<in> set (activeTimers q)
               then do { t \<leftarrow> heap q (fst timer);
                         let (timers', n) = set_erase (expiration t, fst timer) (timers q);
                         chk (n = 1);
                         q \<leftarrow> delete_Timer (fst timer) (q\<lparr>timers := timers'\<rparr>);
                         Some (q\<lparr>activeTimers := fst (set_erase timer (activeTimers q))\<rparr>) }
               else if callingExpiredTimers q
               then Some (q\<lparr>cancelingTimers := fst (set_insert timer (cancelingTimers q))\<rparr>)
               else Some q);
          chk (length (timers q) = length (activeTimers q));
          Some q }"

text \<open>The loop of \<open>getExpired\<close> that takes the expired timers out of \<open>activeTimers_\<close>.\<close>

fun erase_active :: "(ptr \<Rightarrow> 'cb timer option) \<Rightarrow> entry list \<Rightarrow> active_timer list \<Rightarrow> active_timer list option" where
  "erase_active h [] active = Some active"
| "erase_active h (it # its) active =
     do { t \<leftarrow> h (snd it);
          let (active', n) = set_erase (snd it, sequence t) active;
          chk (n = 1);
          erase_active h its active' }"

definition getExpired :: "timestamp \<Rightarrow> 'cb timer_queue \<Rightarrow> ('cb timer_queue \<times> entry list) option" where
  "getExpired now q =
     do { chk (length (timers q) = length (activeTimers q));
          let sentry = (now, UINTPTR_MAX);
          let (expired, rest) = set_split sentry (timers q);
          chk (case rest of [] \<Rightarrow> True | end # _ \<Rightarrow> now < fst end);
          active \<leftarrow> erase_active (heap q) expired (activeTimers q);
          chk (length rest = length active);
          Some (q\<lparr>timers := rest, activeTimers := active\<rparr>, expired) }"

text \<open>\<open>it->second->run()\<close> for each expired timer; \<open>run_cb\<close> is what a callback does.\<close>

fun run_expired :: "('cb \<Rightarrow> 'cb timer_queue \<Rightarrow> 'cb timer_queue option)
    \<Rightarrow> entry list \<Rightarrow> 'cb timer_queue \<Rightarrow> 'cb timer_queue option" where
  "run_expired run_cb [] q = Some q"
| "run_expired run_cb (it # its) q =
     do { t \<leftarrow> heap q (snd it); q \<leftarrow> run_cb (callback t) q; run_expired run_cb its q }"

fun reset_each :: "entry list \<Rightarrow> timestamp \<Rightarrow> 'cb timer_queue \<Rightarrow> 'cb timer_queue option" where
  "reset_each [] now q = Some q"
| "reset_each (it # its) now q =
     do { t \<leftarrow> heap q (snd it);
          q \<leftarrow> (if repeats t \<and> (snd it, sequence t) \<notin> set (cancelingTimers q)
               then do { t' \<leftarrow> restart now t;
                         (q, _) \<leftarrow> insert_timer (snd it) (q\<lparr>heap := (heap q)(snd it \<mapsto> t')\<rparr>);
                         Some q }
               else delete_Timer (snd it) q);
          reset_each its now q }"

definition reset :: "entry list \<Rightarrow> timestamp \<Rightarrow> timestamp \<Rightarrow> 'cb timer_queue \<Rightarrow> 'cb timer_queue option" where
  "reset expired now clock q =
     do { q \<leftarrow> reset_each expired now q;
          nextExpire \<leftarrow> (case timers q of [] \<Rightarrow> Some invalid
                          | it # _ \<Rightarrow> map_option expiration (heap q (snd it)));
          if valid nextExpire
          then do { fd \<leftarrow> resetTimerfd nextExpire clock (timerfd q); Some (q\<lparr>timerfd := fd\<rparr>) }
          else Some q }"

definition handleRead :: "('cb \<Rightarrow> 'cb timer_queue \<Rightarrow> 'cb timer_queue option)
    \<Rightarrow> timestamp \<Rightarrow> timestamp \<Rightarrow> 'cb timer_queue \<Rightarrow> 'cb timer_queue option" where
  "handleRead run_cb now clock q =
     do { let q = q\<lparr>timerfd := readTimerfd (timerfd q)\<rparr>;
          (q, expired) \<leftarrow> getExpired now q;
          let q = q\<lparr>callingExpiredTimers := True, cancelingTimers := []\<rparr>;
          q \<leftarrow> run_expired run_cb expired q;
          let q = q\<lparr>callingExpiredTimers := False\<rparr>;
          reset expired now clock q }"

text \<open>The destructor's loop over \<open>timers_\<close>.\<close>

fun delete_timers :: "entry list \<Rightarrow> 'cb timer_queue \<Rightarrow> 'cb timer_queue option" where
  "delete_timers [] q = Some q"
| "delete_timers (it # its) q = do { q \<leftarrow> delete_Timer (snd it) q; delete_timers its q }"

definition TimerQueue_dtor :: "'cb timer_queue \<Rightarrow> 'cb timer_queue option" where
  "TimerQueue_dtor q = delete_timers (timers q) q"

subsection \<open>What clients do\<close>

text \<open>
  The calls a client makes from the loop's thread, with the address \<open>malloc\<close> returned and the
  reading of the clock. \<open>client_ok\<close> is what the environment guarantees: \<open>malloc\<close> returns memory
  that is not in use, times are within \<open>2 ^ 62\<close> microseconds (146,000 years) of the epoch, and the
  program creates fewer than \<open>2 ^ 63\<close> timers.
\<close>

datatype 'cb action =
    AddTimer ptr 'cb timestamp double timestamp
  | Cancel timer_id

definition sane_time :: "timestamp \<Rightarrow> bool" where
  "sane_time t \<longleftrightarrow> \<bar>microSecondsSinceEpoch t\<bar> < 2 ^ 62"

definition sane_interval :: "double \<Rightarrow> bool" where
  "sane_interval iv \<longleftrightarrow> dmul iv (of_int kMicroSecondsPerSecond) < 2 ^ 61"

fun client_ok :: "'cb action \<Rightarrow> 'cb timer_queue \<Rightarrow> bool" where
  "client_ok (AddTimer p cb when iv clock) q \<longleftrightarrow>
     heap q p = None \<and> p < UINTPTR_MAX \<and> sane_time when \<and> sane_interval iv \<and> sane_time clock
     \<and> sint (s_numCreated q) < INT64_MAX"
| "client_ok (Cancel tid) q \<longleftrightarrow> True"

fun do_action :: "'cb action \<Rightarrow> 'cb timer_queue \<Rightarrow> 'cb timer_queue option" where
  "do_action (AddTimer p cb when iv clock) q =
     addTimerInLoop p clock (fst (new_Timer p cb when iv q))"
| "do_action (Cancel tid) q = cancelInLoop tid q"

text \<open>A callback as a sequence of such calls, which may depend on the state it finds.\<close>

fun do_actions :: "'cb action list \<Rightarrow> 'cb timer_queue \<Rightarrow> 'cb timer_queue option" where
  "do_actions [] q = Some q"
| "do_actions (a # as) q = do { chk (client_ok a q); q \<leftarrow> do_action a q; do_actions as q }"

definition run_script :: "('cb \<Rightarrow> 'cb timer_queue \<Rightarrow> 'cb action list)
    \<Rightarrow> 'cb \<Rightarrow> 'cb timer_queue \<Rightarrow> 'cb timer_queue option" where
  "run_script script cb q = do_actions (script cb q) q"

subsection \<open>The invariant\<close>

text \<open>
  \<open>D\<close> holds the addresses of timers that exist but are not in the queue: those waiting to be added,
  and, while callbacks run, the expired ones. The queue owns every other timer of the heap.
\<close>

definition ptrs :: "entry list \<Rightarrow> ptr set" where
  "ptrs es = snd ` set es"

definition timer_ok :: "'cb timer \<Rightarrow> bool" where
  "timer_ok t \<longleftrightarrow> repeats t = (0 < interval t) \<and> sane_interval (interval t) \<and> sane_time (expiration t)"

definition seq_inv :: "(ptr \<Rightarrow> 'cb timer option) \<Rightarrow> int \<Rightarrow> bool" where
  "seq_inv h n \<longleftrightarrow> (\<forall>p t. h p = Some t \<longrightarrow> sequence t \<le> n)
     \<and> (\<forall>p r t u. h p = Some t \<longrightarrow> h r = Some u \<longrightarrow> sequence t = sequence u \<longrightarrow> p = r)"

definition tq_inv :: "ptr set \<Rightarrow> 'cb timer_queue \<Rightarrow> bool" where
  "tq_inv D q \<longleftrightarrow>
     sset (timers q) \<and> sset (activeTimers q)
     \<and> (\<forall>e p. (e, p) \<in> set (timers q) \<longrightarrow>
          p < UINTPTR_MAX \<and> p \<notin> D \<and> (\<exists>t. heap q p = Some t \<and> expiration t = e))
     \<and> set (activeTimers q) = {(p, sequence t) | p t. p \<in> ptrs (timers q) \<and> heap q p = Some t}
     \<and> dom (heap q) = D \<union> ptrs (timers q)
     \<and> (\<forall>p \<in> D. p < UINTPTR_MAX)
     \<and> (\<forall>p t. heap q p = Some t \<longrightarrow> timer_ok t)
     \<and> seq_inv (heap q) (sint (s_numCreated q))"

text \<open>An expiration of the timer descriptor is on its way, or waits to be read.\<close>

definition pending :: "timerfd \<Rightarrow> bool" where
  "pending fd \<longleftrightarrow> it_value fd \<noteq> None \<or> fired fd"

definition tq_live :: "'cb timer_queue \<Rightarrow> bool" where
  "tq_live q \<longleftrightarrow> (timers q \<noteq> [] \<longrightarrow> pending (timerfd q))"

text \<open>What remains of it while expired callbacks run: timers with an invalid time are announced.\<close>

definition tq_live_invalid :: "'cb timer_queue \<Rightarrow> bool" where
  "tq_live_invalid q \<longleftrightarrow> (\<forall>e p. (e, p) \<in> set (timers q) \<longrightarrow> \<not> valid e \<longrightarrow> pending (timerfd q))"

text \<open>No timer carries the sequence number \<open>s\<close>, and none will.\<close>

definition retired :: "int \<Rightarrow> 'cb timer_queue \<Rightarrow> bool" where
  "retired s q \<longleftrightarrow> s \<le> sint (s_numCreated q) \<and> (\<forall>p t. heap q p = Some t \<longrightarrow> sequence t \<noteq> s)"

lemma ptrs_simps [simp]:
  "ptrs [] = {}" "ptrs (it # its) = insert (snd it) (ptrs its)"
  "ptrs (xs @ ys) = ptrs xs \<union> ptrs ys"
  by (auto simp: ptrs_def)

lemma ptrsI: "(e, p) \<in> set es \<Longrightarrow> p \<in> ptrs es"
  by (force simp: ptrs_def)

lemma ptrsE: "p \<in> ptrs es \<Longrightarrow> (\<And>e. (e, p) \<in> set es \<Longrightarrow> P) \<Longrightarrow> P"
  by (auto simp: ptrs_def)

lemma tq_live_imp_invalid: "tq_live q \<Longrightarrow> tq_live_invalid q"
  by (auto simp: tq_live_def tq_live_invalid_def)

lemma tq_inv_entry:
  "tq_inv D q \<Longrightarrow> (e, p) \<in> set (timers q) \<Longrightarrow>
   p < UINTPTR_MAX \<and> p \<notin> D \<and> (\<exists>t. heap q p = Some t \<and> expiration t = e)"
  by (auto simp: tq_inv_def)

lemma tq_inv_disj: "tq_inv D q \<Longrightarrow> p \<in> ptrs (timers q) \<Longrightarrow> p \<notin> D"
  by (auto simp: tq_inv_def elim!: ptrsE)

lemma tq_inv_heap: "tq_inv D q \<Longrightarrow> dom (heap q) = D \<union> ptrs (timers q)"
  by (simp add: tq_inv_def)

lemma tq_inv_active_iff:
  "tq_inv D q \<Longrightarrow> ((p, s) \<in> set (activeTimers q)) = (p \<in> ptrs (timers q) \<and> (\<exists>t. heap q p = Some t \<and> sequence t = s))"
  by (auto simp: tq_inv_def)

lemma tq_inv_ptr_iff:
  "tq_inv D q \<Longrightarrow> heap q p = Some t \<Longrightarrow> ((e, p) \<in> set (timers q)) = (e = expiration t \<and> p \<notin> D)"
proof -
  assume inv: "tq_inv D q" and h: "heap q p = Some t"
  have "p \<in> D \<union> ptrs (timers q)"
    using inv h by (auto simp: tq_inv_def)
  then show ?thesis
    using tq_inv_entry [OF inv] h by (fastforce elim: ptrsE)
qed

lemma tq_inv_dom: "tq_inv D q \<Longrightarrow> (heap q p = None) = (p \<notin> D \<and> p \<notin> ptrs (timers q))"
  unfolding tq_inv_def by blast

lemma tq_inv_inj: "tq_inv D q \<Longrightarrow> (e, p) \<in> set (timers q) \<Longrightarrow> (e', p) \<in> set (timers q) \<Longrightarrow> e = e'"
  using tq_inv_entry [of D q e p] tq_inv_entry [of D q e' p] by auto

lemma tq_inv_seq:
  "tq_inv D q \<Longrightarrow> heap q p = Some t \<Longrightarrow> heap q r = Some u \<Longrightarrow> sequence t = sequence u \<Longrightarrow> p = r"
  unfolding tq_inv_def seq_inv_def by blast

lemma tq_inv_seq_le: "tq_inv D q \<Longrightarrow> heap q p = Some t \<Longrightarrow> sequence t \<le> sint (s_numCreated q)"
  unfolding tq_inv_def seq_inv_def by blast

text \<open>The size assertions of every operation: each queued timer has one entry in either set.\<close>

lemma tq_inv_length:
  assumes "tq_inv D q"
  shows "length (timers q) = length (activeTimers q)"
proof -
  have srt: "sset (timers q)" "sset (activeTimers q)"
    using assms by (auto simp: tq_inv_def)
  have "inj_on snd (set (timers q))"
    using tq_inv_inj [OF assms] by (auto intro!: inj_onI)
  then have "card (set (timers q)) = card (ptrs (timers q))"
    by (simp add: ptrs_def card_image)
  moreover have "inj_on fst (set (activeTimers q))"
    using assms by (intro inj_onI) (auto simp: tq_inv_def)
  then have "card (set (activeTimers q)) = card (fst ` set (activeTimers q))"
    by (simp add: card_image)
  moreover have "fst ` set (activeTimers q) = ptrs (timers q)"
  proof -
    have "set (activeTimers q) = {(p, sequence t) | p t. p \<in> ptrs (timers q) \<and> heap q p = Some t}"
      "ptrs (timers q) \<subseteq> dom (heap q)"
      using assms by (auto simp: tq_inv_def)
    then show ?thesis by (auto simp: image_iff)
  qed
  ultimately show ?thesis
    using srt by (simp add: length_sset)
qed

lemma tq_inv_TimerQueue: "tq_inv {} (TimerQueue n)"
  by (simp add: tq_inv_def TimerQueue_def ptrs_def seq_inv_def)

lemma seq_inv_new:
  "seq_inv h n \<Longrightarrow> sequence t = n + 1 \<Longrightarrow> seq_inv (h(p \<mapsto> t)) (n + 1)"
  unfolding seq_inv_def by (auto simp: fun_upd_apply) fastforce+

lemma seq_inv_del: "seq_inv h n \<Longrightarrow> seq_inv (h(p := None)) n"
  unfolding seq_inv_def by (simp add: fun_upd_apply)

lemma seq_inv_same: "seq_inv h n \<Longrightarrow> h p = Some t \<Longrightarrow> sequence t' = sequence t \<Longrightarrow> seq_inv (h(p \<mapsto> t')) n"
  unfolding seq_inv_def by (simp add: fun_upd_apply) metis

lemma tq_inv_frame [simp]:
  "tq_inv D (q\<lparr>timerfd := fd\<rparr>) = tq_inv D q"
  "tq_inv D (q\<lparr>callingExpiredTimers := b\<rparr>) = tq_inv D q"
  "tq_inv D (q\<lparr>cancelingTimers := c\<rparr>) = tq_inv D q"
  by (simp_all add: tq_inv_def)

subsection \<open>Single operations keep the invariant\<close>

lemma tq_inv_new:
  assumes inv: "tq_inv D q" and ok: "client_ok (AddTimer p cb when iv clock) q"
    and new: "new_Timer p cb when iv q = (q', tid)"
  shows "tq_inv (insert p D) q'" "p \<notin> ptrs (timers q')"
proof -
  have h: "heap q p = None" "p < UINTPTR_MAX" "sane_time when" "sane_interval iv"
      "sint (s_numCreated q) < INT64_MAX"
    using ok by auto
  have sq: "sequence (fst (Timer cb when iv (s_numCreated q))) = sint (s_numCreated q) + 1"
      "sint (snd (Timer cb when iv (s_numCreated q))) = sint (s_numCreated q) + 1"
    using sint_increment [OF h(5)] by (simp_all add: Timer_def incrementAndGet_eq)
  have q': "q' = q\<lparr>heap := (heap q)(p \<mapsto> fst (Timer cb when iv (s_numCreated q))),
      s_numCreated := snd (Timer cb when iv (s_numCreated q))\<rparr>"
    using new by (auto simp: new_Timer_def split: prod.splits)
  have p: "p \<notin> ptrs (timers q)" "p \<notin> D"
    using h(1) tq_inv_dom [OF inv] by auto
  then show "p \<notin> ptrs (timers q')" by (simp add: q')
  have "set (activeTimers q) = {(r, sequence t) | r t. r \<in> ptrs (timers q) \<and> heap q' r = Some t}"
    using inv p(1) by (auto simp: tq_inv_def q')
  moreover have "seq_inv (heap q') (sint (s_numCreated q'))"
    using inv sq by (simp add: q' tq_inv_def seq_inv_new)
  moreover have "timer_ok (fst (Timer cb when iv (s_numCreated q)))"
    using h by (simp add: Timer_def timer_ok_def incrementAndGet_eq)
  ultimately show "tq_inv (insert p D) q'"
    using inv h p by (auto simp: tq_inv_def q' ptrsI)
qed

lemma insert_timer_ok:
  assumes inv: "tq_inv D q" and p: "p \<in> D" and h: "heap q p = Some t"
  shows "\<exists>q'. insert_timer p q =
      Some (q', case timers q of [] \<Rightarrow> True | it # _ \<Rightarrow> expiration t < fst it)
    \<and> q' = q\<lparr>timers := set_ins (expiration t, p) (timers q),
            activeTimers := set_ins (p, sequence t) (activeTimers q)\<rparr>
    \<and> tq_inv (D - {p}) q'"
proof -
  let ?q' = "q\<lparr>timers := set_ins (expiration t, p) (timers q),
            activeTimers := set_ins (p, sequence t) (activeTimers q)\<rparr>"
  have srt: "sset (timers q)" "sset (activeTimers q)"
    using inv by (auto simp: tq_inv_def)
  have new: "p \<notin> ptrs (timers q)"
    using inv p by (auto simp: tq_inv_def elim: ptrsE)
  then have n1: "(expiration t, p) \<notin> set (timers q)" and n2: "(p, sequence t) \<notin> set (activeTimers q)"
    using tq_inv_active_iff [OF inv] by (auto dest: ptrsI)
  have len: "length (timers q) = length (activeTimers q)"
    using inv by (rule tq_inv_length)
  have "insert_timer p q =
      Some (?q', case timers q of [] \<Rightarrow> True | it # _ \<Rightarrow> expiration t < fst it)"
    using len h n1 n2 srt by (simp add: insert_timer_def set_insert_def Let_def)
  moreover have "tq_inv (D - {p}) ?q'"
  proof -
    have ps: "ptrs (set_ins (expiration t, p) (timers q)) = insert p (ptrs (timers q))"
      by (simp add: ptrs_def)
    have "set (activeTimers q) = {(r, sequence u) | r u. r \<in> ptrs (timers q) \<and> heap q r = Some u}"
      using inv by (simp add: tq_inv_def)
    then show ?thesis
      using inv p h new by (auto simp: tq_inv_def ps)
  qed
  ultimately show ?thesis by blast
qed

text \<open>The new first entry is the earliest.\<close>

lemma insert_timer_live:
  assumes "insert_timer p q = Some (q', earliestChanged)" and "heap q p = Some t"
  shows "timerfd q' = timerfd q"
    and "(e, r) \<in> set (timers q') \<Longrightarrow> (e, r) \<in> set (timers q) \<or> (e, r) = (expiration t, p)"
    and "\<not> earliestChanged \<Longrightarrow> \<exists>e' r'. (e', r') \<in> set (timers q) \<and> e' \<le> expiration t"
  using assms
  by (auto simp: insert_timer_def set_insert_def Let_def bind_eq_Some_conv not_less
      split: list.splits if_splits)

lemma in_int64_diff: "sane_time s \<Longrightarrow> sane_time t \<Longrightarrow>
    in_int64 (microSecondsSinceEpoch s - microSecondsSinceEpoch t)"
  unfolding sane_time_def int64_defs by simp linarith

lemma howMuchTimeFromNow_eq:
  "howMuchTimeFromNow when clock =
     (let us = microSecondsSinceEpoch when - microSecondsSinceEpoch clock
      in if in_int64 us then Some (max 100 us div 1000000, max 100 us mod 1000000 * 1000) else None)"
  by (simp add: howMuchTimeFromNow_def Let_def i64_def max_def)

lemma howMuch_pos: "howMuchTimeFromNow when clock = Some v \<Longrightarrow> v \<noteq> (0, 0)"
proof
  assume v: "howMuchTimeFromNow when clock = Some v" "v = (0, 0)"
  define us where "us = max 100 (microSecondsSinceEpoch when - microSecondsSinceEpoch clock)"
  have "us div 1000000 = 0" "us mod 1000000 = 0" "100 \<le> us"
    using v by (auto simp: howMuchTimeFromNow_eq us_def Let_def split: if_splits)
  then show False using div_mult_mod_eq [of us 1000000] by simp
qed

lemma resetTimerfd_ok:
  assumes "sane_time e" "sane_time clock"
  shows "\<exists>fd'. resetTimerfd e clock fd = Some fd' \<and> pending fd'"
proof -
  obtain v where v: "howMuchTimeFromNow e clock = Some v"
    using in_int64_diff [OF assms] by (auto simp: howMuchTimeFromNow_eq Let_def)
  then show ?thesis
    using howMuch_pos [OF v] by (simp add: resetTimerfd_def timerfd_settime_def pending_def)
qed

lemma addTimerInLoop_ok:
  assumes inv: "tq_inv D q" and p: "p \<in> D" and h: "heap q p = Some t" and clk: "sane_time clock"
  shows "\<exists>q'. addTimerInLoop p clock q = Some q' \<and> tq_inv (D - {p}) q'
    \<and> heap q' = heap q \<and> s_numCreated q' = s_numCreated q
    \<and> callingExpiredTimers q' = callingExpiredTimers q \<and> cancelingTimers q' = cancelingTimers q
    \<and> set (timers q') = insert (expiration t, p) (set (timers q))
    \<and> (tq_live_invalid q \<longrightarrow> tq_live_invalid q') \<and> (tq_live q \<longrightarrow> tq_live q')"
proof -
  obtain q1 ch where q1: "insert_timer p q = Some (q1, ch)" "tq_inv (D - {p}) q1"
    and q1': "q1 = q\<lparr>timers := set_ins (expiration t, p) (timers q),
            activeTimers := set_ins (p, sequence t) (activeTimers q)\<rparr>"
    using insert_timer_ok [OF inv p h] by auto
  note live = insert_timer_live [OF q1(1) h]
  show ?thesis
  proof (cases ch)
    case True
    have "sane_time (expiration t)"
      using inv h by (auto simp: tq_inv_def timer_ok_def)
    then obtain fd' where fd': "resetTimerfd (expiration t) clock (timerfd q) = Some fd'" "pending fd'"
      using resetTimerfd_ok clk by blast
    then show ?thesis
      using q1 q1' h True by (auto simp: addTimerInLoop_def tq_live_def tq_live_invalid_def)
  next
    case False
    obtain e' r' where e': "(e', r') \<in> set (timers q)" "e' \<le> expiration t"
      using live(3) False by blast
    have "tq_live_invalid q \<longrightarrow> tq_live_invalid q1"
      unfolding tq_live_invalid_def live(1)
    proof (intro impI allI)
      fix e r
      assume *: "\<forall>e p. (e, p) \<in> set (timers q) \<longrightarrow> \<not> valid e \<longrightarrow> pending (timerfd q)"
        and er: "(e, r) \<in> set (timers q1)" "\<not> valid e"
      from live(2) [OF er(1)] show "pending (timerfd q)"
      proof
        assume "(e, r) = (expiration t, p)"
        with er(2) e'(2) have "\<not> valid e'" by (auto simp: valid_def le_timestamp_iff)
        with * e'(1) show ?thesis by blast
      qed (use * er(2) in blast)
    qed
    moreover have "tq_live q \<longrightarrow> tq_live q1"
      using e'(1) live(1) by (auto simp: tq_live_def)
    ultimately show ?thesis
      using q1 q1' False by (auto simp: addTimerInLoop_def)
  qed
qed

lemma delete_Timer_Some: "heap q p = Some t \<Longrightarrow> delete_Timer p q = Some (q\<lparr>heap := (heap q)(p := None)\<rparr>)"
  by (simp add: delete_Timer_def)

text \<open>Both branches of \<open>cancelInLoop\<close> without its assertions, which hold.\<close>

lemma cancelInLoop_absent:
  assumes inv: "tq_inv D q" and "(p, s) \<notin> set (activeTimers q)"
  shows "cancelInLoop (TimerId p s) q = Some
    (if callingExpiredTimers q then q\<lparr>cancelingTimers := set_ins (p, s) (cancelingTimers q)\<rparr> else q)"
  using assms tq_inv_length [OF inv]
  by (simp add: cancelInLoop_def Let_def set_insert_def)

lemma cancelInLoop_present:
  assumes inv: "tq_inv D q" and act: "(p, s) \<in> set (activeTimers q)"
  obtains t where "heap q p = Some t" "sequence t = s" "(expiration t, p) \<in> set (timers q)" "p \<notin> D"
    and "cancelInLoop (TimerId p s) q = Some (q\<lparr>
        timers := filter (\<lambda>it. it \<noteq> (expiration t, p)) (timers q),
        heap := (heap q)(p := None),
        activeTimers := filter (\<lambda>a. a \<noteq> (p, s)) (activeTimers q)\<rparr>)"
proof -
  obtain t where t: "heap q p = Some t" "sequence t = s" "p \<in> ptrs (timers q)"
    using tq_inv_active_iff [OF inv] act by auto
  then have mem: "(expiration t, p) \<in> set (timers q)" "p \<notin> D"
    using tq_inv_entry [OF inv] by (fastforce elim: ptrsE)+
  have len: "length (timers q) = length (activeTimers q)" using inv by (rule tq_inv_length)
  have srt: "distinct (timers q)" "distinct (activeTimers q)"
    using inv by (auto simp: tq_inv_def sset_distinct)
  have "length (filter (\<lambda>it. it \<noteq> (expiration t, p)) (timers q))
      = length (filter (\<lambda>a. a \<noteq> (p, s)) (activeTimers q))"
    using length_filter_neq [OF srt(1) mem(1)] length_filter_neq [OF srt(2) act] len by simp
  with t mem act len that show thesis
    by (simp add: cancelInLoop_def Let_def set_erase_def delete_Timer_def)
qed

lemma cancelInLoop_frees:
  assumes "tq_inv D q" and "(p, s) \<in> set (activeTimers q)" and "cancelInLoop (TimerId p s) q = Some q'"
  shows "heap q' = (heap q)(p := None) \<and> s_numCreated q' = s_numCreated q"
  by (rule cancelInLoop_present [OF assms(1,2)]) (use assms(3) in auto)

lemma tq_inv_cancel:
  assumes inv: "tq_inv D q" and t: "heap q p = Some t" and mem: "(expiration t, p) \<in> set (timers q)"
  shows "tq_inv D (q\<lparr>timers := filter (\<lambda>it. it \<noteq> (expiration t, p)) (timers q),
        heap := (heap q)(p := None),
        activeTimers := filter (\<lambda>a. a \<noteq> (p, sequence t)) (activeTimers q)\<rparr>)"
proof -
  have p: "p \<notin> D" using tq_inv_entry [OF inv mem] by auto
  have ps: "ptrs (filter (\<lambda>it. it \<noteq> (expiration t, p)) (timers q)) = ptrs (timers q) - {p}"
    using tq_inv_inj [OF inv mem] by (force simp: ptrs_def image_iff)
  have act: "set (activeTimers q) = {(r, sequence u) | r u. r \<in> ptrs (timers q) \<and> heap q r = Some u}"
    using inv by (simp add: tq_inv_def)
  have act': "set (filter (\<lambda>a. a \<noteq> (p, sequence t)) (activeTimers q))
      = {(r, sequence u) | r u. r \<in> ptrs (timers q) - {p} \<and> ((heap q)(p := None)) r = Some u}"
  proof (rule set_eqI, rule iffI)
    fix x assume "x \<in> set (filter (\<lambda>a. a \<noteq> (p, sequence t)) (activeTimers q))"
    then obtain r u where x: "x = (r, sequence u)" "r \<in> ptrs (timers q)" "heap q r = Some u"
      "x \<noteq> (p, sequence t)" by (auto simp: act)
    with t have "r \<noteq> p" by auto
    with x show "x \<in> {(r, sequence u) | r u. r \<in> ptrs (timers q) - {p} \<and> ((heap q)(p := None)) r = Some u}"
      by auto
  qed (auto simp: act)
  have ent: "r < UINTPTR_MAX \<and> r \<notin> D \<and> (\<exists>u. ((heap q)(p := None)) r = Some u \<and> expiration u = e)"
    if "(e, r) \<in> set (timers q)" "(e, r) \<noteq> (expiration t, p)" for e r
    using that tq_inv_entry [OF inv that(1)] tq_inv_inj [OF inv mem] by auto
  have "seq_inv ((heap q)(p := None)) (sint (s_numCreated q))"
    using inv by (simp add: tq_inv_def seq_inv_del)
  then show ?thesis
    using inv p act' ent unfolding tq_inv_def by (simp add: ps) blast
qed

text \<open>A cancelled or fired timer's sequence number is retired for good.\<close>

lemma retired_del:
  "tq_inv D q \<Longrightarrow> heap q p = Some t \<Longrightarrow> heap q' = (heap q)(p := None) \<Longrightarrow>
   s_numCreated q' = s_numCreated q \<Longrightarrow> retired (sequence t) q'"
  unfolding tq_inv_def seq_inv_def retired_def by (auto split: if_splits)

lemma retired_frame:
  "retired s q \<Longrightarrow> s_numCreated q' = s_numCreated q \<Longrightarrow>
   (\<And>p t'. heap q' p = Some t' \<Longrightarrow> \<exists>r t. heap q r = Some t \<and> sequence t' = sequence t) \<Longrightarrow> retired s q'"
  unfolding retired_def by (metis (no_types))

lemma retired_new:
  "retired s q \<Longrightarrow> client_ok (AddTimer p cb when iv clock) q \<Longrightarrow>
   retired s (fst (new_Timer p cb when iv q))"
  using sint_increment [of "s_numCreated q"]
  by (auto simp: retired_def new_Timer_def Timer_def incrementAndGet_eq split: if_splits)

lemma cancelInLoop_retired:
  assumes inv: "tq_inv D q" and s: "retired s q" and idle: "\<not> callingExpiredTimers q"
  shows "cancelInLoop (TimerId p s) q = Some q"
proof -
  have "(p, s) \<notin> set (activeTimers q)"
    using tq_inv_active_iff [OF inv] s by (auto simp: retired_def)
  from cancelInLoop_absent [OF inv this] idle show ?thesis by simp
qed

subsection \<open>The contract of a timer callback\<close>

definition cb_step :: "ptr set \<Rightarrow> 'cb timer_queue \<Rightarrow> 'cb timer_queue \<Rightarrow> bool" where
  "cb_step D q q' \<longleftrightarrow>
     tq_inv D q' \<and> callingExpiredTimers q' = callingExpiredTimers q
     \<and> (\<forall>p \<in> D. heap q' p = heap q p)
     \<and> set (cancelingTimers q) \<subseteq> set (cancelingTimers q')
     \<and> (tq_live_invalid q \<longrightarrow> tq_live_invalid q') \<and> (tq_live q \<longrightarrow> tq_live q')
     \<and> (\<forall>s. retired s q \<longrightarrow> retired s q')"

lemma cb_step_refl: "tq_inv D q \<Longrightarrow> cb_step D q q"
  by (simp add: cb_step_def)

lemma cb_step_trans: "cb_step D q q' \<Longrightarrow> cb_step D q' q'' \<Longrightarrow> cb_step D q q''"
  unfolding cb_step_def by auto

lemma cb_stepD: "cb_step D q q' \<Longrightarrow> tq_inv D q'"
  by (simp add: cb_step_def)

lemma do_action_Add:
  assumes inv: "tq_inv D q" and ok: "client_ok (AddTimer p cb when iv clock) q"
  shows "\<exists>q'. do_action (AddTimer p cb when iv clock) q = Some q' \<and> cb_step D q q'"
proof -
  obtain q1 tid where q1: "new_Timer p cb when iv q = (q1, tid)" by fastforce
  have frame: "callingExpiredTimers q1 = callingExpiredTimers q" "cancelingTimers q1 = cancelingTimers q"
      "timers q1 = timers q" "timerfd q1 = timerfd q"
    using q1 by (auto simp: new_Timer_def split: prod.splits)
  obtain t where t: "heap q1 = (heap q)(p \<mapsto> t)"
    using q1 by (auto simp: new_Timer_def split: prod.splits)
  have pD: "p \<notin> D" using ok tq_inv_dom [OF inv, of p] by simp
  have q1D: "tq_inv (insert p D) q1" by (rule tq_inv_new(1) [OF inv ok q1])
  obtain q' where q': "addTimerInLoop p clock q1 = Some q'" "tq_inv (insert p D - {p}) q'"
      "heap q' = heap q1" "s_numCreated q' = s_numCreated q1"
      "callingExpiredTimers q' = callingExpiredTimers q1" "cancelingTimers q' = cancelingTimers q1"
      "tq_live_invalid q1 \<longrightarrow> tq_live_invalid q'" "tq_live q1 \<longrightarrow> tq_live q'"
    using addTimerInLoop_ok [OF q1D insertI1, of t clock] t ok by auto
  have "retired s q \<longrightarrow> retired s q'" for s
    using retired_new [OF _ ok] q1 q'(3,4) by (auto simp: retired_def)
  with q' frame t pD show ?thesis
    by (simp add: cb_step_def q1 tq_live_def tq_live_invalid_def)
qed

lemma cancelInLoop_step:
  assumes inv: "tq_inv D q"
  shows "\<exists>q'. cancelInLoop (TimerId p s) q = Some q' \<and> cb_step D q q'"
proof (cases "(p, s) \<in> set (activeTimers q)")
  case True
  then obtain t where t: "heap q p = Some t" "sequence t = s" "(expiration t, p) \<in> set (timers q)" "p \<notin> D"
    and c: "cancelInLoop (TimerId p s) q = Some (q\<lparr>
        timers := filter (\<lambda>it. it \<noteq> (expiration t, p)) (timers q),
        heap := (heap q)(p := None),
        activeTimers := filter (\<lambda>a. a \<noteq> (p, s)) (activeTimers q)\<rparr>)"
    using cancelInLoop_present [OF inv] by blast
  show ?thesis
    using tq_inv_cancel [OF inv t(1,3)] t(2,4)
    by (auto simp: c cb_step_def tq_live_def tq_live_invalid_def retired_def)
next
  case False
  then show ?thesis
    using cancelInLoop_absent [OF inv False] inv
    by (auto simp: cb_step_def tq_live_def tq_live_invalid_def retired_def)
qed

lemma do_action_step:
  assumes "tq_inv D q" and "client_ok a q"
  shows "\<exists>q'. do_action a q = Some q' \<and> cb_step D q q'"
proof (cases a)
  case (AddTimer p cb w iv clock)
  show ?thesis
    using do_action_Add [OF assms(1)] assms(2) unfolding AddTimer by blast
next
  case (Cancel tid)
  then show ?thesis using assms cancelInLoop_step by (cases tid) auto
qed

lemma do_actions_step: "tq_inv D q \<Longrightarrow> do_actions as q = Some q' \<Longrightarrow> cb_step D q q'"
proof (induction as arbitrary: q)
  case Nil
  then show ?case by (simp add: cb_step_refl)
next
  case (Cons a as)
  then obtain q1 where q1: "client_ok a q" "do_action a q = Some q1" "do_actions as q1 = Some q'"
    by (auto simp: bind_eq_Some_conv)
  then have "cb_step D q q1" using do_action_step [OF Cons.prems(1)] by fastforce
  moreover from this have "cb_step D q1 q'" using Cons.IH q1(3) cb_stepD by blast
  ultimately show ?case by (rule cb_step_trans)
qed

locale timer_callbacks =
  fixes run_cb :: "'cb \<Rightarrow> 'cb timer_queue \<Rightarrow> 'cb timer_queue option"
  assumes cb_keeps: "tq_inv D q \<Longrightarrow> callingExpiredTimers q \<Longrightarrow> run_cb cb q = Some q' \<Longrightarrow> cb_step D q q'"

interpretation scripted: timer_callbacks "run_script script" for script
  by unfold_locales (simp add: run_script_def do_actions_step)

subsection \<open>One expiration of the timer descriptor\<close>

lemma erase_active_ok:
  assumes "\<And>e p. (e, p) \<in> set es \<Longrightarrow> \<exists>t. h p = Some t \<and> (p, sequence t) \<in> set act"
    and "distinct (map snd es)"
  shows "erase_active h es act = Some (filter (\<lambda>(p, s). p \<notin> ptrs es \<or> (\<forall>t. h p = Some t \<longrightarrow> s \<noteq> sequence t)) act)"
  using assms
proof (induction es arbitrary: act)
  case Nil
  then show ?case by simp
next
  case (Cons it es)
  obtain e p where it: "it = (e, p)" by fastforce
  obtain t where t: "h p = Some t" "(p, sequence t) \<in> set act"
    using Cons.prems(1) [of e p] it by auto
  let ?act = "filter (\<lambda>y. y \<noteq> (p, sequence t)) act"
  have "\<exists>u. h r = Some u \<and> (r, sequence u) \<in> set ?act" if "(f, r) \<in> set es" for f r
  proof -
    have "r \<noteq> p" using Cons.prems(2) that it by force
    then show ?thesis using Cons.prems(1) [of f r] that by auto
  qed
  from Cons.IH [of ?act, OF this] Cons.prems(2)
  show ?case using t by (auto simp: it set_erase_def intro!: filter_cong)
qed

lemma sentry_less_iff: "p < UINTPTR_MAX \<Longrightarrow> ((e, p) < (now, UINTPTR_MAX)) = ((e::timestamp) \<le> now)"
  by (auto simp: less_prod_def)

lemma getExpired_ok:
  assumes inv: "tq_inv {} q"
  shows "\<exists>q' ex. getExpired now q = Some (q', ex) \<and> tq_inv (ptrs ex) q'
    \<and> timers q = ex @ timers q' \<and> distinct (map snd ex)
    \<and> set ex = {it \<in> set (timers q). fst it \<le> now}
    \<and> set (timers q') = {it \<in> set (timers q). now < fst it}
    \<and> heap q' = heap q \<and> s_numCreated q' = s_numCreated q \<and> timerfd q' = timerfd q
    \<and> callingExpiredTimers q' = callingExpiredTimers q"
proof -
  obtain ex rest where sp: "set_split (now, UINTPTR_MAX) (timers q) = (ex, rest)" by fastforce
  have srt: "sset (timers q)" using inv by (simp add: tq_inv_def)
  note parts = sset_split_sorted [OF srt sp]
  have ex: "set ex = {it \<in> set (timers q). fst it \<le> now}"
    using parts(4) tq_inv_entry [OF inv] by (auto simp: sentry_less_iff)
  have rest: "set rest = {it \<in> set (timers q). now < fst it}"
    using parts(5) tq_inv_entry [OF inv] by (auto simp: sentry_less_iff not_less [symmetric])
  have dist: "distinct (map snd (timers q))"
    using tq_inv_inj [OF inv] srt by (auto simp: distinct_map sset_distinct intro!: inj_onI)
  then have disj: "ptrs ex \<inter> ptrs rest = {}" and dex: "distinct (map snd ex)"
    unfolding parts(3) by (auto simp: ptrs_def)
  let ?act = "filter (\<lambda>(p, s). p \<notin> ptrs ex \<or> (\<forall>t. heap q p = Some t \<longrightarrow> s \<noteq> sequence t)) (activeTimers q)"
  let ?q' = "q\<lparr>timers := rest, activeTimers := ?act\<rparr>"
  have "erase_active (heap q) ex (activeTimers q) = Some ?act"
  proof (rule erase_active_ok [OF _ dex])
    fix e p assume "(e, p) \<in> set ex"
    then have "(e, p) \<in> set (timers q)" by (simp add: parts(3))
    then show "\<exists>t. heap q p = Some t \<and> (p, sequence t) \<in> set (activeTimers q)"
      using tq_inv_entry [OF inv, of e p] tq_inv_active_iff [OF inv] by (auto dest: ptrsI)
  qed
  moreover have inv': "tq_inv (ptrs ex) ?q'"
  proof -
    have "set (activeTimers q) = {(p, sequence t) | p t. p \<in> ptrs (timers q) \<and> heap q p = Some t}"
      using inv by (simp add: tq_inv_def)
    moreover have "ptrs (timers q) = ptrs ex \<union> ptrs rest" by (simp add: parts(3))
    ultimately have "set ?act = {(p, sequence t) | p t. p \<in> ptrs rest \<and> heap q p = Some t}"
      using disj by auto
    moreover have "p < UINTPTR_MAX \<and> p \<notin> ptrs ex \<and> (\<exists>t. heap q p = Some t \<and> expiration t = e)"
      if "(e, p) \<in> set rest" for e p
      using that tq_inv_entry [OF inv, of e p] disj by (auto simp: parts(3) dest: ptrsI)
    moreover have "p < UINTPTR_MAX" if "p \<in> ptrs ex" for p
      using that tq_inv_entry [OF inv] by (auto simp: parts(3) elim!: ptrsE)
    ultimately show ?thesis
      using inv parts(2) by (simp add: tq_inv_def parts(3))
  qed
  moreover have "case rest of [] \<Rightarrow> True | end # _ \<Rightarrow> now < fst end"
    using rest by (cases rest) auto
  ultimately have get: "getExpired now q = Some (?q', ex)"
    using tq_inv_length [OF inv] tq_inv_length [OF inv'] by (simp add: getExpired_def sp)
  show ?thesis
  proof (intro exI [of _ ?q'] exI [of _ ex] conjI)
    show "timers q = ex @ timers ?q'" using parts(3) by simp
    show "set ex = {it \<in> set (timers q). fst it \<le> now}" by (rule ex)
    show "set (timers ?q') = {it \<in> set (timers q). now < fst it}" using rest by simp
  qed (use get inv' dex in simp_all)
qed

subsection \<open>Re-arming the repeating timers\<close>

definition sane_now :: "timestamp \<Rightarrow> bool" where
  "sane_now now \<longleftrightarrow> valid now \<and> microSecondsSinceEpoch now < 2 ^ 61"

lemma restart_ok:
  assumes "timer_ok t" "repeats t" "sane_now now"
  shows "\<exists>e. addTime now (interval t) = Some e \<and> now \<le> e \<and> valid e \<and> sane_time e"
proof -
  define x where "x = dmul (interval t) (of_int kMicroSecondsPerSecond)"
  have "0 \<le> x"
    using assms by (simp add: x_def dmul_def dround_nonneg timer_ok_def)
  moreover have "x < 2 ^ 61"
    using assms by (simp add: x_def timer_ok_def sane_interval_def)
  ultimately have d: "0 \<le> \<lfloor>x\<rfloor>" "\<lfloor>x\<rfloor> < 2 ^ 61"
    by (simp_all add: floor_less_iff)
  define k where "k = \<lfloor>x\<rfloor>"
  have k: "0 \<le> k" "k < 2 ^ 61" using d by (simp_all add: k_def)
  have "double_to_i64 (dmul (interval t) 1000000) = Some k"
    using \<open>0 \<le> x\<close> d by (simp add: double_to_i64_def int64_defs x_def k_def)
  moreover have "0 < microSecondsSinceEpoch now" "microSecondsSinceEpoch now < 2 ^ 61"
    using assms(3) by (simp_all add: sane_now_def valid_def)
  moreover from this k have "in_int64 (microSecondsSinceEpoch now + k)"
    by (simp add: int64_defs)
  ultimately show ?thesis
    using k by (simp add: addTime_def le_timestamp_iff valid_def sane_time_def)
qed

lemma delete_Timer_step:
  assumes inv: "tq_inv (insert p D) q" and p: "p \<notin> D" and h: "heap q p = Some t"
  shows "tq_inv D (q\<lparr>heap := (heap q)(p := None)\<rparr>)"
proof -
  have "p \<notin> ptrs (timers q)" using inv by (auto simp: tq_inv_def elim!: ptrsE)
  moreover have "seq_inv ((heap q)(p := None)) (sint (s_numCreated q))"
    using inv by (simp add: tq_inv_def seq_inv_del)
  ultimately show ?thesis
    using inv p by (auto simp: tq_inv_def)
qed

lemma restart_step:
  assumes inv: "tq_inv (insert p D) q" and p: "p \<notin> D" and h: "heap q p = Some t"
    and e: "sane_time e"
  shows "tq_inv (insert p D) (q\<lparr>heap := (heap q)(p \<mapsto> t\<lparr>expiration := e\<rparr>)\<rparr>)"
proof -
  have np: "p \<notin> ptrs (timers q)" using inv by (auto simp: tq_inv_def elim!: ptrsE)
  have "seq_inv ((heap q)(p \<mapsto> t\<lparr>expiration := e\<rparr>)) (sint (s_numCreated q))"
    using inv h by (simp add: tq_inv_def seq_inv_same)
  moreover have "timer_ok (t\<lparr>expiration := e\<rparr>)"
    using inv h e by (auto simp: tq_inv_def timer_ok_def)
  moreover have "{(r, sequence u) | r u. r \<in> ptrs (timers q) \<and> ((heap q)(p \<mapsto> t\<lparr>expiration := e\<rparr>)) r = Some u}
      = {(r, sequence u) | r u. r \<in> ptrs (timers q) \<and> heap q r = Some u}"
    using np by auto
  ultimately show ?thesis
    using inv np by (auto simp: tq_inv_def)
qed

text \<open>What becomes of one expired timer \<open>t\<close> at \<open>p\<close>: re-armed, or freed.\<close>

definition settled :: "timestamp \<Rightarrow> active_timer list \<Rightarrow> 'cb timer_queue \<Rightarrow> ptr \<Rightarrow> 'cb timer \<Rightarrow> bool" where
  "settled now canceling q p t \<longleftrightarrow>
     (if repeats t \<and> (p, sequence t) \<notin> set canceling
      then \<exists>e. addTime now (interval t) = Some e \<and> heap q p = Some (t\<lparr>expiration := e\<rparr>) \<and> (e, p) \<in> set (timers q)
      else heap q p = None)"

definition reset_post :: "timestamp \<Rightarrow> entry list \<Rightarrow> ptr set \<Rightarrow> 'cb timer_queue \<Rightarrow> 'cb timer_queue \<Rightarrow> bool" where
  "reset_post now ex D q q' \<longleftrightarrow>
     tq_inv D q' \<and> (tq_live_invalid q \<longrightarrow> tq_live_invalid q')
     \<and> (\<forall>s. retired s q \<longrightarrow> retired s q')
     \<and> cancelingTimers q' = cancelingTimers q \<and> callingExpiredTimers q' = callingExpiredTimers q
     \<and> s_numCreated q' = s_numCreated q \<and> timerfd q' = timerfd q
     \<and> (\<forall>p. p \<notin> ptrs ex \<longrightarrow> heap q' p = heap q p)
     \<and> set (timers q) \<subseteq> set (timers q')
     \<and> (\<forall>p \<in> ptrs ex. \<forall>t. heap q p = Some t \<longrightarrow> settled now (cancelingTimers q) q' p t)"

text \<open>One turn of the loop of \<open>reset\<close>.\<close>

lemma reset_turn:
  assumes inv: "tq_inv (insert p D) q" and p: "p \<notin> D" and now: "sane_now now"
  shows "\<exists>q'. (\<forall>its e. reset_each ((e, p) # its) now q = reset_each its now q')
    \<and> reset_post now [(e, p)] D q q'"
proof -
  have "heap q p \<noteq> None" using tq_inv_dom [OF inv, of p] by simp
  then obtain t where t: "heap q p = Some t" by blast
  show ?thesis
  proof (cases "repeats t \<and> (p, sequence t) \<notin> set (cancelingTimers q)")
    case True
    have "timer_ok t" using inv t by (auto simp: tq_inv_def)
    then obtain e where e: "addTime now (interval t) = Some e" "valid e" "sane_time e"
      using restart_ok True now by blast
    let ?t = "t\<lparr>expiration := e\<rparr>"
    let ?q1 = "q\<lparr>heap := (heap q)(p \<mapsto> ?t)\<rparr>"
    obtain q' ch where q': "insert_timer p ?q1 = Some (q', ch)" "tq_inv D q'"
      and eq: "q' = ?q1\<lparr>timers := set_ins (e, p) (timers q),
          activeTimers := set_ins (p, sequence t) (activeTimers q)\<rparr>"
      using insert_timer_ok [OF restart_step [OF inv p t e(3)] insertI1, of ?t] p by auto
    have "reset_post now [(f, p)] D q q'" for f
      using q'(2) t True e p
      by (auto simp: reset_post_def settled_def eq tq_live_invalid_def retired_def)
    moreover have "\<forall>its f. reset_each ((f, p) # its) now q = reset_each its now q'"
      using t True e(1) q'(1) by (simp add: restart_def)
    ultimately show ?thesis by blast
  next
    case False
    let ?q' = "q\<lparr>heap := (heap q)(p := None)\<rparr>"
    have "\<forall>its f. reset_each ((f, p) # its) now q = reset_each its now ?q'"
      using t False by (auto simp: delete_Timer_Some)
    moreover have "reset_post now [(f, p)] D q ?q'" for f
      using delete_Timer_step [OF inv p t] t False
      by (auto simp: reset_post_def settled_def tq_live_invalid_def retired_def)
    ultimately show ?thesis by blast
  qed
qed

lemma reset_post_refl: "tq_inv D q \<Longrightarrow> reset_post now [] D q q"
  by (simp add: reset_post_def)

lemma reset_post_Cons:
  assumes 1: "reset_post now [(e, p)] (ptrs its \<union> D) q q1" and 2: "reset_post now its D q1 q2"
    and p: "p \<notin> ptrs its"
  shows "reset_post now ((e, p) # its) D q q2"
proof -
  have "heap q2 p = heap q1 p" "set (timers q1) \<subseteq> set (timers q2)"
      "cancelingTimers q1 = cancelingTimers q"
    using 1 2 p by (auto simp: reset_post_def)
  then have "settled now (cancelingTimers q) q2 p t" if "heap q p = Some t" for t
    using 1 that by (auto simp: reset_post_def settled_def split: if_splits)
  moreover have "settled now (cancelingTimers q) q2 r t" if "r \<in> ptrs its" "heap q r = Some t" for r t
    using 1 2 that p by (auto simp: reset_post_def)
  ultimately show ?thesis
    using 1 2 by (auto simp: reset_post_def)
qed

lemma reset_each_ok:
  "tq_inv (ptrs ex \<union> D) q \<Longrightarrow> ptrs ex \<inter> D = {} \<Longrightarrow> distinct (map snd ex) \<Longrightarrow> sane_now now \<Longrightarrow>
   \<exists>q'. reset_each ex now q = Some q' \<and> reset_post now ex D q q'"
proof (induction ex arbitrary: q)
  case Nil
  then show ?case by (simp add: reset_post_refl)
next
  case (Cons it its)
  obtain e p where it: "it = (e, p)" by fastforce
  have p: "p \<notin> ptrs its" "p \<notin> D"
    using Cons.prems(2,3) by (auto simp: it ptrs_def)
  obtain q1 where q1: "reset_each (it # its) now q = reset_each its now q1"
      "reset_post now [(e, p)] (ptrs its \<union> D) q q1"
    using reset_turn [of p "ptrs its \<union> D" q now e] Cons.prems(1,4) p by (auto simp: it)
  obtain q2 where q2: "reset_each its now q1 = Some q2" "reset_post now its D q1 q2"
    using Cons.IH [of q1] Cons.prems q1(2) by (auto simp: reset_post_def)
  then show ?case
    using q1 reset_post_Cons [OF q1(2) q2(2) p(1)] by (simp add: it)
qed

lemma reset_ok:
  assumes inv: "tq_inv (ptrs ex) q" and dist: "distinct (map snd ex)"
    and now: "sane_now now" and clk: "sane_time clock" and live: "tq_live_invalid q"
  shows "\<exists>q1 q'. reset_post now ex {} q q1 \<and> reset ex now clock q = Some q'
    \<and> (\<exists>fd. q' = q1\<lparr>timerfd := fd\<rparr>) \<and> tq_live q'"
proof -
  obtain q1 where q1: "reset_each ex now q = Some q1" "reset_post now ex {} q q1"
    using reset_each_ok [of ex "{}" q now] assms by auto
  have inv1: "tq_inv {} q1" and live1: "tq_live_invalid q1"
    using q1(2) live by (auto simp: reset_post_def)
  show ?thesis
  proof (cases "timers q1")
    case Nil
    then have "reset ex now clock q = Some (q1\<lparr>timerfd := timerfd q1\<rparr>)" "tq_live q1"
      using q1(1) by (simp_all add: reset_def valid_def invalid_def tq_live_def)
    with q1(2) show ?thesis by fastforce
  next
    case (Cons it its)
    obtain e p where it: "it = (e, p)" by fastforce
    have mem: "(e, p) \<in> set (timers q1)" by (simp add: Cons it)
    then obtain t where t: "heap q1 p = Some t" "expiration t = e"
      using tq_inv_entry [OF inv1] by blast
    show ?thesis
    proof (cases "valid e")
      case True
      have "sane_time e" using inv1 t by (auto simp: tq_inv_def timer_ok_def)
      then obtain fd where fd: "resetTimerfd e clock (timerfd q1) = Some fd" "pending fd"
        using resetTimerfd_ok clk by blast
      then have "reset ex now clock q = Some (q1\<lparr>timerfd := fd\<rparr>)"
        using q1(1) t True by (simp add: reset_def Cons it)
      with q1(2) fd(2) show ?thesis by (auto simp: tq_live_def)
    next
      case False
      then have "reset ex now clock q = Some (q1\<lparr>timerfd := timerfd q1\<rparr>)"
        using q1(1) t by (simp add: reset_def Cons it)
      moreover have "tq_live q1"
        using live1 mem False by (auto simp: tq_live_def tq_live_invalid_def)
      ultimately show ?thesis using q1(2) by fastforce
    qed
  qed
qed

lemma reset_post_retired: "reset_post now ex D q q' \<Longrightarrow> retired s q \<Longrightarrow> retired s q'"
  by (simp add: reset_post_def)

subsection \<open>\<open>handleRead\<close> under the contract\<close>

context timer_callbacks
begin

lemma run_expired_step:
  "tq_inv D q \<Longrightarrow> callingExpiredTimers q \<Longrightarrow> run_expired run_cb ex q = Some q' \<Longrightarrow> cb_step D q q'"
proof (induction ex arbitrary: q)
  case Nil
  then show ?case by (simp add: cb_step_refl)
next
  case (Cons it its)
  from Cons.prems(3) obtain t :: "'cb timer" and q1 where
      q1: "run_cb (callback t) q = Some q1" "run_expired run_cb its q1 = Some q'"
    by (simp add: bind_eq_Some_conv) blast
  have "cb_step D q q1" using cb_keeps Cons.prems(1,2) q1(1) .
  moreover from this have "cb_step D q1 q'"
    using Cons.IH [of q1] Cons.prems(2) q1(2) by (simp add: cb_step_def)
  ultimately show ?case by (rule cb_step_trans)
qed

lemma run_expired_total:
  assumes total: "\<And>D q cb. tq_inv D q \<Longrightarrow> callingExpiredTimers q \<Longrightarrow> run_cb cb q \<noteq> None"
  shows "tq_inv D q \<Longrightarrow> callingExpiredTimers q \<Longrightarrow> ptrs ex \<subseteq> D \<Longrightarrow> run_expired run_cb ex q \<noteq> None"
proof (induction ex arbitrary: q)
  case Nil
  then show ?case by simp
next
  case (Cons it its)
  have "heap q (snd it) \<noteq> None"
    using tq_inv_dom [OF Cons.prems(1)] Cons.prems(3) by auto
  then obtain t q1 where t: "heap q (snd it) = Some t" and q1: "run_cb (callback t) q = Some q1"
    using total [OF Cons.prems(1,2)] by blast
  have "cb_step D q q1" using cb_keeps Cons.prems(1,2) q1 .
  then have "run_expired run_cb its q1 \<noteq> None"
    using Cons.IH [of q1] Cons.prems(2,3) by (simp add: cb_step_def)
  with t q1 show ?case by simp
qed

text \<open>The stages of one call: the expired entries \<open>ex\<close>, the queue \<open>q2\<close> when the callbacks start, \<open>q3\<close>
  when they have run, \<open>q4\<close> when every expired timer is settled.\<close>

lemma handleRead_stages:
  assumes inv: "tq_inv {} q" and now: "sane_now now" and clk: "sane_time clock"
  obtains ex q2 where "distinct (map snd ex)" "set ex = {it \<in> set (timers q). fst it \<le> now}"
    and "timers q = ex @ timers q2" "heap q2 = heap q" "s_numCreated q2 = s_numCreated q"
    and "tq_inv (ptrs ex) q2" "callingExpiredTimers q2" "tq_live_invalid q2" "cancelingTimers q2 = []"
    and "\<And>q'. handleRead run_cb now clock q = Some q' \<Longrightarrow>
      \<exists>q3 q4 fd. run_expired run_cb ex q2 = Some q3 \<and> cb_step (ptrs ex) q2 q3
        \<and> reset_post now ex {} (q3\<lparr>callingExpiredTimers := False\<rparr>) q4
        \<and> q' = q4\<lparr>timerfd := fd\<rparr> \<and> tq_live q'"
    and "run_expired run_cb ex q2 \<noteq> None \<Longrightarrow> handleRead run_cb now clock q \<noteq> None"
proof -
  let ?q0 = "q\<lparr>timerfd := readTimerfd (timerfd q)\<rparr>"
  have "tq_inv {} ?q0" using inv by simp
  from getExpired_ok [OF this, of now]
  obtain q1 ex where get: "getExpired now ?q0 = Some (q1, ex)" "tq_inv (ptrs ex) q1"
      "timers ?q0 = ex @ timers q1" "distinct (map snd ex)" "set ex = {it \<in> set (timers ?q0). fst it \<le> now}"
      "set (timers q1) = {it \<in> set (timers ?q0). now < fst it}"
      "heap q1 = heap ?q0" "s_numCreated q1 = s_numCreated ?q0"
    by blast
  have q1: "timers q = ex @ timers q1" "set ex = {it \<in> set (timers q). fst it \<le> now}"
      "set (timers q1) = {it \<in> set (timers q). now < fst it}" "heap q1 = heap q"
      "s_numCreated q1 = s_numCreated q"
    subgoal using get(3) by simp
    subgoal using get(5) by simp
    subgoal using get(6) by simp
    subgoal using get(7) by simp
    subgoal using get(8) by simp
    done
  let ?q2 = "q1\<lparr>callingExpiredTimers := True, cancelingTimers := []\<rparr>"
  have live: "tq_live_invalid ?q2"
    using q1(3) now by (auto simp: tq_live_invalid_def valid_def sane_now_def less_timestamp_def timestamp_less_def)
  have step: "handleRead run_cb now clock q =
      do { q3 \<leftarrow> run_expired run_cb ex ?q2; reset ex now clock (q3\<lparr>callingExpiredTimers := False\<rparr>) }"
    by (simp add: handleRead_def get(1) Let_def)
  have inv2: "tq_inv (ptrs ex) ?q2" using get(2) by simp
  have post: "\<exists>q4 q' fd. reset_post now ex {} (q3\<lparr>callingExpiredTimers := False\<rparr>) q4
      \<and> reset ex now clock (q3\<lparr>callingExpiredTimers := False\<rparr>) = Some q'
      \<and> q' = q4\<lparr>timerfd := fd\<rparr> \<and> tq_live q'"
    if st: "cb_step (ptrs ex) ?q2 q3" for q3
  proof -
    have "tq_inv (ptrs ex) q3" "tq_live_invalid q3"
      using st live unfolding cb_step_def by blast+
    then have "tq_inv (ptrs ex) (q3\<lparr>callingExpiredTimers := False\<rparr>)"
        "tq_live_invalid (q3\<lparr>callingExpiredTimers := False\<rparr>)"
      by (simp_all add: tq_live_invalid_def)
    from reset_ok [OF this(1) get(4) now clk this(2)] show ?thesis by blast
  qed
  show thesis
  proof (rule that [of ex ?q2])
    fix q' assume "handleRead run_cb now clock q = Some q'"
    then obtain q3 where q3: "run_expired run_cb ex ?q2 = Some q3"
        "reset ex now clock (q3\<lparr>callingExpiredTimers := False\<rparr>) = Some q'"
      by (auto simp: step bind_eq_Some_conv)
    have st: "cb_step (ptrs ex) ?q2 q3" by (rule run_expired_step [OF inv2 _ q3(1)]) simp
    from post [OF st] q3 st show "\<exists>q3 q4 fd. run_expired run_cb ex ?q2 = Some q3 \<and> cb_step (ptrs ex) ?q2 q3
        \<and> reset_post now ex {} (q3\<lparr>callingExpiredTimers := False\<rparr>) q4
        \<and> q' = q4\<lparr>timerfd := fd\<rparr> \<and> tq_live q'" by auto
  next
    assume "run_expired run_cb ex ?q2 \<noteq> None"
    then obtain q3 where q3: "run_expired run_cb ex ?q2 = Some q3" by blast
    have "cb_step (ptrs ex) ?q2 q3" by (rule run_expired_step [OF inv2 _ q3]) simp
    from post [OF this] q3 show "handleRead run_cb now clock q \<noteq> None" by (auto simp: step)
  next
    show "timers q = ex @ timers ?q2" using q1(1) by simp
    show "heap ?q2 = heap q" "s_numCreated ?q2 = s_numCreated q" using q1(4,5) by simp_all
  qed (rule get(4) q1(2) inv2 live | simp)+
qed

end

subsection \<open>The queue in the loop's thread\<close>

text \<open>
  What happens to the queue: a call of \<open>addTimer\<close> or \<open>cancel\<close>, the descriptor's time running out,
  and the loop's call of \<open>handleRead\<close>, with the two readings of the clock it makes.
\<close>

datatype 'cb tq_event =
    Act "'cb action"
  | TimerfdExpires
  | Readable timestamp timestamp

fun tq_step :: "('cb \<Rightarrow> 'cb timer_queue \<Rightarrow> 'cb action list)
    \<Rightarrow> 'cb tq_event \<Rightarrow> 'cb timer_queue \<Rightarrow> 'cb timer_queue option" where
  "tq_step script (Act a) q = do_action a q"
| "tq_step script TimerfdExpires q = Some (q\<lparr>timerfd := timerfd_expire (timerfd q)\<rparr>)"
| "tq_step script (Readable now clock) q = handleRead (run_script script) now clock q"

text \<open>Callbacks that keep to the clients' protocol.\<close>

definition script_ok :: "('cb \<Rightarrow> 'cb timer_queue \<Rightarrow> 'cb action list) \<Rightarrow> bool" where
  "script_ok script \<longleftrightarrow>
     (\<forall>D q cb. tq_inv D q \<longrightarrow> callingExpiredTimers q \<longrightarrow> run_script script cb q \<noteq> None)"

fun tq_ok :: "('cb \<Rightarrow> 'cb timer_queue \<Rightarrow> 'cb action list) \<Rightarrow> 'cb tq_event \<Rightarrow> 'cb timer_queue \<Rightarrow> bool" where
  "tq_ok script (Act a) q \<longleftrightarrow> client_ok a q"
| "tq_ok script TimerfdExpires q \<longleftrightarrow> True"
| "tq_ok script (Readable now clock) q \<longleftrightarrow> sane_now now \<and> sane_time clock \<and> script_ok script"

definition tq_idle :: "'cb timer_queue \<Rightarrow> bool" where
  "tq_idle q \<longleftrightarrow> tq_inv {} q \<and> tq_live q \<and> \<not> callingExpiredTimers q"

lemma tq_idle_TimerQueue: "tq_idle (TimerQueue n)"
  using tq_inv_TimerQueue by (auto simp: tq_idle_def tq_live_def TimerQueue_def)

lemma handleRead_total:
  assumes "tq_inv {} q" "sane_now now" "sane_time clock" "script_ok script"
  shows "handleRead (run_script script) now clock q \<noteq> None"
proof (rule scripted.handleRead_stages [OF assms(1-3), where script = script], goal_cases)
  case (1 ex q2)
  have "run_expired (run_script script) ex q2 \<noteq> None"
    by (rule scripted.run_expired_total [OF _ 1(6,7) subset_refl])
      (use assms(4) in \<open>auto simp: script_ok_def\<close>)
  then show ?case by (rule 1(11))
qed

lemma handleRead_keeps:
  assumes inv: "tq_inv {} q" "sane_now now" "sane_time clock"
    and h: "handleRead (run_script script) now clock q = Some q'"
  shows "tq_inv {} q' \<and> tq_live q' \<and> \<not> callingExpiredTimers q' \<and> (\<forall>s. retired s q \<longrightarrow> retired s q')
    \<and> (\<forall>p t. heap q p = Some t \<longrightarrow> expiration t \<le> now \<longrightarrow> settled now (cancelingTimers q') q' p t)"
proof (rule scripted.handleRead_stages [OF inv, where script = script], goal_cases)
  case (1 ex q2)
  note st = 1(2,4,5,7,10)
  obtain q3 q4 fd where q3: "cb_step (ptrs ex) q2 q3"
      and q4: "reset_post now ex {} (q3\<lparr>callingExpiredTimers := False\<rparr>) q4"
      and q': "q' = q4\<lparr>timerfd := fd\<rparr>" "tq_live q'"
    using st(5) [OF h] by blast
  have "retired s q'" if "retired s q" for s
  proof -
    have "retired s q2" using that st(2,3) by (simp add: retired_def)
    then have "retired s q3" using q3 by (simp add: cb_step_def)
    then have "retired s (q3\<lparr>callingExpiredTimers := False\<rparr>)" by (simp add: retired_def)
    then have "retired s q4" using q4 by (rule reset_post_retired [rotated])
    then show ?thesis by (simp add: q' retired_def)
  qed
  moreover have "settled now (cancelingTimers q') q' p t"
    if "heap q p = Some t" "expiration t \<le> now" for p t
  proof -
    have "(expiration t, p) \<in> set ex"
      using tq_inv_ptr_iff [OF inv(1) that(1)] that(2) st(1) by auto
    then have p: "p \<in> ptrs ex" by (rule ptrsI)
    then have "heap q3 p = Some t" using q3 that(1) st(2) by (simp add: cb_step_def)
    then have "settled now (cancelingTimers q4) q4 p t"
      using q4 p by (auto simp: reset_post_def)
    then show ?thesis by (simp add: q' settled_def)
  qed
  moreover have "tq_inv {} q'" "\<not> callingExpiredTimers q'"
    using q4 by (simp_all add: q' reset_post_def)
  ultimately show ?case
    using q'(2) by blast
qed

lemma tq_step_idle:
  assumes "tq_idle q" and "tq_ok script e q"
  shows "\<exists>q'. tq_step script e q = Some q' \<and> tq_idle q' \<and> (\<forall>s. retired s q \<longrightarrow> retired s q')"
proof (cases e)
  case (Act a)
  then obtain q' where "do_action a q = Some q'" "cb_step {} q q'"
    using do_action_step [of "{}" q a] assms by (auto simp: tq_idle_def)
  with Act assms(1) show ?thesis by (auto simp: tq_idle_def cb_step_def)
next
  case TimerfdExpires
  with assms(1) show ?thesis
    by (auto simp: tq_idle_def tq_live_def pending_def timerfd_expire_def retired_def)
next
  case (Readable now clock)
  then obtain q' where q': "handleRead (run_script script) now clock q = Some q'"
    using handleRead_total [of q now clock script] assms by (auto simp: tq_idle_def)
  with Readable handleRead_keeps [OF _ _ _ q'] assms show ?thesis
    by (simp add: tq_idle_def)
qed

interpretation tq: safe_machine_with "tq_step script" "tq_ok script" tq_idle "retired s" for script s
proof unfold_locales
  fix q :: "'a timer_queue" and e
  assume "tq_idle q" "tq_ok script e q"
  then show "\<exists>q'. tq_step script e q = Some q' \<and> tq_idle q'"
    using tq_step_idle by blast
next
  fix q e q'
  assume "tq_idle q" "tq_ok script e q" "retired s q" "tq_step script e q = Some (q' :: 'a timer_queue)"
  then show "retired s q'"
    using tq_step_idle by (metis option.inject)
qed

subsection \<open>The abstract schedule\<close>

text \<open>
  What a user of the queue thinks of: which timer, named by its sequence number, is due when, with
  which callback and interval. \<open>sched\<close> reads it off the heap and the set of entries.
\<close>

type_synonym 'cb schedule = "int \<Rightarrow> ('cb \<times> timestamp \<times> double) option"

definition sched :: "'cb timer_queue \<Rightarrow> 'cb schedule" where
  "sched q = map_of (map (\<lambda>(e, p). case heap q p of
       Some t \<Rightarrow> (sequence t, (callback t, e, interval t)) | None \<Rightarrow> undefined) (timers q))"

definition queued :: "'cb timer_queue \<Rightarrow> timestamp \<Rightarrow> ptr \<Rightarrow> 'cb timer \<Rightarrow> bool" where
  "queued q e p t \<longleftrightarrow> (e, p) \<in> set (timers q) \<and> heap q p = Some t"

lemma sched_eq:
  assumes inv: "tq_inv D q"
  shows "(sched q s = Some (c, e, i)) =
    (\<exists>p t. queued q e p t \<and> sequence t = s \<and> callback t = c \<and> interval t = i)"
proof -
  let ?f = "\<lambda>(e, p). case heap q p of
       Some t \<Rightarrow> (sequence t, (callback t, e, interval t)) | None \<Rightarrow> undefined"
  have f: "\<exists>t. queued q e p t \<and> ?f (e, p) = (sequence t, callback t, e, interval t)"
    if "(e, p) \<in> set (timers q)" for e p
    using tq_inv_entry [OF inv that] that by (auto simp: queued_def)
  have "inj_on (fst \<circ> ?f) (set (timers q))"
  proof (rule inj_onI, clarify)
    fix e p g r
    assume 1: "(e, p) \<in> set (timers q)" "(g, r) \<in> set (timers q)" and 2: "(fst \<circ> ?f) (e, p) = (fst \<circ> ?f) (g, r)"
    obtain t u where "heap q p = Some t" "expiration t = e" "heap q r = Some u" "expiration u = g"
      using tq_inv_entry [OF inv] 1 by blast
    with 2 tq_inv_seq [OF inv, of p t r u] show "e = g \<and> p = r" by auto
  qed
  then have "distinct (map fst (map ?f (timers q)))"
    using inv by (simp add: distinct_map tq_inv_def sset_distinct)
  then have "(sched q s = Some (c, e, i)) = ((s, c, e, i) \<in> set (map ?f (timers q)))"
    unfolding sched_def by (rule map_of_eq_Some_iff)
  also have "\<dots> = (\<exists>p t. queued q e p t \<and> sequence t = s \<and> callback t = c \<and> interval t = i)"
  proof
    assume "(s, c, e, i) \<in> set (map ?f (timers q))"
    then obtain g p where "(g, p) \<in> set (timers q)" "?f (g, p) = (s, c, e, i)" by auto
    with f [of g p] show "\<exists>p t. queued q e p t \<and> sequence t = s \<and> callback t = c \<and> interval t = i"
      by auto
  next
    assume "\<exists>p t. queued q e p t \<and> sequence t = s \<and> callback t = c \<and> interval t = i"
    then obtain p t where t: "queued q e p t" "sequence t = s" "callback t = c" "interval t = i" by blast
    then have "(s, c, e, i) = ?f (e, p)" "(e, p) \<in> set (timers q)" by (simp_all add: queued_def)
    then show "(s, c, e, i) \<in> set (map ?f (timers q))" unfolding set_map by (rule image_eqI)
  qed
  finally show ?thesis .
qed

lemma sched_ext:
  assumes "\<And>s c e i. (sched q s = Some (c, e, i)) = (f s = Some (c, e, i))"
  shows "sched q = f"
proof (rule ext)
  fix s
  show "sched q s = f s"
    using assms [of s] by (cases "sched q s"; cases "f s") auto
qed

lemma sched_add:
  assumes inv: "tq_inv {} q" and ok: "client_ok (AddTimer p cb w iv clock) q"
    and q': "do_action (AddTimer p cb w iv clock) q = Some q'"
  shows "sched q' = (sched q)(sint (s_numCreated q) + 1 \<mapsto> (cb, w, iv))"
proof -
  obtain t n where t: "Timer cb w iv (s_numCreated q) = (t, n)" by fastforce
  have tf: "callback t = cb" "expiration t = w" "interval t = iv" "sequence t = sint (s_numCreated q) + 1"
    using t ok sint_increment [of "s_numCreated q"] by (auto simp: Timer_def incrementAndGet_eq)
  let ?q1 = "q\<lparr>heap := (heap q)(p \<mapsto> t), s_numCreated := n\<rparr>"
  have new: "new_Timer p cb w iv q = (?q1, TimerId p (sequence t))"
    by (simp add: new_Timer_def t)
  have inv1: "tq_inv {p} ?q1" using tq_inv_new(1) [OF inv ok new] by simp
  obtain q2 where q2: "addTimerInLoop p clock ?q1 = Some q2" "heap q2 = heap ?q1" "tq_inv ({p} - {p}) q2"
      "set (timers q2) = insert (expiration t, p) (set (timers ?q1))"
    using addTimerInLoop_ok [OF inv1, of p t clock] ok by auto
  have "q2 = q'" using q' q2(1) by (simp add: new)
  then have inv': "tq_inv {} q'" and q: "queued q' e r u = ((e, r, u) = (w, p, t) \<or> queued q e r u)" for e r u
    using q2 tf ok tq_inv_entry [OF inv, of e r] by (auto simp: queued_def)
  have old: "sequence u \<noteq> sint (s_numCreated q) + 1" if "queued q e r u" for e r u
    using tq_inv_seq_le [OF inv, of r u] that by (auto simp: queued_def)
  show ?thesis
  proof (rule sched_ext)
    fix s c e i
    show "(sched q' s = Some (c, e, i)) = (((sched q)(sint (s_numCreated q) + 1 \<mapsto> (cb, w, iv))) s = Some (c, e, i))"
      unfolding sched_eq [OF inv'] q fun_upd_apply
      using old tf by (cases "s = sint (s_numCreated q) + 1") (auto simp: sched_eq [OF inv])
  qed
qed

lemma sched_cancel:
  assumes inv: "tq_inv {} q" and idle: "\<not> callingExpiredTimers q"
    and q': "cancelInLoop (TimerId p s) q = Some q'"
  shows "sched q' = (if \<exists>t. heap q p = Some t \<and> sequence t = s then (sched q)(s := None) else sched q)"
proof (cases "(p, s) \<in> set (activeTimers q)")
  case True
  then obtain t where t: "heap q p = Some t" "sequence t = s" "(expiration t, p) \<in> set (timers q)"
    and c: "cancelInLoop (TimerId p s) q = Some (q\<lparr>
        timers := filter (\<lambda>it. it \<noteq> (expiration t, p)) (timers q),
        heap := (heap q)(p := None),
        activeTimers := filter (\<lambda>a. a \<noteq> (p, s)) (activeTimers q)\<rparr>)"
    using cancelInLoop_present [OF inv] by metis
  have inv': "tq_inv {} q'" using cancelInLoop_step [OF inv, of p s] q' by (auto simp: cb_step_def)
  have "r \<noteq> p \<longleftrightarrow> sequence u \<noteq> s" if "heap q r = Some u" for r u
    using tq_inv_seq [OF inv t(1) that] t(1,2) that by auto
  then have q: "queued q' e r u = (queued q e r u \<and> sequence u \<noteq> s)" for e r u
    using c q' tq_inv_inj [OF inv t(3)] by (auto simp: queued_def)
  have "sched q' = (sched q)(s := None)"
    by (rule sched_ext) (auto simp: sched_eq [OF inv'] sched_eq [OF inv] q)
  with t show ?thesis by auto
next
  case False
  with cancelInLoop_absent [OF inv False] idle q' have "q' = q" by simp
  moreover have "\<not> (\<exists>t. heap q p = Some t \<and> sequence t = s)"
    using False tq_inv_active_iff [OF inv] tq_inv_dom [OF inv, of p] by auto
  ultimately show ?thesis by auto
qed

lemma sched_expired:
  assumes inv: "tq_inv {} q" and q': "getExpired now q = Some (q', ex)"
  shows "sched q' = (\<lambda>s. case sched q s of Some (c, e, i) \<Rightarrow> if e \<le> now then None else Some (c, e, i) | None \<Rightarrow> None)"
proof -
  from getExpired_ok [OF inv, of now] obtain q1 ex1 where
      1: "getExpired now q = Some (q1, ex1)" "tq_inv (ptrs ex1) q1" "heap q1 = heap q"
        "set (timers q1) = {it \<in> set (timers q). now < fst it}"
    by blast
  have eq: "q1 = q'" "ex1 = ex" using 1(1) q' by simp_all
  note inv' = 1(2) [unfolded eq] and h = 1(3) [unfolded eq] and ts = 1(4) [unfolded eq]
  have q: "queued q' e p t = (queued q e p t \<and> now < e)" for e p t
    by (auto simp: queued_def h ts)
  have s: "(case sched q s of Some (c, e, i) \<Rightarrow> if e \<le> now then None else Some (c, e, i) | None \<Rightarrow> None)
      = Some (c, e, i) \<longleftrightarrow> sched q s = Some (c, e, i) \<and> now < e" for s c e i
    by (auto split: option.splits if_splits)
  show ?thesis
    by (rule sched_ext) (auto simp: s sched_eq [OF inv'] sched_eq [OF inv] q)
qed

subsection \<open>Cancelling from inside a callback\<close>

lemma do_actions_cancel:
  "tq_inv D q \<Longrightarrow> callingExpiredTimers q \<Longrightarrow> p \<in> D \<Longrightarrow> do_actions as q = Some q' \<Longrightarrow>
   Cancel (TimerId p s) \<in> set as \<Longrightarrow> (p, s) \<in> set (cancelingTimers q')"
proof (induction as arbitrary: q)
  case Nil
  then show ?case by simp
next
  case (Cons a as)
  from Cons.prems(4) obtain q1 where q1: "client_ok a q" "do_action a q = Some q1" "do_actions as q1 = Some q'"
    by (auto simp: bind_eq_Some_conv)
  have st: "cb_step D q q1"
    using do_action_step [OF Cons.prems(1) q1(1)] q1(2) by auto
  have st': "cb_step D q1 q'"
    using do_actions_step [OF cb_stepD [OF st] q1(3)] .
  show ?case
  proof (cases "a = Cancel (TimerId p s)")
    case True
    have "p \<notin> ptrs (timers q)"
      using tq_inv_entry [OF Cons.prems(1)] Cons.prems(3) by (auto elim!: ptrsE)
    then have "(p, s) \<notin> set (activeTimers q)"
      using tq_inv_active_iff [OF Cons.prems(1)] by simp
    from cancelInLoop_absent [OF Cons.prems(1) this] q1(2) True Cons.prems(2)
    have "(p, s) \<in> set (cancelingTimers q1)" by auto
    with st' show ?thesis by (auto simp: cb_step_def)
  next
    case False
    then show ?thesis
      using Cons.IH [of q1] cb_stepD [OF st] st Cons.prems q1(3) by (auto simp: cb_step_def)
  qed
qed

lemma run_expired_cancel:
  assumes self: "\<And>q. Cancel (TimerId p s) \<in> set (script (callback t) q)"
  shows "tq_inv D q \<Longrightarrow> callingExpiredTimers q \<Longrightarrow> ptrs ex \<subseteq> D \<Longrightarrow> p \<in> ptrs ex \<Longrightarrow> heap q p = Some t \<Longrightarrow>
    run_expired (run_script script) ex q = Some q' \<Longrightarrow> (p, s) \<in> set (cancelingTimers q')"
proof (induction ex arbitrary: q)
  case Nil
  then show ?case by simp
next
  case (Cons it its)
  from Cons.prems(6) obtain u :: "'a timer" and q1 where
      q1: "heap q (snd it) = Some u" "run_script script (callback u) q = Some q1"
        "run_expired (run_script script) its q1 = Some q'"
    by (auto simp: bind_eq_Some_conv)
  have st: "cb_step D q q1"
    using scripted.cb_keeps [OF Cons.prems(1,2) q1(2)] .
  then have inv1: "tq_inv D q1" "callingExpiredTimers q1" "heap q1 p = Some t"
    using Cons.prems by (auto simp: cb_step_def)
  have st': "cb_step D q1 q'" using scripted.run_expired_step [OF inv1(1,2) q1(3)] .
  show ?case
  proof (cases "snd it = p")
    case True
    then have "(p, s) \<in> set (cancelingTimers q1)"
      using do_actions_cancel [OF Cons.prems(1,2), of p "script (callback t) q" q1 s] q1(1,2) self
        Cons.prems(3,5) by (auto simp: run_script_def)
    with st' show ?thesis by (auto simp: cb_step_def)
  next
    case False
    then show ?thesis using Cons.IH [OF inv1(1,2)] inv1(3) q1(3) Cons.prems(3,4) by auto
  qed
qed

lemma handleRead_self_cancel:
  assumes inv: "tq_inv {} q" "sane_now now" "sane_time clock"
    and t: "heap q p = Some t" "expiration t \<le> now"
    and self: "\<And>q. Cancel (TimerId p (sequence t)) \<in> set (script (callback t) q)"
    and h: "handleRead (run_script script) now clock q = Some q'"
  shows "heap q' p = None \<and> retired (sequence t) q'"
proof (rule scripted.handleRead_stages [OF inv, where script = script], goal_cases)
  case (1 ex q2)
  note st = this
  have "(expiration t, p) \<in> set ex"
    using tq_inv_ptr_iff [OF inv(1) t(1)] t(2) st(2) by auto
  then have p: "p \<in> ptrs ex" by (rule ptrsI)
  obtain q3 q4 fd where q3: "run_expired (run_script script) ex q2 = Some q3" "cb_step (ptrs ex) q2 q3"
      and q4: "reset_post now ex {} (q3\<lparr>callingExpiredTimers := False\<rparr>) q4"
      and q': "q' = q4\<lparr>timerfd := fd\<rparr>"
    using st(10) [OF h] by blast
  have t2: "heap q2 p = Some t" using t(1) st(4) by simp
  have c: "(p, sequence t) \<in> set (cancelingTimers q3)"
    by (rule run_expired_cancel [OF self st(6,7) subset_refl p t2 q3(1)])
  have t3: "heap q3 p = Some t" using q3(2) p t2 by (simp add: cb_step_def)
  have "settled now (cancelingTimers q3) q4 p t"
    using q4 p t3 by (auto simp: reset_post_def)
  with c have gone: "heap q4 p = None" by (auto simp: settled_def split: if_splits)
  have inv3: "tq_inv (ptrs ex) q3" using q3(2) by (simp add: cb_step_def)
  have "sequence u \<noteq> sequence t" if u: "heap q4 r = Some u" for r u
  proof -
    have rp: "r \<noteq> p" using u gone by auto
    have "\<exists>v. heap q3 r = Some v \<and> sequence v = sequence u"
    proof (cases "r \<in> ptrs ex")
      case True
      then obtain v where v: "heap q3 r = Some v" using tq_inv_dom [OF inv3, of r] by auto
      then have "settled now (cancelingTimers q3) q4 r v"
        using q4 True by (auto simp: reset_post_def)
      with u v show ?thesis by (auto simp: settled_def split: if_splits)
    qed (use q4 u in \<open>auto simp: reset_post_def\<close>)
    then show ?thesis using tq_inv_seq [OF inv3 _ t3] rp by auto
  qed
  moreover have "sequence t \<le> sint (s_numCreated q4)"
    using tq_inv_seq_le [OF inv3 t3] q4 by (simp add: reset_post_def)
  ultimately have "retired (sequence t) q4"
    by (auto simp: retired_def)
  with gone show ?case by (simp add: q' retired_def)
qed

subsection \<open>Destruction\<close>

lemma delete_timers_ok:
  "distinct (map snd es) \<Longrightarrow> ptrs es \<subseteq> dom (heap q) \<Longrightarrow>
   \<exists>q'. delete_timers es q = Some q' \<and> heap q' = (\<lambda>p. if p \<in> ptrs es then None else heap q p)"
proof (induction es arbitrary: q)
  case Nil
  then show ?case by simp
next
  case (Cons it its)
  then obtain t where t: "heap q (snd it) = Some t" by auto
  let ?q1 = "q\<lparr>heap := (heap q)(snd it := None)\<rparr>"
  have "\<exists>q'. delete_timers its ?q1 = Some q' \<and> heap q' = (\<lambda>p. if p \<in> ptrs its then None else heap ?q1 p)"
  proof (rule Cons.IH)
    show "ptrs its \<subseteq> dom (heap ?q1)" using Cons.prems by (auto simp: ptrs_def image_iff)
  qed (use Cons.prems(1) in simp)
  then obtain q' where "delete_timers its ?q1 = Some q'"
      "heap q' = (\<lambda>p. if p \<in> ptrs its then None else heap ?q1 p)" by blast
  with t show ?case by (auto simp: delete_Timer_Some)
qed

lemma tq_inv_distinct: "tq_inv D q \<Longrightarrow> distinct (map snd (timers q))"
  using tq_inv_inj [of D q] by (auto simp: distinct_map tq_inv_def sset_distinct intro!: inj_onI)

subsection \<open>Properties\<close>

text \<open>A queue with a one-shot timer (at 16) and a repeating one (at 32), for the examples.\<close>

definition example_queue :: "string timer_queue" where
  "example_queue =
     \<lparr>heap = [16 \<mapsto> \<lparr>callback = ''once'', expiration = Timestamp 1000000, interval = 0,
                    repeats = False, sequence = 1\<rparr>,
             32 \<mapsto> \<lparr>callback = ''tick'', expiration = Timestamp 2000000, interval = 1,
                    repeats = True, sequence = 2\<rparr>],
      s_numCreated = 2, activeTimers = [(16, 1), (32, 2)], callingExpiredTimers = False,
      cancelingTimers = [], timerfd = \<lparr>it_value = Some (1, 0), fired = False\<rparr>,
      timers = [(Timestamp 1000000, 16), (Timestamp 2000000, 32)]\<rparr>"

lemma dmul_million: "dmul 1 1000000 = 1000000" "dmul 0 x = 0"
  by code_simp (simp add: dmul_def dround_def)

lemma example_queue_inv: "tq_inv {} example_queue"
  unfolding tq_inv_def
proof (intro conjI)
  show "set (activeTimers example_queue) = {(p, sequence t) | p t.
      p \<in> ptrs (timers example_queue) \<and> heap example_queue p = Some t}"
    by (auto simp: example_queue_def split: if_splits)
qed (auto simp: example_queue_def timer_ok_def sane_time_def sane_interval_def
    seq_inv_def UINTPTR_MAX_def dmul_million less_prod_def split: if_splits)

lemma example_queue_idle: "tq_idle example_queue"
  using example_queue_inv by (simp add: tq_idle_def tq_live_def pending_def example_queue_def)

lemma script_ok_Nil: "script_ok (\<lambda>cb q. [])"
  by (simp add: script_ok_def run_script_def)



text \<open>
  C4: No timer is forgotten. Between any two events of such a run, a queue that is not empty has its
  timer descriptor armed, or an expiration waiting to be read: the loop will call \<open>handleRead\<close>.\<close>

theorem timer_queue_live:
  assumes "run_ok (tq_step script) (tq_ok script) es (TimerQueue n)"
    and "run (tq_step script) es (TimerQueue n) = Some q" and "timers q \<noteq> []"
  shows "it_value (timerfd q) \<noteq> None \<or> fired (timerfd q)"
  using tq.run_inv [OF tq_idle_TimerQueue assms(1,2)] assms(3)
  by (simp add: tq_idle_def tq_live_def pending_def)

theorem timer_queue_live_witness:
  "let q = the (run (tq_step (\<lambda>cb q. [])) [Act (AddTimer 16 ''once'' (Timestamp 1000000) 0 (Timestamp 500000))]
      (TimerQueue 0))
   in timers q = [(Timestamp 1000000, 16)] \<and> (it_value (timerfd q) \<noteq> None \<or> fired (timerfd q))"
proof -
  let ?es = "[Act (AddTimer 16 ''once'' (Timestamp 1000000) 0 (Timestamp 500000))]"
  have ok: "run_ok (tq_step (\<lambda>cb q. [])) (tq_ok (\<lambda>cb q. [])) ?es (TimerQueue 0)"
    by (simp add: sane_time_def sane_interval_def UINTPTR_MAX_def INT64_MAX_def TimerQueue_def
        dmul_million split: option.splits)
  obtain q where q: "run (tq_step (\<lambda>cb q. [])) ?es (TimerQueue 0) = Some q"
      "timers q = [(Timestamp 1000000, 16)]"
    by (simp add: TimerQueue_def new_Timer_def Timer_def incrementAndGet_eq addTimerInLoop_def
        insert_timer_def set_insert_def resetTimerfd_def howMuchTimeFromNow_eq int64_defs)
  from timer_queue_live [OF ok q(1)] q show ?thesis by simp
qed

text \<open>
  \<open>getExpired\<close> takes exactly the timers that are due, in the order of their expirations, out of
  both sets, and leaves the others where they were.\<close>

theorem getExpired_exact:
  assumes "tq_inv {} q"
  shows "\<exists>q' ex. getExpired now q = Some (q', ex) \<and> timers q = ex @ timers q'
    \<and> sorted (map fst ex)
    \<and> set ex = {it \<in> set (timers q). fst it \<le> now} \<and> set (timers q') = {it \<in> set (timers q). now < fst it}
    \<and> set (activeTimers q') = {a \<in> set (activeTimers q). fst a \<notin> ptrs ex} \<and> heap q' = heap q"
proof -
  obtain q' ex where 1: "getExpired now q = Some (q', ex)" "tq_inv (ptrs ex) q'" "timers q = ex @ timers q'"
      "set ex = {it \<in> set (timers q). fst it \<le> now}" "set (timers q') = {it \<in> set (timers q). now < fst it}"
      "heap q' = heap q"
    using getExpired_ok [OF assms, of now] by blast
  have "sset ex" using assms 1(3) by (simp add: tq_inv_def sset_append_iff)
  then have "sorted (map fst ex)"
    unfolding sorted_map by (rule sorted_wrt_mono_rel [rotated]) (auto simp: less_prod_def)
  moreover have "set (activeTimers q') = {a \<in> set (activeTimers q). fst a \<notin> ptrs ex}"
  proof -
    have "p \<in> ptrs (timers q') \<longleftrightarrow> p \<in> ptrs (timers q) \<and> p \<notin> ptrs ex" for p
      using tq_inv_disj [OF 1(2)] by (auto simp: 1(3))
    then show ?thesis
      using tq_inv_active_iff [OF assms] tq_inv_active_iff [OF 1(2)] by (auto simp: 1(6))
  qed
  ultimately show ?thesis using 1 by blast
qed

theorem getExpired_exact_witness:
  "\<exists>q' ex. getExpired (Timestamp 1500000) example_queue = Some (q', ex) \<and> timers example_queue = ex @ timers q'
    \<and> sorted (map fst ex)
    \<and> set ex = {it \<in> set (timers example_queue). fst it \<le> Timestamp 1500000}
    \<and> set (timers q') = {it \<in> set (timers example_queue). Timestamp 1500000 < fst it}
    \<and> set (activeTimers q') = {a \<in> set (activeTimers example_queue). fst a \<notin> ptrs ex}
    \<and> heap q' = heap example_queue"
  by (rule getExpired_exact [OF example_queue_inv])



text \<open>
  A timer that cancels itself from its own callback is never re-armed: the expiration that runs
  the callback frees it, and no timer carries its sequence number afterwards.\<close>

theorem self_cancel_stops:
  assumes "tq_idle q" and "sane_now now" and "sane_time clock"
    and "heap q p = Some t" and "expiration t \<le> now"
    and "\<And>q. Cancel (TimerId p (sequence t)) \<in> set (script (callback t) q)"
    and "handleRead (run_script script) now clock q = Some q'"
  shows "heap q' p = None \<and> (\<forall>r u. heap q' r = Some u \<longrightarrow> sequence u \<noteq> sequence t)"
  using handleRead_self_cancel [OF _ assms(2-7)] assms(1) by (auto simp: tq_idle_def retired_def)

theorem self_cancel_stops_witness:
  "\<exists>q'. handleRead (run_script (\<lambda>cb q. [Cancel (TimerId 32 2)])) (Timestamp 2500000) (Timestamp 2500007)
      example_queue = Some q' \<and> heap q' 32 = None"
proof -
  let ?script = "\<lambda>(cb :: string) q. [Cancel (TimerId 32 2)]"
  have s: "sane_now (Timestamp 2500000)" "sane_time (Timestamp 2500007)"
    by (simp_all add: sane_now_def sane_time_def valid_def)
  have "script_ok ?script"
    unfolding script_ok_def run_script_def
  proof (intro allI impI)
    fix D cb and q :: "string timer_queue" assume "tq_inv D q"
    from cancelInLoop_step [OF this, of 32 2]
    show "do_actions [Cancel (TimerId 32 2)] q \<noteq> None" by auto
  qed
  then obtain q' where q': "handleRead (run_script ?script) (Timestamp 2500000) (Timestamp 2500007) example_queue = Some q'"
    using handleRead_total [OF example_queue_inv s] by blast
  have h: "heap example_queue 32 = Some \<lparr>callback = ''tick'', expiration = Timestamp 2000000, interval = 1,
                    repeats = True, sequence = 2\<rparr>"
    by (simp add: example_queue_def)
  have "heap q' 32 = None"
    using self_cancel_stops [OF example_queue_idle s h _ _ q'] by simp
  with q' show ?thesis by blast
qed

text \<open>
  A stale \<open>TimerId\<close> is harmless, although addresses are reused. Once the timer it names has been
  cancelled, cancelling it again changes nothing, after any run in which the allocator may have
  given the same address to other timers.\<close>

theorem stale_id_harmless:
  assumes "tq_idle q" and "heap q p = Some t" and "cancelInLoop (TimerId p (sequence t)) q = Some q1"
    and "run_ok (tq_step script) (tq_ok script) es q1" and "run (tq_step script) es q1 = Some q2"
  shows "cancelInLoop (TimerId p (sequence t)) q2 = Some q2"
proof -
  have inv: "tq_inv {} q" "\<not> callingExpiredTimers q" using assms(1) by (simp_all add: tq_idle_def)
  have "p \<in> ptrs (timers q)" using tq_inv_dom [OF inv(1), of p] assms(2) by auto
  then have "(p, sequence t) \<in> set (activeTimers q)"
    using tq_inv_active_iff [OF inv(1)] assms(2) by auto
  from cancelInLoop_frees [OF inv(1) this assms(3)]
  have "heap q1 = (heap q)(p := None)" "s_numCreated q1 = s_numCreated q" by simp_all
  then have "retired (sequence t) q1" by (rule retired_del [OF inv(1) assms(2)])
  moreover have "tq_idle q1"
    using tq_step_idle [of q script "Act (Cancel (TimerId p (sequence t)))"] assms(1,3) by simp
  ultimately have "retired (sequence t) q2" "tq_idle q2"
    using tq.run_also [OF _ _ assms(4,5)] tq.run_inv [OF _ assms(4,5)] by blast+
  then show ?thesis
    using cancelInLoop_retired by (auto simp: tq_idle_def)
qed

theorem stale_id_harmless_witness:
  "\<exists>q1 q2. cancelInLoop (TimerId 16 1) example_queue = Some q1
     \<and> do_action (AddTimer 16 ''other'' (Timestamp 3000000) 0 (Timestamp 500000)) q1 = Some q2
     \<and> cancelInLoop (TimerId 16 1) q2 = Some q2"
proof -
  let ?a = "AddTimer 16 ''other'' (Timestamp 3000000) 0 (Timestamp 500000)"
  obtain q1 where q1: "cancelInLoop (TimerId 16 1) example_queue = Some q1"
      "heap q1 16 = None" "s_numCreated q1 = 2"
    by (simp add: cancelInLoop_def example_queue_def set_erase_def delete_Timer_def Let_def)
  then have c: "client_ok ?a q1"
    by (simp add: sane_time_def sane_interval_def UINTPTR_MAX_def INT64_MAX_def dmul_million)
  have "tq_idle q1"
    using tq_step_idle [of example_queue "\<lambda>cb q. []" "Act (Cancel (TimerId 16 1))"] example_queue_idle q1(1)
    by simp
  then obtain q2 where q2: "do_action ?a q1 = Some q2"
    using do_action_Add [OF _ c] by (auto simp: tq_idle_def)
  have h: "heap example_queue 16 = Some \<lparr>callback = ''once'', expiration = Timestamp 1000000, interval = 0,
                    repeats = False, sequence = 1\<rparr>"
    by (simp add: example_queue_def)
  have "cancelInLoop (TimerId 16 1) q2 = Some q2"
    using stale_id_harmless [OF example_queue_idle h, of q1 "\<lambda>cb q. []" "[Act ?a]" q2] q1(1) c q2
    by (simp del: client_ok.simps do_action.simps)
  with q1 q2 show ?thesis by blast
qed

text \<open>
  C2: The timer queue implements an abstract schedule from timer identities to (callback, due time,
  interval). \<open>addTimer\<close> adds one identity, the next sequence number; \<open>cancel\<close> removes the identity it
  is given when the \<open>TimerId\<close>'s address still belongs to it, and nothing otherwise; taking the
  expired timers out removes exactly the identities that are due.\<close>

theorem timer_queue_refines_schedule:
  assumes "tq_idle q" and "client_ok (AddTimer p cb w iv clock) q"
  shows "map_option sched (do_action (AddTimer p cb w iv clock) q)
      = Some ((sched q)(sint (s_numCreated q) + 1 \<mapsto> (cb, w, iv)))
    \<and> map_option sched (cancelInLoop (TimerId r s) q)
      = Some (if \<exists>t. heap q r = Some t \<and> sequence t = s then (sched q)(s := None) else sched q)
    \<and> map_option (sched \<circ> fst) (getExpired now q)
      = Some (\<lambda>s. case sched q s of Some (c, e, i) \<Rightarrow> if e \<le> now then None else Some (c, e, i) | None \<Rightarrow> None)"
proof (intro conjI)
  have inv: "tq_inv {} q" and idle: "\<not> callingExpiredTimers q"
    using assms by (simp_all add: tq_idle_def)
  show "map_option sched (do_action (AddTimer p cb w iv clock) q)
      = Some ((sched q)(sint (s_numCreated q) + 1 \<mapsto> (cb, w, iv)))"
    using do_action_Add [OF inv assms(2)] sched_add [OF inv assms(2)] by auto
  show "map_option sched (cancelInLoop (TimerId r s) q)
      = Some (if \<exists>t. heap q r = Some t \<and> sequence t = s then (sched q)(s := None) else sched q)"
    using cancelInLoop_step [OF inv, of r s] sched_cancel [OF inv idle, of r s] by auto
  obtain q' ex where ex: "getExpired now q = Some (q', ex)"
    using getExpired_ok [OF inv, of now] by blast
  from sched_expired [OF inv ex] ex
  show "map_option (sched \<circ> fst) (getExpired now q)
      = Some (\<lambda>s. case sched q s of Some (c, e, i) \<Rightarrow> if e \<le> now then None else Some (c, e, i) | None \<Rightarrow> None)"
    by simp
qed

theorem timer_queue_refines_schedule_witness:
  "map_option sched (do_action (AddTimer 48 ''new'' (Timestamp 5) 0 (Timestamp 500000)) example_queue)
      = Some ((sched example_queue)(3 \<mapsto> (''new'', Timestamp 5, 0)))
   \<and> map_option sched (cancelInLoop (TimerId 32 2) example_queue) = Some ((sched example_queue)(2 := None))"
proof -
  let ?a = "AddTimer 48 ''new'' (Timestamp 5) 0 (Timestamp 500000)"
  have "client_ok ?a example_queue"
    by (simp add: example_queue_def sane_time_def sane_interval_def UINTPTR_MAX_def INT64_MAX_def dmul_million)
  from timer_queue_refines_schedule [OF example_queue_idle this, of 32 2 "Timestamp 0"]
  have "map_option sched (do_action ?a example_queue)
      = Some ((sched example_queue)(sint (s_numCreated example_queue) + 1 \<mapsto> (''new'', Timestamp 5, 0)))"
    and c: "map_option sched (cancelInLoop (TimerId 32 2) example_queue)
      = Some (if \<exists>t. heap example_queue 32 = Some t \<and> sequence t = 2
              then (sched example_queue)(2 := None) else sched example_queue)"
    by blast+
  moreover have "s_numCreated example_queue = 2" "\<exists>t. heap example_queue 32 = Some t \<and> sequence t = 2"
    by (simp_all add: example_queue_def)
  ultimately show ?thesis by simp
qed

text \<open>
  What the timer descriptor is programmed with: the time left until the expiration, but at
  least 100 microseconds, split into seconds and nanoseconds in range. So the setting is never zero,
  which would disarm the descriptor instead.\<close>

theorem howMuchTimeFromNow_spec:
  assumes "in_int64 (microSecondsSinceEpoch when - microSecondsSinceEpoch clock)"
  shows "\<exists>sec nsec. howMuchTimeFromNow when clock = Some (sec, nsec)
    \<and> 0 \<le> sec \<and> 0 \<le> nsec \<and> nsec < 1000000000 \<and> (sec, nsec) \<noteq> (0, 0)
    \<and> sec * 1000000000 + nsec
      = 1000 * max 100 (microSecondsSinceEpoch when - microSecondsSinceEpoch clock)"
proof -
  define us where "us = max 100 (microSecondsSinceEpoch when - microSecondsSinceEpoch clock)"
  have v: "howMuchTimeFromNow when clock = Some (us div 1000000, us mod 1000000 * 1000)"
    using assms by (simp add: howMuchTimeFromNow_eq us_def Let_def)
  have "0 \<le> us div 1000000" "0 \<le> us mod 1000000" "us mod 1000000 < 1000000"
    by (simp_all add: us_def pos_imp_zdiv_nonneg_iff)
  moreover have "us div 1000000 * 1000000000 + us mod 1000000 * 1000 = 1000 * us"
    using div_mult_mod_eq [of us 1000000] by linarith
  ultimately show ?thesis
    using howMuch_pos [OF v] unfolding v us_def [symmetric] by auto
qed

theorem howMuchTimeFromNow_spec_witness:
  "\<exists>sec nsec. howMuchTimeFromNow (Timestamp 10) (Timestamp 20) = Some (sec, nsec)
    \<and> 0 \<le> sec \<and> 0 \<le> nsec \<and> nsec < 1000000000 \<and> (sec, nsec) \<noteq> (0, 0)
    \<and> sec * 1000000000 + nsec = 1000 * 100"
  using howMuchTimeFromNow_spec [of "Timestamp 10" "Timestamp 20"] by (simp add: int64_defs)

text \<open>
  The destructor frees every timer of the queue exactly once, and leaves nothing allocated.\<close>

theorem TimerQueue_dtor_frees_all:
  assumes "tq_idle q"
  shows "\<exists>q'. TimerQueue_dtor q = Some q' \<and> heap q' = Map.empty"
proof -
  have inv: "tq_inv {} q" using assms by (simp add: tq_idle_def)
  have "ptrs (timers q) = dom (heap q)" using tq_inv_heap [OF inv] by simp
  with delete_timers_ok [OF tq_inv_distinct [OF inv], of q] show ?thesis
    by (auto simp: TimerQueue_dtor_def domIff fun_eq_iff)
qed

theorem TimerQueue_dtor_frees_all_witness:
  "\<exists>q'. TimerQueue_dtor example_queue = Some q' \<and> heap q' = Map.empty"
  by (rule TimerQueue_dtor_frees_all [OF example_queue_idle])

end
