(* ===== verification/Channels.thy ===== *)
theory Channels
  imports Timestamps
begin

unbundle bit_operations_syntax

text \<open>
  \<^verbatim>\<open>Channel.h\<close> and \<^verbatim>\<open>Channel.c\<close>. The channels live in a store by address, \<open>chans\<close>, since the poller, the
  loop and their owner share them; the records of the later components extend \<open>chan_world\<close>, so the
  operations here work on the state of the whole loop. A callback is a value \<open>'cb\<close>, and \<open>run_cb\<close> (a
  parameter) is what calling it does to that state. The loop's \<open>updateChannel\<close> and \<open>removeChannel\<close>
  are parameters of the operations that call them; the locale \<open>channel_host\<close> is their contract.
\<close>

subsection \<open>The class\<close>

definition POLLIN :: "32 word" where "POLLIN = 0x1"
definition POLLPRI :: "32 word" where "POLLPRI = 0x2"
definition POLLOUT :: "32 word" where "POLLOUT = 0x4"
definition POLLERR :: "32 word" where "POLLERR = 0x8"
definition POLLHUP :: "32 word" where "POLLHUP = 0x10"
definition POLLNVAL :: "32 word" where "POLLNVAL = 0x20"
definition POLLRDHUP :: "32 word" where "POLLRDHUP = 0x2000"

lemmas poll_defs = POLLIN_def POLLPRI_def POLLOUT_def POLLERR_def POLLHUP_def POLLNVAL_def POLLRDHUP_def

definition kNoneEvent :: "32 word" where "kNoneEvent = 0"
definition kReadEvent :: "32 word" where "kReadEvent = POLLIN OR POLLPRI"
definition kWriteEvent :: "32 word" where "kWriteEvent = POLLOUT"

lemmas event_defs = kNoneEvent_def kReadEvent_def kWriteEvent_def poll_defs

record 'cb channel =
  ownerLoop :: ptr
  fd :: fd
  events :: "32 word"
  revents :: "32 word"
  index :: int
  logHup :: bool
  weak_tie :: "ptr option"
  tied :: bool
  eventHandling :: bool
  addedToLoop :: bool
  readCallback :: "'cb option"
  writeCallback :: "'cb option"
  errorCallback :: "'cb option"
  closeCallback :: "'cb option"

definition Channel :: "ptr \<Rightarrow> fd \<Rightarrow> 'cb channel" where
  "Channel loop fdArg =
     \<lparr>ownerLoop = loop, fd = fdArg, events = 0, revents = 0, index = -1, logHup = True,
      weak_tie = None, tied = False, eventHandling = False, addedToLoop = False,
      readCallback = None, writeCallback = None, errorCallback = None, closeCallback = None\<rparr>"

definition isNoneEvent :: "'cb channel \<Rightarrow> bool" where
  "isNoneEvent ch \<longleftrightarrow> events ch = kNoneEvent"

definition isWriting :: "'cb channel \<Rightarrow> bool" where
  "isWriting ch \<longleftrightarrow> events ch AND kWriteEvent \<noteq> 0"

definition isReading :: "'cb channel \<Rightarrow> bool" where
  "isReading ch \<longleftrightarrow> events ch AND kReadEvent \<noteq> 0"

definition tie :: "ptr \<Rightarrow> 'cb channel \<Rightarrow> 'cb channel" where
  "tie obj ch = ch\<lparr>weak_tie := Some obj, tied := True\<rparr>"

subsection \<open>Printing\<close>

definition events_string :: "fd \<Rightarrow> 32 word \<Rightarrow> string" where
  "events_string fdArg ev =
     fmt_d fdArg @ '': ''
     @ (if ev AND POLLIN \<noteq> 0 then ''IN '' else '''')
     @ (if ev AND POLLPRI \<noteq> 0 then ''PRI '' else '''')
     @ (if ev AND POLLOUT \<noteq> 0 then ''OUT '' else '''')
     @ (if ev AND POLLHUP \<noteq> 0 then ''HUP '' else '''')
     @ (if ev AND POLLRDHUP \<noteq> 0 then ''RDHUP '' else '''')
     @ (if ev AND POLLERR \<noteq> 0 then ''ERR '' else '''')
     @ (if ev AND POLLNVAL \<noteq> 0 then ''NVAL '' else '''')"

definition reventsToString :: "'cb channel \<Rightarrow> string" where
  "reventsToString ch = events_string (fd ch) (revents ch)"

definition eventsToString :: "'cb channel \<Rightarrow> string" where
  "eventsToString ch = events_string (fd ch) (events ch)"

subsection \<open>The store of channels, and shared owners\<close>

text \<open>\<open>use_count\<close> counts the \<open>shared_ptr\<close>s to each object that channels may be tied to.\<close>

record 'cb chan_world =
  chans :: "ptr \<Rightarrow> 'cb channel option"
  use_count :: "ptr \<Rightarrow> nat"

definition modify_chan :: "ptr \<Rightarrow> ('cb channel \<Rightarrow> 'cb channel) \<Rightarrow> ('cb, 'z) chan_world_scheme
    \<Rightarrow> ('cb, 'z) chan_world_scheme option" where
  "modify_chan p f w = do { ch \<leftarrow> chans w p; Some (w\<lparr>chans := (chans w)(p \<mapsto> f ch)\<rparr>) }"

text \<open>\<open>weak_ptr::lock\<close>, and the end of a \<open>shared_ptr\<close>'s life; the last one runs the destructor.\<close>

definition lock :: "ptr \<Rightarrow> ('cb, 'z) chan_world_scheme \<Rightarrow> ('cb, 'z) chan_world_scheme option" where
  "lock obj w =
     (if use_count w obj = 0 then None
      else Some (w\<lparr>use_count := (use_count w)(obj := use_count w obj + 1)\<rparr>))"

definition release :: "(ptr \<Rightarrow> ('cb, 'z) chan_world_scheme \<Rightarrow> ('cb, 'z) chan_world_scheme option)
    \<Rightarrow> ptr \<Rightarrow> ('cb, 'z) chan_world_scheme \<Rightarrow> ('cb, 'z) chan_world_scheme option" where
  "release destroy obj w =
     do { chk (0 < use_count w obj);
          let w = w\<lparr>use_count := (use_count w)(obj := use_count w obj - 1)\<rparr>;
          if use_count w obj = 0 then destroy obj w else Some w }"

subsection \<open>Event handling\<close>

text \<open>
  One conditional of \<open>handleEventWithGuard\<close>: it reads \<open>revents_\<close> and the callback from the channel
  as it is then, after the callbacks that ran before.
\<close>

definition call_if :: "('cb \<Rightarrow> timestamp \<Rightarrow> ('cb, 'z) chan_world_scheme \<Rightarrow> ('cb, 'z) chan_world_scheme option)
    \<Rightarrow> (32 word \<Rightarrow> bool) \<Rightarrow> ('cb channel \<Rightarrow> 'cb option) \<Rightarrow> timestamp \<Rightarrow> ptr
    \<Rightarrow> ('cb, 'z) chan_world_scheme \<Rightarrow> ('cb, 'z) chan_world_scheme option" where
  "call_if run_cb cond callback receiveTime p w =
     do { ch \<leftarrow> chans w p;
          if cond (revents ch)
          then (case callback ch of None \<Rightarrow> Some w | Some cb \<Rightarrow> run_cb cb receiveTime w)
          else Some w }"

definition is_close :: "32 word \<Rightarrow> bool" where
  "is_close r \<longleftrightarrow> r AND POLLHUP \<noteq> 0 \<and> r AND POLLIN = 0"

definition is_error :: "32 word \<Rightarrow> bool" where
  "is_error r \<longleftrightarrow> r AND (POLLERR OR POLLNVAL) \<noteq> 0"

definition is_read :: "32 word \<Rightarrow> bool" where
  "is_read r \<longleftrightarrow> r AND (POLLIN OR POLLPRI OR POLLRDHUP) \<noteq> 0"

definition is_write :: "32 word \<Rightarrow> bool" where
  "is_write r \<longleftrightarrow> r AND POLLOUT \<noteq> 0"

definition handleEventWithGuard :: "('cb \<Rightarrow> timestamp \<Rightarrow> ('cb, 'z) chan_world_scheme \<Rightarrow> ('cb, 'z) chan_world_scheme option)
    \<Rightarrow> timestamp \<Rightarrow> ptr \<Rightarrow> ('cb, 'z) chan_world_scheme \<Rightarrow> ('cb, 'z) chan_world_scheme option" where
  "handleEventWithGuard run_cb receiveTime p w =
     do { w \<leftarrow> modify_chan p (\<lambda>ch. ch\<lparr>eventHandling := True\<rparr>) w;
          w \<leftarrow> call_if run_cb is_close closeCallback receiveTime p w;
          w \<leftarrow> call_if run_cb is_error errorCallback receiveTime p w;
          w \<leftarrow> call_if run_cb is_read readCallback receiveTime p w;
          w \<leftarrow> call_if run_cb is_write writeCallback receiveTime p w;
          modify_chan p (\<lambda>ch. ch\<lparr>eventHandling := False\<rparr>) w }"

definition handleEvent :: "('cb \<Rightarrow> timestamp \<Rightarrow> ('cb, 'z) chan_world_scheme \<Rightarrow> ('cb, 'z) chan_world_scheme option)
    \<Rightarrow> (ptr \<Rightarrow> ('cb, 'z) chan_world_scheme \<Rightarrow> ('cb, 'z) chan_world_scheme option)
    \<Rightarrow> timestamp \<Rightarrow> ptr \<Rightarrow> ('cb, 'z) chan_world_scheme \<Rightarrow> ('cb, 'z) chan_world_scheme option" where
  "handleEvent run_cb destroy receiveTime p w =
     do { ch \<leftarrow> chans w p;
          if tied ch
          then (case weak_tie ch of
                  None \<Rightarrow> Some w
                | Some obj \<Rightarrow>
                    (case lock obj w of
                       None \<Rightarrow> Some w
                     | Some w \<Rightarrow> do { w \<leftarrow> handleEventWithGuard run_cb receiveTime p w;
                                    release destroy obj w }))
          else handleEventWithGuard run_cb receiveTime p w }"

subsection \<open>The order of the callbacks\<close>

text \<open>The callbacks that one event calls, in order.\<close>

definition dispatch :: "'cb channel \<Rightarrow> 'cb list" where
  "dispatch ch =
     (let r = revents ch; pick = (\<lambda>b c. if b then (case c of None \<Rightarrow> [] | Some cb \<Rightarrow> [cb]) else [])
      in pick (is_close r) (closeCallback ch) @ pick (is_error r) (errorCallback ch)
         @ pick (is_read r) (readCallback ch) @ pick (is_write r) (writeCallback ch))"

fun call_all :: "('cb \<Rightarrow> timestamp \<Rightarrow> 'w \<Rightarrow> 'w option) \<Rightarrow> timestamp \<Rightarrow> 'cb list \<Rightarrow> 'w \<Rightarrow> 'w option" where
  "call_all run_cb receiveTime [] w = Some w"
| "call_all run_cb receiveTime (cb # cbs) w = do { w \<leftarrow> run_cb cb receiveTime w; call_all run_cb receiveTime cbs w }"

lemma call_all_append:
  "call_all run_cb t (xs @ ys) w = do { w \<leftarrow> call_all run_cb t xs w; call_all run_cb t ys w }"
  by (induction xs arbitrary: w) (auto split: bind_splits)

text \<open>What an event finds when it reads the channel again after a callback.\<close>

definition same_handlers :: "'cb channel \<Rightarrow> 'cb channel \<Rightarrow> bool" where
  "same_handlers c d \<longleftrightarrow> revents c = revents d \<and> readCallback c = readCallback d
     \<and> writeCallback c = writeCallback d \<and> errorCallback c = errorCallback d
     \<and> closeCallback c = closeCallback d"

text \<open>A callback that leaves the channel alive, with its handlers and \<open>revents_\<close>.\<close>

definition keeps_channel :: "('cb \<Rightarrow> timestamp \<Rightarrow> ('cb, 'z) chan_world_scheme \<Rightarrow> ('cb, 'z) chan_world_scheme option)
    \<Rightarrow> ptr \<Rightarrow> bool" where
  "keeps_channel run_cb p \<longleftrightarrow>
     (\<forall>cb t w w' c. chans w p = Some c \<longrightarrow> run_cb cb t w = Some w' \<longrightarrow>
        (\<exists>c'. chans w' p = Some c' \<and> same_handlers c' c))"

lemma keeps_channelD:
  "keeps_channel run_cb p \<Longrightarrow> chans w p = Some c \<Longrightarrow> same_handlers c d \<Longrightarrow> run_cb cb t w = Some w'
   \<Longrightarrow> \<exists>c'. chans w' p = Some c' \<and> same_handlers c' d"
  unfolding keeps_channel_def same_handlers_def by metis

lemma call_all_keeps:
  "keeps_channel run_cb p \<Longrightarrow> chans w p = Some c \<Longrightarrow> same_handlers c d \<Longrightarrow> call_all run_cb t cbs w = Some w'
   \<Longrightarrow> \<exists>c'. chans w' p = Some c' \<and> same_handlers c' d"
proof (induction cbs arbitrary: w c)
  case (Cons cb cbs)
  from Cons.prems(4) obtain v where v: "run_cb cb t w = Some v" "call_all run_cb t cbs v = Some w'"
    by (auto simp: bind_eq_Some_conv)
  then obtain c1 where "chans v p = Some c1" "same_handlers c1 d"
    using keeps_channelD [OF Cons.prems(1-3)] by blast
  with Cons.IH [OF Cons.prems(1)] v(2) show ?case by blast
qed auto

text \<open>A conditional is a call of the callbacks it selects, known from the channel at the start.\<close>

lemma call_if_eq:
  assumes "chans w p = Some c" and "same_handlers c d" and "callback c = callback d"
  shows "call_if run_cb cond callback t p w
    = call_all run_cb t (if cond (revents d) then (case callback d of None \<Rightarrow> [] | Some cb \<Rightarrow> [cb]) else []) w"
  using assms by (auto simp: call_if_def same_handlers_def split: option.splits bind_splits)

lemma handlers_eq:
  assumes "same_handlers c d"
  shows "closeCallback c = closeCallback d" "errorCallback c = errorCallback d"
    "readCallback c = readCallback d" "writeCallback c = writeCallback d"
  using assms by (simp_all add: same_handlers_def)

lemma handleEventWithGuard_dispatch:
  assumes ch: "chans w p = Some ch" and keeps: "keeps_channel run_cb p"
  shows "handleEventWithGuard run_cb t p w
    = do { w \<leftarrow> modify_chan p (\<lambda>ch. ch\<lparr>eventHandling := True\<rparr>) w;
           w \<leftarrow> call_all run_cb t (dispatch ch) w;
           modify_chan p (\<lambda>ch. ch\<lparr>eventHandling := False\<rparr>) w }"
proof -
  let ?pick = "\<lambda>b c. if b then (case c of None \<Rightarrow> [] | Some cb \<Rightarrow> [cb]) else []"
  let ?r = "revents ch"
  obtain w0 where w0: "modify_chan p (\<lambda>ch. ch\<lparr>eventHandling := True\<rparr>) w = Some w0"
      "chans w0 p = Some (ch\<lparr>eventHandling := True\<rparr>)"
    using ch by (simp add: modify_chan_def)
  have s0: "same_handlers (ch\<lparr>eventHandling := True\<rparr>) ch" by (simp add: same_handlers_def)
  have step: "do { v \<leftarrow> call_if run_cb cond callback t p u; k v }
      = do { v \<leftarrow> call_all run_cb t (?pick (cond ?r) (callback ch)) u; k v }"
    if "chans u p = Some c" "same_handlers c ch" "callback c = callback ch" for u c cond callback and k :: "_ \<Rightarrow> _ option"
    using call_if_eq [of u p c ch callback run_cb cond t] that by simp
  have next_step: "do { v \<leftarrow> call_all run_cb t xs u; k v } = do { v \<leftarrow> call_all run_cb t xs u; k' v }"
    if u: "chans u p = Some c" "same_handlers c ch"
      and eq: "\<And>v c'. chans v p = Some c' \<Longrightarrow> same_handlers c' ch \<Longrightarrow> k v = k' v"
    for u c xs and k k' :: "_ \<Rightarrow> _ option"
  proof (cases "call_all run_cb t xs u")
    case (Some v)
    with call_all_keeps [OF keeps u] obtain c' where "chans v p = Some c'" "same_handlers c' ch"
      by blast
    with eq Some show ?thesis by simp
  qed simp
  have "handleEventWithGuard run_cb t p w =
      do { w \<leftarrow> call_if run_cb is_close closeCallback t p w0;
           w \<leftarrow> call_if run_cb is_error errorCallback t p w;
           w \<leftarrow> call_if run_cb is_read readCallback t p w;
           w \<leftarrow> call_if run_cb is_write writeCallback t p w;
           modify_chan p (\<lambda>ch. ch\<lparr>eventHandling := False\<rparr>) w }"
    by (simp add: handleEventWithGuard_def w0)
  also have "\<dots> =
      do { w \<leftarrow> call_all run_cb t (?pick (is_close ?r) (closeCallback ch)) w0;
           w \<leftarrow> call_all run_cb t (?pick (is_error ?r) (errorCallback ch)) w;
           w \<leftarrow> call_all run_cb t (?pick (is_read ?r) (readCallback ch)) w;
           w \<leftarrow> call_all run_cb t (?pick (is_write ?r) (writeCallback ch)) w;
           modify_chan p (\<lambda>ch. ch\<lparr>eventHandling := False\<rparr>) w }"
    by (subst step [OF w0(2) s0], simp, rule next_step [OF w0(2) s0],
        subst step, assumption, assumption, erule handlers_eq, rule next_step, assumption, assumption,
        subst step, assumption, assumption, erule handlers_eq, rule next_step, assumption, assumption,
        subst step, assumption, assumption, erule handlers_eq, rule refl)
  also have "\<dots> = do { w \<leftarrow> call_all run_cb t (dispatch ch) w0;
                      modify_chan p (\<lambda>ch. ch\<lparr>eventHandling := False\<rparr>) w }"
    by (simp add: dispatch_def Let_def call_all_append)
  finally show ?thesis by (simp add: w0(1))
qed

subsection \<open>Changing the events of interest\<close>

definition update :: "(ptr \<Rightarrow> ('cb, 'z) chan_world_scheme \<Rightarrow> ('cb, 'z) chan_world_scheme option)
    \<Rightarrow> ptr \<Rightarrow> ('cb, 'z) chan_world_scheme \<Rightarrow> ('cb, 'z) chan_world_scheme option" where
  "update updateChannel p w =
     do { w \<leftarrow> modify_chan p (\<lambda>ch. ch\<lparr>addedToLoop := True\<rparr>) w; updateChannel p w }"

definition remove_channel :: "(ptr \<Rightarrow> ('cb, 'z) chan_world_scheme \<Rightarrow> ('cb, 'z) chan_world_scheme option)
    \<Rightarrow> ptr \<Rightarrow> ('cb, 'z) chan_world_scheme \<Rightarrow> ('cb, 'z) chan_world_scheme option" where
  "remove_channel removeChannel p w =
     do { ch \<leftarrow> chans w p;
          chk (isNoneEvent ch);
          w \<leftarrow> modify_chan p (\<lambda>ch. ch\<lparr>addedToLoop := False\<rparr>) w;
          removeChannel p w }"

definition enableReading :: "(ptr \<Rightarrow> ('cb, 'z) chan_world_scheme \<Rightarrow> ('cb, 'z) chan_world_scheme option)
    \<Rightarrow> ptr \<Rightarrow> ('cb, 'z) chan_world_scheme \<Rightarrow> ('cb, 'z) chan_world_scheme option" where
  "enableReading updateChannel p w =
     do { w \<leftarrow> modify_chan p (\<lambda>ch. ch\<lparr>events := events ch OR kReadEvent\<rparr>) w; update updateChannel p w }"

definition disableReading :: "(ptr \<Rightarrow> ('cb, 'z) chan_world_scheme \<Rightarrow> ('cb, 'z) chan_world_scheme option)
    \<Rightarrow> ptr \<Rightarrow> ('cb, 'z) chan_world_scheme \<Rightarrow> ('cb, 'z) chan_world_scheme option" where
  "disableReading updateChannel p w =
     do { w \<leftarrow> modify_chan p (\<lambda>ch. ch\<lparr>events := events ch AND NOT kReadEvent\<rparr>) w; update updateChannel p w }"

definition enableWriting :: "(ptr \<Rightarrow> ('cb, 'z) chan_world_scheme \<Rightarrow> ('cb, 'z) chan_world_scheme option)
    \<Rightarrow> ptr \<Rightarrow> ('cb, 'z) chan_world_scheme \<Rightarrow> ('cb, 'z) chan_world_scheme option" where
  "enableWriting updateChannel p w =
     do { w \<leftarrow> modify_chan p (\<lambda>ch. ch\<lparr>events := events ch OR kWriteEvent\<rparr>) w; update updateChannel p w }"

definition disableWriting :: "(ptr \<Rightarrow> ('cb, 'z) chan_world_scheme \<Rightarrow> ('cb, 'z) chan_world_scheme option)
    \<Rightarrow> ptr \<Rightarrow> ('cb, 'z) chan_world_scheme \<Rightarrow> ('cb, 'z) chan_world_scheme option" where
  "disableWriting updateChannel p w =
     do { w \<leftarrow> modify_chan p (\<lambda>ch. ch\<lparr>events := events ch AND NOT kWriteEvent\<rparr>) w; update updateChannel p w }"

definition disableAll :: "(ptr \<Rightarrow> ('cb, 'z) chan_world_scheme \<Rightarrow> ('cb, 'z) chan_world_scheme option)
    \<Rightarrow> ptr \<Rightarrow> ('cb, 'z) chan_world_scheme \<Rightarrow> ('cb, 'z) chan_world_scheme option" where
  "disableAll updateChannel p w =
     do { w \<leftarrow> modify_chan p (\<lambda>ch. ch\<lparr>events := kNoneEvent\<rparr>) w; update updateChannel p w }"

text \<open>The destructor; \<open>hasChannel\<close> is the loop's.\<close>

definition Channel_dtor :: "bool \<Rightarrow> (ptr \<Rightarrow> ('cb, 'z) chan_world_scheme \<Rightarrow> bool option)
    \<Rightarrow> ptr \<Rightarrow> ('cb, 'z) chan_world_scheme \<Rightarrow> ('cb, 'z) chan_world_scheme option" where
  "Channel_dtor isInLoopThread hasChannel p w =
     do { ch \<leftarrow> chans w p;
          chk (\<not> eventHandling ch);
          chk (\<not> addedToLoop ch);
          b \<leftarrow> (if isInLoopThread then hasChannel p w else Some False);
          chk (\<not> b);
          Some (w\<lparr>chans := (chans w)(p := None)\<rparr>) }"

lemmas channel_op_defs = enableReading_def disableReading_def enableWriting_def disableWriting_def
  disableAll_def

text \<open>Every operation sets \<open>events_\<close> and calls \<open>update\<close>.\<close>

definition set_events :: "(ptr \<Rightarrow> ('cb, 'z) chan_world_scheme \<Rightarrow> ('cb, 'z) chan_world_scheme option)
    \<Rightarrow> (32 word \<Rightarrow> 32 word) \<Rightarrow> ptr \<Rightarrow> ('cb, 'z) chan_world_scheme \<Rightarrow> ('cb, 'z) chan_world_scheme option" where
  "set_events updateChannel f p w =
     do { ch \<leftarrow> chans w p;
          updateChannel p (w\<lparr>chans := (chans w)(p \<mapsto> ch\<lparr>events := f (events ch), addedToLoop := True\<rparr>)\<rparr>) }"

lemma set_events_ops:
  "enableReading u p w = set_events u (\<lambda>e. e OR kReadEvent) p w"
  "disableReading u p w = set_events u (\<lambda>e. e AND NOT kReadEvent) p w"
  "enableWriting u p w = set_events u (\<lambda>e. e OR kWriteEvent) p w"
  "disableWriting u p w = set_events u (\<lambda>e. e AND NOT kWriteEvent) p w"
  "disableAll u p w = set_events u (\<lambda>e. kNoneEvent) p w"
  by (cases "chans w p"; simp add: channel_op_defs update_def modify_chan_def set_events_def)+

subsection \<open>The contract of the loop that hosts channels\<close>

text \<open>No other channel of the loop has the descriptor of the channel at \<open>p\<close>.\<close>

definition fd_owner :: "ptr \<Rightarrow> ('cb, 'z) chan_world_scheme \<Rightarrow> bool" where
  "fd_owner p w \<longleftrightarrow> (\<forall>c q d. chans w p = Some c \<longrightarrow> chans w q = Some d \<longrightarrow> addedToLoop d \<longrightarrow> fd d = fd c \<longrightarrow> q = p)"

text \<open>
  \<open>inv S\<close> is the host's invariant, in which the channels of \<open>S\<close> have changed \<open>events_\<close> and not yet said
  so; \<open>watched\<close> is the set of events the host waits for on each descriptor. \<open>update\<close> brings the
  latter up to date, with one exception, in which it is the source that is odd: an update with no
  events of a channel that is not watched starts to watch it, for nothing.
\<close>

definition watch_after :: "fd \<Rightarrow> 32 word \<Rightarrow> (fd \<Rightarrow> 32 word option) \<Rightarrow> fd \<Rightarrow> 32 word option" where
  "watch_after f e m = m(f := if e = kNoneEvent \<and> m f \<noteq> None then None else Some e)"

locale channel_host =
  fixes updateChannel :: "ptr \<Rightarrow> ('cb, 'z) chan_world_scheme \<Rightarrow> ('cb, 'z) chan_world_scheme option"
    and removeChannel :: "ptr \<Rightarrow> ('cb, 'z) chan_world_scheme \<Rightarrow> ('cb, 'z) chan_world_scheme option"
    and inv :: "ptr set \<Rightarrow> ('cb, 'z) chan_world_scheme \<Rightarrow> bool"
    and watched :: "('cb, 'z) chan_world_scheme \<Rightarrow> fd \<Rightarrow> 32 word option"
    and removable :: "ptr \<Rightarrow> ('cb, 'z) chan_world_scheme \<Rightarrow> bool"
  assumes changed: "inv {} w \<Longrightarrow> chans w p = Some ch \<Longrightarrow> fd_owner p w \<Longrightarrow>
      inv {p} (w\<lparr>chans := (chans w)(p \<mapsto> ch\<lparr>events := e, addedToLoop := True\<rparr>)\<rparr>)"
    and watched_chans: "watched (w\<lparr>chans := cs\<rparr>) = watched w"
    and update: "inv {p} w \<Longrightarrow> chans w p = Some ch \<Longrightarrow>
      \<exists>w' i. updateChannel p w = Some w' \<and> inv {} w' \<and> chans w' = (chans w)(p \<mapsto> ch\<lparr>index := i\<rparr>)
        \<and> watched w' = watch_after (fd ch) (events ch) (watched w)"
    and remove: "inv {} w \<Longrightarrow> chans w p = Some ch \<Longrightarrow> addedToLoop ch \<Longrightarrow> isNoneEvent ch \<Longrightarrow> removable p w \<Longrightarrow>
      \<exists>w' i. removeChannel p (w\<lparr>chans := (chans w)(p \<mapsto> ch\<lparr>addedToLoop := False\<rparr>)\<rparr>) = Some w' \<and> inv {} w'
        \<and> chans w' = (chans w)(p \<mapsto> ch\<lparr>addedToLoop := False, index := i\<rparr>)
        \<and> watched w' = (watched w)(fd ch := None)"
    and deleted: "inv {} w \<Longrightarrow> chans w p = Some ch \<Longrightarrow> \<not> addedToLoop ch \<Longrightarrow>
      inv {} (w\<lparr>chans := (chans w)(p := None)\<rparr>)"
begin

lemma set_events_ok:
  assumes "inv {} w" and "chans w p = Some ch" and "fd_owner p w"
  shows "\<exists>w' i. set_events updateChannel f p w = Some w' \<and> inv {} w'
    \<and> chans w' = (chans w)(p \<mapsto> ch\<lparr>events := f (events ch), addedToLoop := True, index := i\<rparr>)
    \<and> watched w' = watch_after (fd ch) (f (events ch)) (watched w)"
proof -
  let ?ch = "ch\<lparr>events := f (events ch), addedToLoop := True\<rparr>"
  let ?w = "w\<lparr>chans := (chans w)(p \<mapsto> ?ch)\<rparr>"
  have "inv {p} ?w" by (rule changed [OF assms])
  from update [OF this, of ?ch] obtain w' i where
    "updateChannel p ?w = Some w'" "inv {} w'" "chans w' = (chans w)(p \<mapsto> ?ch\<lparr>index := i\<rparr>)"
    "watched w' = watch_after (fd ch) (f (events ch)) (watched w)"
    by (auto simp: watched_chans)
  then show ?thesis using assms(2) by (auto simp: set_events_def)
qed

lemma remove_ok:
  assumes "inv {} w" and "chans w p = Some ch" and "addedToLoop ch" and "isNoneEvent ch" and "removable p w"
  shows "\<exists>w' i. remove_channel removeChannel p w = Some w' \<and> inv {} w'
    \<and> chans w' = (chans w)(p \<mapsto> ch\<lparr>addedToLoop := False, index := i\<rparr>) \<and> watched w' = (watched w)(fd ch := None)"
  using remove [OF assms] assms by (simp add: remove_channel_def modify_chan_def)

lemma dtor_ok:
  assumes "inv {} w" and "chans w p = Some ch" and "\<not> addedToLoop ch" and "\<not> eventHandling ch"
    and "hasChannel p w = Some False"
  shows "Channel_dtor b hasChannel p w = Some (w\<lparr>chans := (chans w)(p := None)\<rparr>)
    \<and> inv {} (w\<lparr>chans := (chans w)(p := None)\<rparr>)"
  using assms deleted by (simp add: Channel_dtor_def)

end

subsection \<open>Properties\<close>



end
