(* ===== verification/Pollers.thy ===== *)
theory Pollers
  imports Channels
begin

text \<open>
  \<^verbatim>\<open>Poller.h\<close> and \<^verbatim>\<open>EPollPoller.c\<close>. The kernel's side, the interest list of the epoll instance, is the
  field \<open>interest\<close>; \<open>epoll_ctl\<close> changes it as its manual page says, and what \<open>epoll_wait\<close> returned is
  an argument of \<open>poll\<close>. The return values of \<open>epoll_ctl\<close>, which the code only prints, are kept in
  \<open>ctl_rets\<close>.
\<close>

subsection \<open>The epoll instance\<close>

definition EPOLL_CTL_ADD :: int where "EPOLL_CTL_ADD = 1"
definition EPOLL_CTL_DEL :: int where "EPOLL_CTL_DEL = 2"
definition EPOLL_CTL_MOD :: int where "EPOLL_CTL_MOD = 3"

definition EINTR :: errno where "EINTR = 4"

lemmas epoll_op_defs = EPOLL_CTL_ADD_def EPOLL_CTL_DEL_def EPOLL_CTL_MOD_def

type_synonym interest_list = "fd \<Rightarrow> (32 word \<times> ptr) option"

definition epoll_ctl :: "int \<Rightarrow> fd \<Rightarrow> 32 word \<times> ptr \<Rightarrow> interest_list \<Rightarrow> int \<times> interest_list" where
  "epoll_ctl operation f event k =
     (if operation = EPOLL_CTL_ADD then (if k f = None then (0, k(f \<mapsto> event)) else (-1, k))
      else if operation = EPOLL_CTL_MOD then (if k f = None then (-1, k) else (0, k(f \<mapsto> event)))
      else if operation = EPOLL_CTL_DEL then (if k f = None then (-1, k) else (0, k(f := None)))
      else (-1, k))"

definition operationToString :: "int \<Rightarrow> string option" where
  "operationToString op' =
     (if op' = EPOLL_CTL_ADD then Some ''ADD''
      else if op' = EPOLL_CTL_DEL then Some ''DEL''
      else if op' = EPOLL_CTL_MOD then Some ''MOD''
      else None)"

subsection \<open>The poller\<close>

definition kNew :: int where "kNew = -1"
definition kAdded :: int where "kAdded = 1"
definition kDeleted :: int where "kDeleted = 2"

lemmas index_defs = kNew_def kAdded_def kDeleted_def

record 'cb poll_world = "'cb chan_world" +
  channels :: "fd \<Rightarrow> ptr option"
  interest :: interest_list
  events_size :: nat
  ctl_rets :: "int list"

definition epoll_update :: "int \<Rightarrow> ptr \<Rightarrow> ('cb, 'z) poll_world_scheme \<Rightarrow> ('cb, 'z) poll_world_scheme option" where
  "epoll_update operation p w =
     do { channel \<leftarrow> chans w p;
          let (test, k) = epoll_ctl operation (fd channel) (events channel, p) (interest w);
          Some (w\<lparr>interest := k, ctl_rets := ctl_rets w @ [test]\<rparr>) }"

definition updateChannel :: "ptr \<Rightarrow> ('cb, 'z) poll_world_scheme \<Rightarrow> ('cb, 'z) poll_world_scheme option" where
  "updateChannel p w =
     do { channel \<leftarrow> chans w p;
          if index channel = kNew \<or> index channel = kDeleted
          then do { w \<leftarrow> (if index channel = kNew
                          then do { chk (channels w (fd channel) = None);
                                    Some (w\<lparr>channels := (channels w)(fd channel \<mapsto> p)\<rparr>) }
                          else do { chk (channels w (fd channel) \<noteq> None);
                                    chk (channels w (fd channel) = Some p);
                                    Some w });
                    w \<leftarrow> modify_chan p (\<lambda>ch. ch\<lparr>index := kAdded\<rparr>) w;
                    epoll_update EPOLL_CTL_ADD p w }
          else do { chk (channels w (fd channel) \<noteq> None);
                    chk (channels w (fd channel) = Some p);
                    chk (index channel = kAdded);
                    if isNoneEvent channel
                    then do { w \<leftarrow> epoll_update EPOLL_CTL_DEL p w;
                              modify_chan p (\<lambda>ch. ch\<lparr>index := kDeleted\<rparr>) w }
                    else epoll_update EPOLL_CTL_MOD p w } }"

definition removeChannel :: "ptr \<Rightarrow> ('cb, 'z) poll_world_scheme \<Rightarrow> ('cb, 'z) poll_world_scheme option" where
  "removeChannel p w =
     do { channel \<leftarrow> chans w p;
          chk (channels w (fd channel) \<noteq> None);
          chk (channels w (fd channel) = Some p);
          chk (isNoneEvent channel);
          chk (index channel = kAdded \<or> index channel = kDeleted);
          let w = w\<lparr>channels := (channels w)(fd channel := None)\<rparr>;
          w \<leftarrow> (if index channel = kAdded then epoll_update EPOLL_CTL_DEL p w else Some w);
          modify_chan p (\<lambda>ch. ch\<lparr>index := kNew\<rparr>) w }"

subsection \<open>Polling\<close>

text \<open>The loop of \<open>fillActiveChannels\<close> over the \<open>numEvents\<close> events that the kernel stored.\<close>

fun fill_active :: "(32 word \<times> ptr) list \<Rightarrow> ptr list \<Rightarrow> ('cb, 'z) poll_world_scheme
    \<Rightarrow> (ptr list \<times> ('cb, 'z) poll_world_scheme) option" where
  "fill_active [] activeChannels w = Some (activeChannels, w)"
| "fill_active (ev # evs) activeChannels w =
     do { channel \<leftarrow> chans w (snd ev);
          it \<leftarrow> channels w (fd channel);
          chk (it = snd ev);
          w \<leftarrow> modify_chan (snd ev) (\<lambda>ch. ch\<lparr>revents := fst ev\<rparr>) w;
          fill_active evs (activeChannels @ [snd ev]) w }"

definition fillActiveChannels :: "(32 word \<times> ptr) list \<Rightarrow> ptr list \<Rightarrow> ('cb, 'z) poll_world_scheme
    \<Rightarrow> (ptr list \<times> ('cb, 'z) poll_world_scheme) option" where
  "fillActiveChannels evs activeChannels w =
     do { chk (length evs \<le> events_size w); fill_active evs activeChannels w }"

text \<open>\<open>Inl errno\<close> is the return value -1 of \<open>epoll_wait\<close>; \<open>Inr evs\<close> a number of events.\<close>

definition poll :: "errno + (32 word \<times> ptr) list \<Rightarrow> timestamp \<Rightarrow> ptr list \<Rightarrow> ('cb, 'z) poll_world_scheme
    \<Rightarrow> (timestamp \<times> ptr list \<times> ('cb, 'z) poll_world_scheme) option" where
  "poll result now activeChannels w =
     (case result of
        Inl savedErrno \<Rightarrow> Some (now, activeChannels, w)
      | Inr evs \<Rightarrow>
          if 0 < length evs
          then do { (activeChannels, w) \<leftarrow> fillActiveChannels evs activeChannels w;
                    let w = (if length evs = events_size w then w\<lparr>events_size := events_size w * 2\<rparr> else w);
                    Some (now, activeChannels, w) }
          else Some (now, activeChannels, w))"

text \<open>What \<open>epoll_wait\<close> may return: as many events as there is room for, on watched descriptors, each
  with its own data pointer, and of those asked for, or \<open>POLLERR\<close> and \<open>POLLHUP\<close>, which need no asking.\<close>

definition epoll_wait_ok :: "errno + (32 word \<times> ptr) list \<Rightarrow> ('cb, 'z) poll_world_scheme \<Rightarrow> bool" where
  "epoll_wait_ok result w \<longleftrightarrow>
     (case result of Inl e \<Rightarrow> True
      | Inr evs \<Rightarrow> length evs \<le> events_size w \<and> distinct (map snd evs)
          \<and> (\<forall>(r, p) \<in> set evs. r \<noteq> 0 \<and>
               (\<exists>c \<in> set_option (chans w p). \<exists>e. interest w (fd c) = Some (e, p)
                  \<and> r AND NOT (e OR POLLERR OR POLLHUP) = 0)))"

lemma epoll_wait_okD:
  assumes "epoll_wait_ok (Inr evs) w" and "(r, p) \<in> set evs"
  shows "\<exists>c e. chans w p = Some c \<and> interest w (fd c) = Some (e, p)"
proof -
  have "\<forall>(r, p) \<in> set evs. \<exists>c \<in> set_option (chans w p). \<exists>e. interest w (fd c) = Some (e, p)"
    using assms(1) by (auto simp: epoll_wait_ok_def)
  from bspec [OF this assms(2)] show ?thesis by auto
qed

subsection \<open>The invariant\<close>

definition chan_ok :: "('cb, 'z) poll_world_scheme \<Rightarrow> ptr \<Rightarrow> 'cb channel \<Rightarrow> bool" where
  "chan_ok w p c \<longleftrightarrow> index c \<in> {kNew, kAdded, kDeleted}
     \<and> addedToLoop c = (index c \<noteq> kNew)
     \<and> (index c \<noteq> kNew \<longrightarrow> channels w (fd c) = Some p)
     \<and> (index c = kAdded \<longrightarrow> interest w (fd c) = Some (events c, p))
     \<and> (index c \<noteq> kAdded \<longrightarrow> events c = kNoneEvent)"

text \<open>A channel that has changed \<open>events_\<close> and set \<open>addedToLoop_\<close>.\<close>

definition dirty_ok :: "('cb, 'z) poll_world_scheme \<Rightarrow> ptr \<Rightarrow> 'cb channel \<Rightarrow> bool" where
  "dirty_ok w p c \<longleftrightarrow> addedToLoop c \<and> fd_owner p w
     \<and> (\<exists>e a. chan_ok w p (c\<lparr>events := e, addedToLoop := a\<rparr>))"

definition pinv :: "ptr set \<Rightarrow> ('cb, 'z) poll_world_scheme \<Rightarrow> bool" where
  "pinv S w \<longleftrightarrow>
     (\<forall>p c. chans w p = Some c \<longrightarrow> (if p \<in> S then dirty_ok w p c else chan_ok w p c))
     \<and> (\<forall>f p. channels w f = Some p \<longrightarrow> (\<exists>c. chans w p = Some c \<and> fd c = f \<and> index c \<noteq> kNew))
     \<and> (\<forall>f e p. interest w f = Some (e, p) \<longrightarrow> (\<exists>c. chans w p = Some c \<and> fd c = f \<and> index c = kAdded))
     \<and> set (ctl_rets w) \<subseteq> {0}"

definition watched :: "('cb, 'z) poll_world_scheme \<Rightarrow> fd \<Rightarrow> 32 word option" where
  "watched w f = map_option fst (interest w f)"

lemma pinv_chan: "pinv {} w \<Longrightarrow> chans w p = Some c \<Longrightarrow> chan_ok w p c"
  by (simp add: pinv_def)

lemma pinv_dirty: "pinv {p} w \<Longrightarrow> chans w p = Some c \<Longrightarrow> dirty_ok w p c"
  by (simp add: pinv_def)

lemma pinv_channels: "pinv S w \<Longrightarrow> channels w f = Some p \<Longrightarrow> \<exists>c. chans w p = Some c \<and> fd c = f \<and> index c \<noteq> kNew"
  by (simp add: pinv_def)

lemma pinv_interest: "pinv S w \<Longrightarrow> interest w f = Some (e, p) \<Longrightarrow> \<exists>c. chans w p = Some c \<and> fd c = f \<and> index c = kAdded"
  by (simp add: pinv_def)

lemma pinv_channels_at: "pinv S w \<Longrightarrow> channels w f = Some p \<Longrightarrow> chans w p = Some c \<Longrightarrow> fd c = f \<and> index c \<noteq> kNew"
  using pinv_channels by fastforce

lemma pinv_interest_at: "pinv S w \<Longrightarrow> interest w f = Some (e, p) \<Longrightarrow> chans w p = Some c \<Longrightarrow> fd c = f \<and> index c = kAdded"
  using pinv_interest by fastforce

lemma kNew_neq [simp]: "kAdded \<noteq> kNew" "kDeleted \<noteq> kNew" "kNew \<noteq> kAdded" "kNew \<noteq> kDeleted"
    "kAdded \<noteq> kDeleted" "kDeleted \<noteq> kAdded"
  by (simp_all add: index_defs)

lemma epoll_op_neq [simp]: "EPOLL_CTL_MOD \<noteq> EPOLL_CTL_ADD" "EPOLL_CTL_DEL \<noteq> EPOLL_CTL_ADD" "EPOLL_CTL_DEL \<noteq> EPOLL_CTL_MOD"
  by (simp_all add: epoll_op_defs)

lemma modify_chan_Some [simp]: "chans w p = Some ch \<Longrightarrow> modify_chan p f w = Some (w\<lparr>chans := (chans w)(p \<mapsto> f ch)\<rparr>)"
  by (simp add: modify_chan_def)

lemma other_fd:
  assumes "pinv {p} w" and "chans w p = Some ch" and "chans w q = Some c" and "q \<noteq> p" and "index c \<noteq> kNew"
  shows "fd c \<noteq> fd ch"
proof
  assume eq: "fd c = fd ch"
  have "chan_ok w q c" using assms(1,3,4) by (simp add: pinv_def)
  then have "addedToLoop c" using assms(5) by (simp add: chan_ok_def)
  moreover have "fd_owner p w" using pinv_dirty [OF assms(1,2)] by (simp add: dirty_ok_def)
  ultimately show False using assms(2-4) eq by (auto simp: fd_owner_def)
qed

lemma interest_unregistered:
  assumes "pinv {p} w" and "chans w p = Some ch" and "index ch \<noteq> kAdded"
  shows "interest w (fd ch) = None"
proof (rule ccontr)
  assume "interest w (fd ch) \<noteq> None"
  then obtain e q where "interest w (fd ch) = Some (e, q)" by auto
  then obtain c where c: "chans w q = Some c" "fd c = fd ch" "index c = kAdded"
    using pinv_interest [OF assms(1)] by blast
  with assms(2,3) have "q \<noteq> p" by auto
  from other_fd [OF assms(1,2) c(1) this] c(2,3) show False by simp
qed

lemma dirty_index:
  assumes "pinv {p} w" and "chans w p = Some ch"
  shows "index ch = kNew \<or> index ch = kAdded \<or> index ch = kDeleted"
    and "index ch = kNew \<Longrightarrow> channels w (fd ch) = None"
    and "index ch \<noteq> kNew \<Longrightarrow> channels w (fd ch) = Some p"
    and "index ch = kAdded \<Longrightarrow> \<exists>e. interest w (fd ch) = Some (e, p)"
    and "addedToLoop ch"
proof -
  have d: "dirty_ok w p ch" by (rule pinv_dirty [OF assms])
  then show "index ch = kNew \<or> index ch = kAdded \<or> index ch = kDeleted" "addedToLoop ch"
    "index ch \<noteq> kNew \<Longrightarrow> channels w (fd ch) = Some p"
    "index ch = kAdded \<Longrightarrow> \<exists>e. interest w (fd ch) = Some (e, p)"
    by (auto simp: dirty_ok_def chan_ok_def)
  show "channels w (fd ch) = None" if "index ch = kNew"
  proof (rule ccontr)
    assume "channels w (fd ch) \<noteq> None"
    then obtain q where "channels w (fd ch) = Some q" by auto
    then obtain c where c: "chans w q = Some c" "fd c = fd ch" "index c \<noteq> kNew"
      using pinv_channels [OF assms(1)] by blast
    with assms(2) that have "q \<noteq> p" by auto
    from other_fd [OF assms c(1) this] c(2,3) show False by simp
  qed
qed

text \<open>What an update leaves: the channel at \<open>p\<close> consistent at its descriptor, all else as it was.\<close>

lemma pinv_updated:
  assumes inv: "pinv {p} w" and ch: "chans w p = Some ch"
    and w': "chans w' = (chans w)(p \<mapsto> ch\<lparr>index := i\<rparr>)" "channels w' = (channels w)(fd ch \<mapsto> p)"
      "interest w' = (interest w)(fd ch := ev)" "ctl_rets w' = ctl_rets w @ [0]"
    and i: "i = kAdded \<and> ev = Some (events ch, p) \<or> i = kDeleted \<and> ev = None \<and> events ch = kNoneEvent"
  shows "pinv {} w'"
  unfolding pinv_def
proof (intro conjI allI impI, goal_cases)
  case (1 q c)
  show ?case
  proof (cases "q = p")
    case True
    then have "c = ch\<lparr>index := i\<rparr>" using 1 w' by simp
    with True i dirty_index(5) [OF inv ch] show ?thesis by (auto simp: chan_ok_def w')
  next
    case False
    then have c: "chans w q = Some c" using 1 w' by simp
    have "chan_ok w q c" using inv c False by (simp add: pinv_def)
    moreover have "index c \<noteq> kNew \<Longrightarrow> fd c \<noteq> fd ch" by (rule other_fd [OF inv ch c False])
    ultimately show ?thesis by (auto simp: chan_ok_def w')
  qed
next
  case (2 f q)
  show ?case
  proof (cases "f = fd ch")
    case True
    with 2 i show ?thesis by (auto simp: w')
  next
    case False
    then have "channels w f = Some q" using 2 by (simp add: w')
    with pinv_channels [OF inv this] False ch i show ?thesis by (auto simp: w')
  qed
next
  case (3 f e q)
  show ?case
  proof (cases "f = fd ch")
    case True
    with 3 i show ?thesis by (auto simp: w')
  next
    case False
    then have "interest w f = Some (e, q)" using 3 by (simp add: w')
    with pinv_interest [OF inv this] False ch show ?thesis by (auto simp: w')
  qed
next
  case 4
  show ?case using inv by (simp add: pinv_def w')
qed

lemma updateChannel_ok:
  assumes inv: "pinv {p} w" and ch: "chans w p = Some ch"
  shows "\<exists>w' i. updateChannel p w = Some w' \<and> pinv {} w' \<and> chans w' = (chans w)(p \<mapsto> ch\<lparr>index := i\<rparr>)
    \<and> watched w' = watch_after (fd ch) (events ch) (watched w)"
proof -
  note idx = dirty_index [OF inv ch]
  have upd: "\<exists>w' i. updateChannel p w = Some w' \<and> pinv {} w' \<and> chans w' = (chans w)(p \<mapsto> ch\<lparr>index := i\<rparr>)
      \<and> watched w' = watch_after (fd ch) (events ch) (watched w)"
    if "updateChannel p w = Some w'" "chans w' = (chans w)(p \<mapsto> ch\<lparr>index := i\<rparr>)"
      "channels w' = (channels w)(fd ch \<mapsto> p)"
      "interest w' = (interest w)(fd ch := ev)" "ctl_rets w' = ctl_rets w @ [0]"
      "i = kAdded \<and> ev = Some (events ch, p) \<or> i = kDeleted \<and> ev = None \<and> events ch = kNoneEvent"
      "ev = None \<longleftrightarrow> events ch = kNoneEvent \<and> watched w (fd ch) \<noteq> None" for w' i ev
    using that pinv_updated [OF inv ch that(2-6)]
    by (intro exI [of _ w'] exI [of _ i]) (auto simp: watched_def watch_after_def fun_eq_iff)
  consider (new) "index ch = kNew" | (del) "index ch = kDeleted"
    | (none) "index ch = kAdded" "isNoneEvent ch" | (mod) "index ch = kAdded" "\<not> isNoneEvent ch"
    using idx(1) by blast
  then show ?thesis
  proof cases
    case new
    have k: "interest w (fd ch) = None" using interest_unregistered [OF inv ch] new by simp
    show ?thesis
      by (rule upd [of "w\<lparr>chans := (chans w)(p \<mapsto> ch\<lparr>index := kAdded\<rparr>), channels := (channels w)(fd ch \<mapsto> p),
            interest := (interest w)(fd ch \<mapsto> (events ch, p)), ctl_rets := ctl_rets w @ [0]\<rparr>" kAdded])
        (use new idx ch k in \<open>auto simp: updateChannel_def epoll_update_def epoll_ctl_def watched_def\<close>)
  next
    case del
    have k: "interest w (fd ch) = None" using interest_unregistered [OF inv ch] del by simp
    show ?thesis
      by (rule upd [of "w\<lparr>chans := (chans w)(p \<mapsto> ch\<lparr>index := kAdded\<rparr>),
            interest := (interest w)(fd ch \<mapsto> (events ch, p)), ctl_rets := ctl_rets w @ [0]\<rparr>" kAdded])
        (use del idx ch k in \<open>auto simp: updateChannel_def epoll_update_def epoll_ctl_def watched_def fun_upd_idem\<close>)
  next
    case none
    then obtain e where k: "interest w (fd ch) = Some (e, p)" using idx(4) by blast
    show ?thesis
      by (rule upd [of "w\<lparr>chans := (chans w)(p \<mapsto> ch\<lparr>index := kDeleted\<rparr>),
            interest := (interest w)(fd ch := None), ctl_rets := ctl_rets w @ [0]\<rparr>" kDeleted])
        (use none idx ch k in \<open>auto simp: updateChannel_def epoll_update_def epoll_ctl_def watched_def isNoneEvent_def fun_upd_idem\<close>)
  next
    case mod
    then obtain e where k: "interest w (fd ch) = Some (e, p)" using idx(4) by blast
    show ?thesis
      by (rule upd [of "w\<lparr>interest := (interest w)(fd ch \<mapsto> (events ch, p)), ctl_rets := ctl_rets w @ [0]\<rparr>" kAdded])
        (use mod idx ch k in \<open>auto simp: updateChannel_def epoll_update_def epoll_ctl_def watched_def isNoneEvent_def fun_upd_idem\<close>)
  qed
qed

lemma pinv_changed:
  assumes inv: "pinv {} w" and ch: "chans w p = Some ch" and own: "fd_owner p w"
  shows "pinv {p} (w\<lparr>chans := (chans w)(p \<mapsto> ch\<lparr>events := e, addedToLoop := True\<rparr>)\<rparr>)"
proof -
  let ?w = "w\<lparr>chans := (chans w)(p \<mapsto> ch\<lparr>events := e, addedToLoop := True\<rparr>)\<rparr>"
  have ok: "chan_ok ?w q c = chan_ok w q c" for q c by (simp add: chan_ok_def)
  have "\<exists>e a. chan_ok w p (ch\<lparr>events := e, addedToLoop := a\<rparr>)"
    using pinv_chan [OF inv ch] by (intro exI [of _ "events ch"] exI [of _ "addedToLoop ch"]) simp
  then have "dirty_ok ?w p (ch\<lparr>events := e, addedToLoop := True\<rparr>)"
    unfolding dirty_ok_def ok using own ch by (auto simp: fd_owner_def)
  moreover have "chan_ok ?w q c" if "chans w q = Some c" for q c
    using pinv_chan [OF inv that] by (simp add: ok)
  moreover have "set (ctl_rets w) \<subseteq> {0}" using inv by (simp add: pinv_def)
  ultimately show ?thesis
    unfolding pinv_def using pinv_channels [OF inv] pinv_interest [OF inv] ch
      pinv_channels_at [OF inv _ ch] pinv_interest_at [OF inv _ ch]
    by auto
qed

lemma same_fd:
  assumes "pinv {} w" and "chans w p = Some ch" and "chans w q = Some c" and "q \<noteq> p"
    and "index c \<noteq> kNew" and "index ch \<noteq> kNew"
  shows "fd c \<noteq> fd ch"
  using pinv_chan [OF assms(1,2)] pinv_chan [OF assms(1,3)] assms by (auto simp: chan_ok_def)

lemma removeChannel_ok:
  assumes inv: "pinv {} w" and ch: "chans w p = Some ch" and added: "addedToLoop ch" and none: "isNoneEvent ch"
  shows "\<exists>w' i. removeChannel p (w\<lparr>chans := (chans w)(p \<mapsto> ch\<lparr>addedToLoop := False\<rparr>)\<rparr>) = Some w' \<and> pinv {} w'
        \<and> chans w' = (chans w)(p \<mapsto> ch\<lparr>addedToLoop := False, index := i\<rparr>)
        \<and> watched w' = (watched w)(fd ch := None)"
proof -
  have ok: "chan_ok w p ch" by (rule pinv_chan [OF inv ch])
  have idx: "index ch = kAdded \<or> index ch = kDeleted" "channels w (fd ch) = Some p"
    using ok added by (auto simp: chan_ok_def)
  let ?ch = "ch\<lparr>addedToLoop := False, index := kNew\<rparr>"
  let ?k = "(interest w)(fd ch := None)"
  define w' where "w' = w\<lparr>chans := (chans w)(p \<mapsto> ?ch), channels := (channels w)(fd ch := None),
      interest := ?k, ctl_rets := ctl_rets w @ (if index ch = kAdded then [0] else [])\<rparr>"
  have unreg: "interest w (fd ch) = None" if "index ch = kDeleted"
  proof (rule ccontr)
    assume "interest w (fd ch) \<noteq> None"
    then obtain e q where q: "interest w (fd ch) = Some (e, q)" by auto
    then obtain c where c: "chans w q = Some c" "fd c = fd ch" "index c = kAdded"
      using pinv_interest [OF inv] by blast
    with that ch have "q \<noteq> p" by auto
    with same_fd [OF inv ch c(1)] c that show False by simp
  qed
  have eq: "removeChannel p (w\<lparr>chans := (chans w)(p \<mapsto> ch\<lparr>addedToLoop := False\<rparr>)\<rparr>) = Some w'"
    using idx none unreg ok
    by (auto simp: removeChannel_def epoll_update_def epoll_ctl_def w'_def chan_ok_def isNoneEvent_def fun_upd_idem)
  have "pinv {} w'"
    unfolding pinv_def
  proof (intro conjI allI impI, goal_cases)
    case (1 q c)
    show ?case
    proof (cases "q = p")
      case True
      then have "c = ?ch" using 1 by (simp add: w'_def)
      with True none show ?thesis by (simp add: chan_ok_def isNoneEvent_def)
    next
      case False
      then have c: "chans w q = Some c" using 1 by (simp add: w'_def)
      have "index c \<noteq> kNew \<Longrightarrow> fd c \<noteq> fd ch"
        using same_fd [OF inv ch c False] idx by auto
      with pinv_chan [OF inv c] show ?thesis by (auto simp: chan_ok_def w'_def)
    qed
  next
    case (2 f q)
    then have f: "f \<noteq> fd ch" "channels w f = Some q" by (auto simp: w'_def split: if_splits)
    with pinv_channels [OF inv f(2)] ch show ?case by (auto simp: w'_def)
  next
    case (3 f e q)
    then have f: "f \<noteq> fd ch" "interest w f = Some (e, q)" by (auto simp: w'_def split: if_splits)
    with pinv_interest [OF inv f(2)] ch show ?case by (auto simp: w'_def)
  next
    case 4
    show ?case using inv by (auto simp: pinv_def w'_def)
  qed
  with eq show ?thesis
    by (intro exI [of _ w'] exI [of _ kNew]) (simp add: w'_def watched_def fun_eq_iff)
qed

lemma pinv_deleted:
  assumes inv: "pinv {} w" and ch: "chans w p = Some ch" and added: "\<not> addedToLoop ch"
  shows "pinv {} (w\<lparr>chans := (chans w)(p := None)\<rparr>)"
proof -
  let ?w = "w\<lparr>chans := (chans w)(p := None)\<rparr>"
  have idx: "index ch = kNew" using pinv_chan [OF inv ch] added by (simp add: chan_ok_def)
  have "chan_ok ?w q c" if "chans ?w q = Some c" for q c
    using pinv_chan [OF inv, of q c] that by (auto simp: chan_ok_def split: if_splits)
  with pinv_channels [OF inv] pinv_interest [OF inv] inv ch idx show ?thesis
    unfolding pinv_def by (auto, metis option.inject kNew_neq(3) idx, metis idx option.inject kNew_neq(1))
qed

lemma pinv_new:
  assumes inv: "pinv {} w" and free: "chans w p = None"
  shows "pinv {} (w\<lparr>chans := (chans w)(p \<mapsto> Channel loop f)\<rparr>)"
proof -
  let ?w = "w\<lparr>chans := (chans w)(p \<mapsto> Channel loop f)\<rparr>"
  have "chan_ok ?w q c" if "chans ?w q = Some c" for q c
    using pinv_chan [OF inv, of q c] that
    by (auto simp: chan_ok_def Channel_def index_defs kNoneEvent_def split: if_splits)
  moreover have "chans w q = Some c \<Longrightarrow> q \<noteq> p" for q c using free by auto
  ultimately show ?thesis
    using pinv_channels [OF inv] pinv_interest [OF inv] inv free
    unfolding pinv_def by (auto, blast+)
qed

lemma pinv_touch:
  assumes inv: "pinv {} w" and ch: "chans w p = Some ch"
    and same: "fd d = fd ch" "events d = events ch" "index d = index ch" "addedToLoop d = addedToLoop ch"
  shows "pinv {} (w\<lparr>chans := (chans w)(p \<mapsto> d)\<rparr>)"
proof -
  let ?w = "w\<lparr>chans := (chans w)(p \<mapsto> d)\<rparr>"
  have "chan_ok ?w q c" if "chans ?w q = Some c" for q c
    using pinv_chan [OF inv, of q] that pinv_chan [OF inv ch] same by (auto simp: chan_ok_def split: if_splits)
  then show ?thesis
    using pinv_channels [OF inv] pinv_interest [OF inv] pinv_channels_at [OF inv _ ch]
      pinv_interest_at [OF inv _ ch] inv same
    unfolding pinv_def by auto
qed

interpretation poller: channel_host updateChannel removeChannel pinv watched "\<lambda>p w. True"
proof (unfold_locales, goal_cases)
  case (1 w p ch e)
  then show ?case by (rule pinv_changed)
next
  case (2 w cs)
  show ?case by (simp add: watched_def fun_eq_iff)
next
  case (3 p w ch)
  then show ?case by (rule updateChannel_ok)
next
  case (4 w p ch)
  then show ?case by (intro removeChannel_ok)
next
  case (5 w p ch)
  then show ?case by (rule pinv_deleted)
qed

subsection \<open>Active channels\<close>

definition with_revents :: "(32 word \<times> ptr) list \<Rightarrow> (ptr \<Rightarrow> 'cb channel option) \<Rightarrow> ptr \<Rightarrow> 'cb channel option" where
  "with_revents evs cs = (\<lambda>q. case map_of (map prod.swap evs) q of
      None \<Rightarrow> cs q | Some r \<Rightarrow> map_option (\<lambda>c. c\<lparr>revents := r\<rparr>) (cs q))"

lemma with_revents_Nil [simp]: "with_revents [] cs = cs"
  by (simp add: with_revents_def)

lemma with_revents_Cons:
  assumes "cs p = Some c" and "p \<notin> snd ` set evs"
  shows "with_revents evs (cs(p \<mapsto> c\<lparr>revents := r\<rparr>)) = with_revents ((r, p) # evs) cs"
proof
  fix q
  have "map_of (map prod.swap evs) p = None"
    using assms(2) by (force simp: map_of_eq_None_iff)
  then show "with_revents evs (cs(p \<mapsto> c\<lparr>revents := r\<rparr>)) q = with_revents ((r, p) # evs) cs q"
    using assms(1) by (auto simp: with_revents_def split: option.splits)
qed

lemma fill_active_ok:
  "distinct (map snd evs) \<Longrightarrow> (\<And>p. p \<in> snd ` set evs \<Longrightarrow> \<exists>c. chans w p = Some c \<and> channels w (fd c) = Some p)
   \<Longrightarrow> fill_active evs ac w = Some (ac @ map snd evs, w\<lparr>chans := with_revents evs (chans w)\<rparr>)"
proof (induction evs arbitrary: ac w)
  case (Cons ev evs)
  obtain c where c: "chans w (snd ev) = Some c" "channels w (fd c) = Some (snd ev)"
    using Cons.prems(2) [of "snd ev"] by auto
  let ?w = "w\<lparr>chans := (chans w)(snd ev \<mapsto> c\<lparr>revents := fst ev\<rparr>)\<rparr>"
  have "fill_active evs (ac @ [snd ev]) ?w
      = Some ((ac @ [snd ev]) @ map snd evs, ?w\<lparr>chans := with_revents evs (chans ?w)\<rparr>)"
  proof (rule Cons.IH)
    show "distinct (map snd evs)" using Cons.prems(1) by simp
    fix p assume "p \<in> snd ` set evs"
    with Cons.prems(2) [of p] c show "\<exists>c. chans ?w p = Some c \<and> channels ?w (fd c) = Some p" by auto
  qed
  moreover have "with_revents evs ((chans w)(snd ev \<mapsto> c\<lparr>revents := fst ev\<rparr>)) = with_revents (ev # evs) (chans w)"
    using with_revents_Cons [where cs = "chans w" and p = "snd ev" and c = c and r = "fst ev" and evs = evs]
      c(1) Cons.prems(1) by auto
  ultimately show ?case using c by simp
qed simp

lemma pinv_revents:
  assumes inv: "pinv {} w"
  shows "pinv {} (w\<lparr>chans := with_revents evs (chans w)\<rparr>)"
proof -
  have old: "\<exists>d. chans w p = Some d \<and> (c = d \<or> (\<exists>r. c = d\<lparr>revents := r\<rparr>))"
    if "with_revents evs (chans w) p = Some c" for p c
    using that by (auto simp: with_revents_def split: option.splits)
  have forth: "\<exists>c. with_revents evs (chans w) p = Some c \<and> (c = d \<or> (\<exists>r. c = d\<lparr>revents := r\<rparr>))"
    if "chans w p = Some d" for p d
    using that by (auto simp: with_revents_def split: option.splits)
  show ?thesis
    unfolding pinv_def
  proof (intro conjI allI impI, goal_cases)
    case (1 p c)
    then have "with_revents evs (chans w) p = Some c" by simp
    from old [OF this] obtain d where d: "chans w p = Some d" "c = d \<or> (\<exists>r. c = d\<lparr>revents := r\<rparr>)"
      by blast
    with pinv_chan [OF inv d(1)] show ?case by (auto simp: chan_ok_def)
  next
    case (2 f p)
    then obtain d where d: "chans w p = Some d" "fd d = f" "index d \<noteq> kNew"
      using pinv_channels [OF inv, of f p] by auto
    with forth [OF d(1)] show ?case by auto
  next
    case (3 f e p)
    then obtain d where d: "chans w p = Some d" "fd d = f" "index d = kAdded"
      using pinv_interest [OF inv, of f e p] by auto
    with forth [OF d(1)] show ?case by auto
  next
    case 4
    show ?case using inv by (simp add: pinv_def)
  qed
qed

lemma pinv_frame [simp]: "pinv S (w\<lparr>events_size := n\<rparr>) = pinv S w" "pinv S (w\<lparr>use_count := u\<rparr>) = pinv S w"
  by (simp_all add: pinv_def dirty_ok_def chan_ok_def fd_owner_def)

lemma poll_ok:
  assumes inv: "pinv {} w" and ok: "epoll_wait_ok (Inr evs) w"
  shows "poll (Inr evs) now [] w = Some (now, map snd evs,
      w\<lparr>chans := with_revents evs (chans w),
        events_size := (if evs \<noteq> [] \<and> length evs = events_size w then 2 * events_size w else events_size w)\<rparr>)"
proof -
  have reg: "\<exists>c. chans w p = Some c \<and> channels w (fd c) = Some p" if "p \<in> snd ` set evs" for p
  proof -
    from that obtain r where "(r, p) \<in> set evs" by auto
    with ok obtain c e where c: "chans w p = Some c" "interest w (fd c) = Some (e, p)"
      using epoll_wait_okD by blast
    then have "index c = kAdded" using pinv_interest_at [OF inv] by blast
    with pinv_chan [OF inv c(1)] c(1) show ?thesis by (simp add: chan_ok_def)
  qed
  have "fill_active evs [] w = Some ([] @ map snd evs, w\<lparr>chans := with_revents evs (chans w)\<rparr>)"
    by (rule fill_active_ok) (use ok reg in \<open>auto simp: epoll_wait_ok_def\<close>)
  moreover have "length evs \<le> events_size w" using ok by (simp add: epoll_wait_ok_def)
  ultimately show ?thesis by (auto simp: poll_def fillActiveChannels_def mult.commute)
qed

subsection \<open>The poller as a machine\<close>

datatype chan_op = New ptr ptr fd | EnableReading ptr | DisableReading ptr | EnableWriting ptr
  | DisableWriting ptr | DisableAll ptr | Remove ptr | Delete bool ptr
  | Poll "errno + (32 word \<times> ptr) list" timestamp

definition EPollPoller :: "nat \<Rightarrow> 'cb poll_world" where
  "EPollPoller kInitEventListSize =
     \<lparr>chans = Map.empty, use_count = (\<lambda>p. 0), channels = Map.empty, interest = Map.empty,
      events_size = kInitEventListSize, ctl_rets = []\<rparr>"

text \<open>\<open>has\<close> is \<open>Poller::hasChannel\<close>.\<close>

fun poller_step :: "(ptr \<Rightarrow> 'cb poll_world \<Rightarrow> bool) \<Rightarrow> chan_op \<Rightarrow> 'cb poll_world \<Rightarrow> 'cb poll_world option" where
  "poller_step has (New p loop f) w = Some (w\<lparr>chans := (chans w)(p \<mapsto> Channel loop f)\<rparr>)"
| "poller_step has (EnableReading p) w = enableReading updateChannel p w"
| "poller_step has (DisableReading p) w = disableReading updateChannel p w"
| "poller_step has (EnableWriting p) w = enableWriting updateChannel p w"
| "poller_step has (DisableWriting p) w = disableWriting updateChannel p w"
| "poller_step has (DisableAll p) w = disableAll updateChannel p w"
| "poller_step has (Remove p) w = remove_channel removeChannel p w"
| "poller_step has (Delete b p) w = Channel_dtor b (\<lambda>p w. Some (has p w)) p w"
| "poller_step has (Poll r now) w = do { (now, active, w) \<leftarrow> poll r now [] w; Some w }"

definition can_update :: "ptr \<Rightarrow> ('cb, 'z) poll_world_scheme \<Rightarrow> bool" where
  "can_update p w \<longleftrightarrow> chans w p \<noteq> None \<and> fd_owner p w"

text \<open>What the owners of channels have to keep to: one registered channel per descriptor, \<open>remove\<close>
  after \<open>disableAll\<close>, and destruction after \<open>remove\<close>.\<close>

fun chan_op_ok :: "(ptr \<Rightarrow> 'cb poll_world \<Rightarrow> bool) \<Rightarrow> chan_op \<Rightarrow> 'cb poll_world \<Rightarrow> bool" where
  "chan_op_ok has (New p loop f) w = (chans w p = None)"
| "chan_op_ok has (EnableReading p) w = can_update p w"
| "chan_op_ok has (DisableReading p) w = can_update p w"
| "chan_op_ok has (EnableWriting p) w = can_update p w"
| "chan_op_ok has (DisableWriting p) w = can_update p w"
| "chan_op_ok has (DisableAll p) w = can_update p w"
| "chan_op_ok has (Remove p) w = (\<exists>c. chans w p = Some c \<and> addedToLoop c \<and> isNoneEvent c)"
| "chan_op_ok has (Delete b p) w = (\<exists>c. chans w p = Some c \<and> \<not> addedToLoop c \<and> \<not> eventHandling c
     \<and> has p w = (channels w (fd c) = Some p))"
| "chan_op_ok has (Poll r now) w = epoll_wait_ok r w"

lemma poller_update_safe:
  "pinv {} w \<Longrightarrow> can_update p w \<Longrightarrow> \<exists>w'. set_events updateChannel f p w = Some w' \<and> pinv {} w'"
  using poller.set_events_ok unfolding can_update_def by blast

interpretation poller: safe_machine "poller_step has" "chan_op_ok has" "pinv {}" for has
proof
  fix e and w :: "'a poll_world"
  assume inv: "pinv {} w" and ok: "chan_op_ok has e w"
  show "\<exists>w'. poller_step has e w = Some w' \<and> pinv {} w'"
  proof (cases e)
    case (New p loop f)
    with ok pinv_new [OF inv] show ?thesis by simp
  next
    case (Remove p)
    with ok poller.remove_ok [OF inv] show ?thesis by auto
  next
    case (Delete b p)
    with ok obtain c where c: "chans w p = Some c" "\<not> addedToLoop c" "\<not> eventHandling c"
        "has p w = (channels w (fd c) = Some p)" by auto
    have "\<not> has p w"
      using pinv_channels_at [OF inv _ c(1)] pinv_chan [OF inv c(1)] c(2,4) by (auto simp: chan_ok_def)
    with poller.dtor_ok [OF inv c(1-3), of "\<lambda>p w. Some (has p w)" b] Delete show ?thesis by simp
  next
    case (Poll r now)
    show ?thesis
    proof (cases r)
      case (Inl e)
      with Poll inv show ?thesis by (simp add: poll_def)
    next
      case (Inr evs)
      with Poll ok have "epoll_wait_ok (Inr evs) w" by simp
      from poll_ok [OF inv this, of now] Poll Inr pinv_revents [OF inv, of evs] show ?thesis by simp
    qed
  qed (use ok poller_update_safe [OF inv] in \<open>simp_all add: set_events_ops\<close>)
qed

lemma pinv_EPollPoller: "pinv {} (EPollPoller n)"
  by (simp add: pinv_def EPollPoller_def)

lemma epoll_update_events_size: "epoll_update op' p w = Some w' \<Longrightarrow> events_size w' = events_size w"
  by (cases "chans w p") (auto simp: epoll_update_def Let_def case_prod_beta)

lemma modify_chan_events_size: "modify_chan p f w = Some w' \<Longrightarrow> events_size w' = events_size w"
  by (auto simp: modify_chan_def bind_eq_Some_conv)

lemma updateChannel_events_size: "updateChannel p w = Some w' \<Longrightarrow> events_size w' = events_size w"
  by (auto simp: updateChannel_def bind_eq_Some_conv split: if_splits
      dest!: epoll_update_events_size modify_chan_events_size)

lemma disableAll_events_size: "disableAll updateChannel p w = Some w' \<Longrightarrow> events_size w' = events_size w"
  by (auto simp: set_events_ops set_events_def bind_eq_Some_conv dest!: updateChannel_events_size)

subsection \<open>Properties\<close>

text \<open>
  C5: What the kernel waits for is what the channels say. After any run of channel operations and
  polls that keeps to the owners' protocol no assertion has failed, every call of \<open>epoll_ctl\<close> has
  succeeded, and the interest list holds exactly the descriptors of the channels whose index is
  \<open>kAdded\<close>, each with the current \<open>events()\<close> and the address of its channel; a channel that is not
  there is interested in nothing.\<close>

theorem epoll_in_sync:
  assumes "run_ok (poller_step has) (chan_op_ok has) es (EPollPoller n)"
  shows "\<exists>w. run (poller_step has) es (EPollPoller n) = Some w \<and> set (ctl_rets w) \<subseteq> {0}
    \<and> (\<forall>f e p. interest w f = Some (e, p)
         \<longleftrightarrow> (\<exists>c. chans w p = Some c \<and> fd c = f \<and> index c = kAdded \<and> events c = e))
    \<and> (\<forall>p c. chans w p = Some c \<and> index c \<noteq> kAdded \<longrightarrow> isNoneEvent c)"
proof -
  obtain w where w: "run (poller_step has) es (EPollPoller n) = Some w" "pinv {} w"
    using poller.run_safe [OF pinv_EPollPoller assms] by blast
  have "(interest w f = Some (e, p)) = (\<exists>c. chans w p = Some c \<and> fd c = f \<and> index c = kAdded \<and> events c = e)" for f e p
    using pinv_interest [OF w(2), of f e p] pinv_chan [OF w(2), of p] by (auto simp: chan_ok_def)
  moreover have "isNoneEvent c" if "chans w p = Some c" "index c \<noteq> kAdded" for p c
    using pinv_chan [OF w(2) that(1)] that(2) by (simp add: chan_ok_def isNoneEvent_def)
  ultimately show ?thesis using w by (auto simp: pinv_def)
qed

theorem epoll_in_sync_witness:
  "\<exists>w. run (poller_step (\<lambda>p w. False)) [New 8 1 5, EnableReading 8, EnableWriting 8] (EPollPoller 16) = Some (w :: unit poll_world)
    \<and> (\<forall>f e p. interest w f = Some (e, p)
         \<longleftrightarrow> (\<exists>c. chans w p = Some c \<and> fd c = f \<and> index c = kAdded \<and> events c = e))"
proof -
  have "run_ok (poller_step (\<lambda>p w. False)) (chan_op_ok (\<lambda>p w. False))
      [New 8 1 5, EnableReading 8, EnableWriting 8] (EPollPoller 16 :: unit poll_world)"
    by (auto simp: EPollPoller_def can_update_def fd_owner_def set_events_ops set_events_def updateChannel_def
        epoll_update_def epoll_ctl_def Channel_def index_defs epoll_op_defs isNoneEvent_def event_defs
        split: if_splits)
  from epoll_in_sync [OF this] show ?thesis by blast
qed

text \<open>
  C6: \<open>poll\<close> makes active exactly the channels that the kernel reported, in its order, each with the
  reported \<open>revents_\<close>; no other channel changes, and the event list doubles when it was full.\<close>

theorem poll_reports:
  assumes "pinv {} w" and "epoll_wait_ok (Inr evs) w"
  shows "\<exists>w'. poll (Inr evs) now [] w = Some (now, map snd evs, w') \<and> pinv {} w'
    \<and> (\<forall>(r, p) \<in> set evs. \<exists>c. chans w p = Some c \<and> chans w' p = Some (c\<lparr>revents := r\<rparr>))
    \<and> (\<forall>p. p \<notin> snd ` set evs \<longrightarrow> chans w' p = chans w p)
    \<and> events_size w' = (if evs \<noteq> [] \<and> length evs = events_size w then 2 * events_size w else events_size w)
    \<and> interest w' = interest w"
proof -
  let ?w' = "w\<lparr>chans := with_revents evs (chans w),
        events_size := (if evs \<noteq> [] \<and> length evs = events_size w then 2 * events_size w else events_size w)\<rparr>"
  have d: "distinct (map fst (map prod.swap evs))"
    using assms(2) by (simp add: epoll_wait_ok_def comp_def)
  have "\<exists>c. chans w p = Some c \<and> chans ?w' p = Some (c\<lparr>revents := r\<rparr>)" if rp: "(r, p) \<in> set evs" for r p
  proof -
    obtain c where "chans w p = Some c" using epoll_wait_okD [OF assms(2) rp] by blast
    moreover have "map_of (map prod.swap evs) p = Some r"
      using map_of_is_SomeI [OF d, of p r] rp by (force simp: image_iff)
    ultimately show ?thesis by (simp add: with_revents_def)
  qed
  moreover have "chans ?w' p = chans w p" if "p \<notin> snd ` set evs" for p
  proof -
    have "map_of (map prod.swap evs) p = None"
      using that by (force simp: map_of_eq_None_iff)
    then show ?thesis by (simp add: with_revents_def)
  qed
  moreover have "pinv {} ?w'" using pinv_revents [OF assms(1), of evs] by simp
  ultimately show ?thesis
    using poll_ok [OF assms] by (intro exI [of _ ?w']) auto
qed

text \<open>A poller with one channel, at address 8, that reads descriptor 5.\<close>

definition example_poller :: "unit poll_world" where
  "example_poller = \<lparr>chans = [8 \<mapsto> (Channel 1 5)\<lparr>events := kReadEvent, index := kAdded, addedToLoop := True\<rparr>],
     use_count = (\<lambda>p. 0), channels = [5 \<mapsto> 8], interest = [5 \<mapsto> (kReadEvent, 8)], events_size = 1, ctl_rets = [0]\<rparr>"

lemma example_poller_inv: "pinv {} example_poller"
  by (auto simp: pinv_def example_poller_def chan_ok_def Channel_def kNoneEvent_def split: if_splits)

theorem poll_reports_witness:
  "\<exists>w'. poll (Inr [(POLLIN, 8)]) (Timestamp 7) [] example_poller = Some (Timestamp 7, [8], w') \<and> events_size w' = 2"
proof -
  have "epoll_wait_ok (Inr [(POLLIN, 8)]) example_poller"
    by (simp add: epoll_wait_ok_def example_poller_def Channel_def event_defs)
  from poll_reports [OF example_poller_inv this, of "Timestamp 7"]
  show ?thesis by (auto simp: example_poller_def)
qed

text \<open>
  \<open>disableAll\<close> is not idempotent. The first call stops watching the descriptor; a second one
  registers it again, with no events, and the kernel reports \<open>POLLHUP\<close> and \<open>POLLERR\<close> unasked, so the
  channel can become active although it has disabled everything.\<close>

theorem disableAll_twice_watches:
  assumes "pinv {} w" and "chans w p = Some ch" and "fd_owner p w" and "index ch = kAdded" and "0 < events_size w"
  shows "\<exists>w1 w2. disableAll updateChannel p w = Some w1 \<and> watched w1 (fd ch) = None
    \<and> disableAll updateChannel p w1 = Some w2 \<and> interest w2 (fd ch) = Some (kNoneEvent, p)
    \<and> epoll_wait_ok (Inr [(POLLHUP, p)]) w2"
proof -
  have k: "interest w (fd ch) = Some (events ch, p)"
    using pinv_chan [OF assms(1,2)] assms(4) by (simp add: chan_ok_def)
  obtain w1 i where w1: "disableAll updateChannel p w = Some w1" "pinv {} w1"
      "chans w1 = (chans w)(p \<mapsto> ch\<lparr>events := kNoneEvent, addedToLoop := True, index := i\<rparr>)"
      "watched w1 = watch_after (fd ch) kNoneEvent (watched w)"
    using poller.set_events_ok [OF assms(1-3), of "\<lambda>e. kNoneEvent"] by (auto simp: set_events_ops)
  have n1: "watched w1 (fd ch) = None" using k w1(4) by (simp add: watch_after_def watched_def)
  obtain c1 where c1: "chans w1 p = Some c1" "fd c1 = fd ch" using w1(3) by simp
  have own: "fd_owner p w1" using assms(2,3) w1(3) by (auto simp: fd_owner_def)
  obtain w2 j where w2: "disableAll updateChannel p w1 = Some w2" "pinv {} w2"
      "chans w2 = (chans w1)(p \<mapsto> c1\<lparr>events := kNoneEvent, addedToLoop := True, index := j\<rparr>)"
      "watched w2 = watch_after (fd ch) kNoneEvent (watched w1)"
    using poller.set_events_ok [OF w1(2) c1(1) own, of "\<lambda>e. kNoneEvent"] c1(2) by (auto simp: set_events_ops)
  have "watched w2 (fd ch) = Some kNoneEvent" using n1 w2(4) by (simp add: watch_after_def)
  then obtain q where q: "interest w2 (fd ch) = Some (kNoneEvent, q)" by (auto simp: watched_def)
  have "q = p"
  proof (rule ccontr)
    assume "q \<noteq> p"
    moreover obtain d where d: "chans w2 q = Some d" "fd d = fd ch" "index d = kAdded"
      using pinv_interest [OF w2(2) q] by blast
    moreover have "addedToLoop d" using pinv_chan [OF w2(2) d(1)] d(3) by (simp add: chan_ok_def)
    ultimately show False using assms(2,3) w1(3) w2(3) by (auto simp: fd_owner_def)
  qed
  moreover have "events_size w2 = events_size w"
    using disableAll_events_size w1(1) w2(1) by metis
  ultimately show ?thesis
    using w1(1) w2(1,3) n1 q c1 assms(5) by (auto simp: epoll_wait_ok_def event_defs)
qed

theorem disableAll_twice_watches_witness:
  "\<exists>w1 w2. disableAll updateChannel 8 example_poller = Some w1 \<and> disableAll updateChannel 8 w1 = Some w2
    \<and> epoll_wait_ok (Inr [(POLLHUP, 8)]) w2"
proof -
  have "fd_owner 8 example_poller" by (auto simp: fd_owner_def example_poller_def split: if_splits)
  moreover have "index (the (chans example_poller 8)) = kAdded" "chans example_poller 8 \<noteq> None"
    "0 < events_size example_poller"
    by (simp_all add: example_poller_def)
  ultimately show ?thesis
    using disableAll_twice_watches [OF example_poller_inv, of 8] by auto
qed

end
