(* ===== verification/EventLoops.thy ===== *)
theory EventLoops
  imports Timers Pollers
begin

text \<open>
  \<^verbatim>\<open>EventLoop.h\<close> and \<^verbatim>\<open>EventLoop.c\<close>: the loop with its poller (whose state it extends), its timer
  queue, its list of pending functors and its wakeup descriptor. \<open>in_loop\<close> says whether the caller is
  the loop's thread (\<open>isInLoopThread()\<close>). A functor is one of the two that the timer queue binds, or a
  user's callback. The second half is the loop as it runs beside other threads: a step relation whose
  steps are the critical sections of the code, and the proofs that no functor and no wakeup is lost.
\<close>

subsection \<open>The class\<close>

datatype 'cb pending_functor =
    AddTimerInLoop ptr
  | CancelInLoop timer_id
  | Functor 'cb

record 'cb loop_world = "'cb poll_world" +
  this :: ptr
  looping :: bool
  quit_flag :: bool
  handlingEvents :: bool
  callingPendingFunctors :: bool
  iteration :: int
  pollReturnTime :: timestamp
  timerQueue :: "'cb timer_queue"
  eventfd :: nat
  currentActiveChannel :: "ptr option"
  activeChannels :: "ptr list"
  pendingFunctors :: "'cb pending_functor list"

definition assertInLoopThread :: "bool \<Rightarrow> ('cb, 'z) loop_world_scheme \<Rightarrow> ('cb, 'z) loop_world_scheme option" where
  "assertInLoopThread in_loop w = Some w"

text \<open>An eventfd holds at most \<open>2 ^ 64 - 2\<close>; a write beyond that fails with \<open>EAGAIN\<close>.\<close>

definition wakeup :: "('cb, 'z) loop_world_scheme \<Rightarrow> ('cb, 'z) loop_world_scheme" where
  "wakeup w = w\<lparr>eventfd := (if eventfd w < 2 ^ 64 - 2 then eventfd w + 1 else eventfd w)\<rparr>"

definition wakeup_read :: "('cb, 'z) loop_world_scheme \<Rightarrow> ('cb, 'z) loop_world_scheme" where
  "wakeup_read w = w\<lparr>eventfd := 0\<rparr>"

definition quit :: "bool \<Rightarrow> ('cb, 'z) loop_world_scheme \<Rightarrow> ('cb, 'z) loop_world_scheme" where
  "quit in_loop w = (let w = w\<lparr>quit_flag := True\<rparr> in if \<not> in_loop then wakeup w else w)"

subsection \<open>Functors\<close>

definition push_functor :: "'cb pending_functor \<Rightarrow> ('cb, 'z) loop_world_scheme \<Rightarrow> ('cb, 'z) loop_world_scheme" where
  "push_functor cb w = w\<lparr>pendingFunctors := pendingFunctors w @ [cb]\<rparr>"

definition queueInLoop :: "bool \<Rightarrow> 'cb pending_functor \<Rightarrow> ('cb, 'z) loop_world_scheme \<Rightarrow> ('cb, 'z) loop_world_scheme" where
  "queueInLoop in_loop cb w =
     (let w = push_functor cb w
      in if \<not> in_loop \<or> callingPendingFunctors w then wakeup w else w)"

definition queueSize :: "('cb, 'z) loop_world_scheme \<Rightarrow> nat" where
  "queueSize w = length (pendingFunctors w)"

text \<open>Calling a functor; \<open>clock\<close> is the reading of the clock if it adds a timer.\<close>

fun call_functor :: "('cb \<Rightarrow> ('cb, 'z) loop_world_scheme \<Rightarrow> ('cb, 'z) loop_world_scheme option)
    \<Rightarrow> timestamp \<Rightarrow> 'cb pending_functor \<Rightarrow> ('cb, 'z) loop_world_scheme \<Rightarrow> ('cb, 'z) loop_world_scheme option" where
  "call_functor run_cb clock (AddTimerInLoop p) w =
     do { q \<leftarrow> addTimerInLoop p clock (timerQueue w); Some (w\<lparr>timerQueue := q\<rparr>) }"
| "call_functor run_cb clock (CancelInLoop tid) w =
     do { q \<leftarrow> cancelInLoop tid (timerQueue w); Some (w\<lparr>timerQueue := q\<rparr>) }"
| "call_functor run_cb clock (Functor cb) w = run_cb cb w"

definition runInLoop :: "('cb \<Rightarrow> ('cb, 'z) loop_world_scheme \<Rightarrow> ('cb, 'z) loop_world_scheme option)
    \<Rightarrow> bool \<Rightarrow> timestamp \<Rightarrow> 'cb pending_functor \<Rightarrow> ('cb, 'z) loop_world_scheme \<Rightarrow> ('cb, 'z) loop_world_scheme option" where
  "runInLoop run_cb in_loop clock cb w =
     (if in_loop then call_functor run_cb clock cb w else Some (queueInLoop in_loop cb w))"

text \<open>The critical section of \<open>doPendingFunctors\<close>, and its loop.\<close>

definition swap_functors :: "('cb, 'z) loop_world_scheme \<Rightarrow> 'cb pending_functor list \<times> ('cb, 'z) loop_world_scheme" where
  "swap_functors w = (pendingFunctors w, w\<lparr>callingPendingFunctors := True, pendingFunctors := []\<rparr>)"

fun call_functors :: "('cb \<Rightarrow> ('cb, 'z) loop_world_scheme \<Rightarrow> ('cb, 'z) loop_world_scheme option)
    \<Rightarrow> (nat \<Rightarrow> timestamp) \<Rightarrow> nat \<Rightarrow> 'cb pending_functor list \<Rightarrow> ('cb, 'z) loop_world_scheme
    \<Rightarrow> ('cb, 'z) loop_world_scheme option" where
  "call_functors run_cb clocks i [] w = Some w"
| "call_functors run_cb clocks i (f # fs) w =
     do { w \<leftarrow> call_functor run_cb (clocks i) f w; call_functors run_cb clocks (Suc i) fs w }"

definition doPendingFunctors :: "('cb \<Rightarrow> ('cb, 'z) loop_world_scheme \<Rightarrow> ('cb, 'z) loop_world_scheme option)
    \<Rightarrow> (nat \<Rightarrow> timestamp) \<Rightarrow> ('cb, 'z) loop_world_scheme \<Rightarrow> ('cb, 'z) loop_world_scheme option" where
  "doPendingFunctors run_cb clocks w =
     do { let (functors, w) = swap_functors w;
          w \<leftarrow> call_functors run_cb clocks 0 functors w;
          Some (w\<lparr>callingPendingFunctors := False\<rparr>) }"

subsection \<open>Timers\<close>

definition addTimer :: "('cb \<Rightarrow> ('cb, 'z) loop_world_scheme \<Rightarrow> ('cb, 'z) loop_world_scheme option)
    \<Rightarrow> bool \<Rightarrow> timestamp \<Rightarrow> ptr \<Rightarrow> 'cb \<Rightarrow> timestamp \<Rightarrow> double \<Rightarrow> ('cb, 'z) loop_world_scheme
    \<Rightarrow> (('cb, 'z) loop_world_scheme \<times> timer_id) option" where
  "addTimer run_cb in_loop clock p cb when interval' w =
     do { let (q, tid) = new_Timer p cb when interval' (timerQueue w);
          w \<leftarrow> runInLoop run_cb in_loop clock (AddTimerInLoop p) (w\<lparr>timerQueue := q\<rparr>);
          Some (w, tid) }"

definition runAt :: "('cb \<Rightarrow> ('cb, 'z) loop_world_scheme \<Rightarrow> ('cb, 'z) loop_world_scheme option)
    \<Rightarrow> bool \<Rightarrow> timestamp \<Rightarrow> ptr \<Rightarrow> timestamp \<Rightarrow> 'cb \<Rightarrow> ('cb, 'z) loop_world_scheme
    \<Rightarrow> (('cb, 'z) loop_world_scheme \<times> timer_id) option" where
  "runAt run_cb in_loop clock p time cb w = addTimer run_cb in_loop clock p cb time 0 w"

definition runAfter :: "('cb \<Rightarrow> ('cb, 'z) loop_world_scheme \<Rightarrow> ('cb, 'z) loop_world_scheme option)
    \<Rightarrow> bool \<Rightarrow> timestamp \<Rightarrow> timestamp \<Rightarrow> ptr \<Rightarrow> double \<Rightarrow> 'cb \<Rightarrow> ('cb, 'z) loop_world_scheme
    \<Rightarrow> (('cb, 'z) loop_world_scheme \<times> timer_id) option" where
  "runAfter run_cb in_loop now clock p delay cb w =
     do { time \<leftarrow> addTime now delay; runAt run_cb in_loop clock p time cb w }"

definition runEvery :: "('cb \<Rightarrow> ('cb, 'z) loop_world_scheme \<Rightarrow> ('cb, 'z) loop_world_scheme option)
    \<Rightarrow> bool \<Rightarrow> timestamp \<Rightarrow> timestamp \<Rightarrow> ptr \<Rightarrow> double \<Rightarrow> 'cb \<Rightarrow> ('cb, 'z) loop_world_scheme
    \<Rightarrow> (('cb, 'z) loop_world_scheme \<times> timer_id) option" where
  "runEvery run_cb in_loop now clock p interval' cb w =
     do { time \<leftarrow> addTime now interval'; addTimer run_cb in_loop clock p cb time interval' w }"

definition cancel :: "('cb \<Rightarrow> ('cb, 'z) loop_world_scheme \<Rightarrow> ('cb, 'z) loop_world_scheme option)
    \<Rightarrow> bool \<Rightarrow> timer_id \<Rightarrow> ('cb, 'z) loop_world_scheme \<Rightarrow> ('cb, 'z) loop_world_scheme option" where
  "cancel run_cb in_loop tid w = runInLoop run_cb in_loop (Timestamp 0) (CancelInLoop tid) w"

subsection \<open>Channels\<close>

definition updateChannel :: "ptr \<Rightarrow> ('cb, 'z) loop_world_scheme \<Rightarrow> ('cb, 'z) loop_world_scheme option" where
  "updateChannel p w =
     do { channel \<leftarrow> chans w p;
          chk (ownerLoop channel = this w);
          w \<leftarrow> assertInLoopThread True w;
          Pollers.updateChannel p w }"

definition removeChannel :: "ptr \<Rightarrow> ('cb, 'z) loop_world_scheme \<Rightarrow> ('cb, 'z) loop_world_scheme option" where
  "removeChannel p w =
     do { channel \<leftarrow> chans w p;
          chk (ownerLoop channel = this w);
          w \<leftarrow> assertInLoopThread True w;
          chk (handlingEvents w \<longrightarrow> currentActiveChannel w = Some p \<or> p \<notin> set (activeChannels w));
          Pollers.removeChannel p w }"

definition hasChannel :: "(ptr \<Rightarrow> ('cb, 'z) loop_world_scheme \<Rightarrow> bool)
    \<Rightarrow> ptr \<Rightarrow> ('cb, 'z) loop_world_scheme \<Rightarrow> bool option" where
  "hasChannel poller_has p w =
     do { channel \<leftarrow> chans w p;
          chk (ownerLoop channel = this w);
          w \<leftarrow> assertInLoopThread True w;
          Some (poller_has p w) }"

subsection \<open>The loop\<close>

text \<open>The \<open>for\<close> loop over \<open>activeChannels_\<close>.\<close>

fun handle_active :: "('cb \<Rightarrow> timestamp \<Rightarrow> ('cb, 'z) loop_world_scheme \<Rightarrow> ('cb, 'z) loop_world_scheme option)
    \<Rightarrow> (ptr \<Rightarrow> ('cb, 'z) loop_world_scheme \<Rightarrow> ('cb, 'z) loop_world_scheme option)
    \<Rightarrow> ptr list \<Rightarrow> ('cb, 'z) loop_world_scheme \<Rightarrow> ('cb, 'z) loop_world_scheme option" where
  "handle_active run_ev destroy [] w = Some w"
| "handle_active run_ev destroy (p # ps) w =
     do { let w = w\<lparr>currentActiveChannel := Some p\<rparr>;
          w \<leftarrow> handleEvent run_ev destroy (pollReturnTime w) p w;
          handle_active run_ev destroy ps w }"

text \<open>One turn of the \<open>while\<close> loop, given what the kernel and the clock return in it.\<close>

record turn =
  wait_result :: "errno + (32 word \<times> ptr) list"
  poll_now :: timestamp
  clocks :: "nat \<Rightarrow> timestamp"

definition loop_turn :: "('cb \<Rightarrow> timestamp \<Rightarrow> ('cb, 'z) loop_world_scheme \<Rightarrow> ('cb, 'z) loop_world_scheme option)
    \<Rightarrow> ('cb \<Rightarrow> ('cb, 'z) loop_world_scheme \<Rightarrow> ('cb, 'z) loop_world_scheme option)
    \<Rightarrow> (ptr \<Rightarrow> ('cb, 'z) loop_world_scheme \<Rightarrow> ('cb, 'z) loop_world_scheme option)
    \<Rightarrow> turn \<Rightarrow> ('cb, 'z) loop_world_scheme \<Rightarrow> ('cb, 'z) loop_world_scheme option" where
  "loop_turn run_ev run_cb destroy i w =
     do { (t, active, w) \<leftarrow> poll (wait_result i) (poll_now i) [] (w\<lparr>activeChannels := []\<rparr>);
          let w = w\<lparr>activeChannels := active, pollReturnTime := t, iteration := iteration w + 1,
                    handlingEvents := True\<rparr>;
          w \<leftarrow> handle_active run_ev destroy (activeChannels w) w;
          let w = w\<lparr>currentActiveChannel := None, handlingEvents := False\<rparr>;
          doPendingFunctors run_cb (clocks i) w }"

text \<open>The second component tells whether \<open>loop\<close> has returned; if not, it waits for its next input.\<close>

fun loop_while :: "(turn \<Rightarrow> ('cb, 'z) loop_world_scheme \<Rightarrow> ('cb, 'z) loop_world_scheme option)
    \<Rightarrow> turn list \<Rightarrow> ('cb, 'z) loop_world_scheme \<Rightarrow> (('cb, 'z) loop_world_scheme \<times> bool) option" where
  "loop_while body [] w = Some (w, quit_flag w)"
| "loop_while body (i # is) w =
     (if quit_flag w then Some (w, True) else do { w \<leftarrow> body i w; loop_while body is w })"

definition loop :: "(turn \<Rightarrow> ('cb, 'z) loop_world_scheme \<Rightarrow> ('cb, 'z) loop_world_scheme option)
    \<Rightarrow> turn list \<Rightarrow> ('cb, 'z) loop_world_scheme \<Rightarrow> (('cb, 'z) loop_world_scheme \<times> bool) option" where
  "loop body is w =
     do { chk (\<not> looping w);
          w \<leftarrow> assertInLoopThread True w;
          let w = w\<lparr>looping := True, quit_flag := False\<rparr>;
          (w, returned) \<leftarrow> loop_while body is w;
          Some (if returned then w\<lparr>looping := False\<rparr> else w, returned) }"

text \<open>What \<open>printActiveChannels\<close> prints.\<close>

definition printActiveChannels :: "('cb, 'z) loop_world_scheme \<Rightarrow> string option" where
  "printActiveChannels w =
     map_option concat (those (map (\<lambda>p. do { ch \<leftarrow> chans w p; Some (''channel info is '' @ reventsToString ch) })
       (activeChannels w)))"

subsection \<open>The loop hosts its channels\<close>

definition linv :: "ptr set \<Rightarrow> ('cb, 'z) loop_world_scheme \<Rightarrow> bool" where
  "linv S w \<longleftrightarrow> pinv S w \<and> (\<forall>p c. chans w p = Some c \<longrightarrow> ownerLoop c = this w)"

definition removable :: "ptr \<Rightarrow> ('cb, 'z) loop_world_scheme \<Rightarrow> bool" where
  "removable p w \<longleftrightarrow> (handlingEvents w \<longrightarrow> currentActiveChannel w = Some p \<or> p \<notin> set (activeChannels w))"

lemma poller_frame:
  "epoll_update op' p w = Some w' \<Longrightarrow> this w' = this w"
  "modify_chan p f w = Some w' \<Longrightarrow> this w' = this w"
  "Pollers.updateChannel p w = Some w' \<Longrightarrow> this w' = this w"
  "Pollers.removeChannel p w = Some w' \<Longrightarrow> this w' = this w"
proof -
  show e: "this w' = this w" if "epoll_update op' p w = Some w'" for op' w w'
    using that by (cases "chans w p") (auto simp: epoll_update_def Let_def case_prod_beta)
  show m: "this w' = this w" if "modify_chan p f w = Some w'" for f w w'
    using that by (auto simp: modify_chan_def bind_eq_Some_conv)
  show "Pollers.updateChannel p w = Some w' \<Longrightarrow> this w' = this w"
    by (auto simp: Pollers.updateChannel_def bind_eq_Some_conv split: if_splits dest!: e m)
  show "Pollers.removeChannel p w = Some w' \<Longrightarrow> this w' = this w"
    by (auto simp: Pollers.removeChannel_def bind_eq_Some_conv split: if_splits dest!: e m)
qed

interpretation loop: channel_host updateChannel removeChannel linv watched removable
proof (unfold_locales, goal_cases)
  case (1 w p ch e)
  then show ?case
    using pinv_changed [of w p ch e] by (auto simp: linv_def)
next
  case (2 w cs)
  show ?case by (simp add: watched_def fun_eq_iff)
next
  case (3 p w ch)
  then have inv: "pinv {p} w" and own: "ownerLoop ch = this w" by (auto simp: linv_def)
  from updateChannel_ok [OF inv 3(2)] obtain w' i where
    w': "Pollers.updateChannel p w = Some w'" "pinv {} w'" "chans w' = (chans w)(p \<mapsto> ch\<lparr>index := i\<rparr>)"
    "watched w' = watch_after (fd ch) (events ch) (watched w)" by blast
  have "linv {} w'" using 3 w' own poller_frame(3) [OF w'(1)] by (auto simp: linv_def)
  with w' 3(2) own show ?case by (auto simp: updateChannel_def assertInLoopThread_def)
next
  case (4 w p ch)
  then have inv: "pinv {} w" and own: "ownerLoop ch = this w" by (auto simp: linv_def)
  let ?w = "w\<lparr>chans := (chans w)(p \<mapsto> ch\<lparr>addedToLoop := False\<rparr>)\<rparr>"
  from removeChannel_ok [OF inv 4(2-4)] obtain w' i where
    w': "Pollers.removeChannel p ?w = Some w'" "pinv {} w'"
    "chans w' = (chans w)(p \<mapsto> ch\<lparr>addedToLoop := False, index := i\<rparr>)"
    "watched w' = (watched w)(fd ch := None)" by blast
  have "linv {} w'" using 4(1) w' own poller_frame(4) [OF w'(1)] by (auto simp: linv_def)
  with w' 4(5) own show ?case
    by (auto simp: removeChannel_def assertInLoopThread_def removable_def)
next
  case (5 w p ch)
  then show ?case
    using pinv_deleted [of w p ch] by (auto simp: linv_def)
qed

lemma linv_cong:
  fixes w w' :: "('cb, 'z) loop_world_scheme"
  assumes "chans w' = chans w" "channels w' = channels w" "interest w' = interest w" "ctl_rets w' = ctl_rets w"
    "this w' = this w"
  shows "linv S w' = linv S w"
  using assms by (simp add: linv_def pinv_def dirty_ok_def chan_ok_def fd_owner_def)

lemma fd_owner_cong: "chans w' = chans w \<Longrightarrow> fd_owner p w' = fd_owner p w"
  by (simp add: fd_owner_def)

lemma linv_new_channel:
  assumes inv: "linv {} w" and free: "chans w p = None"
    and d: "fd d = f" "events d = 0" "index d = kNew" "\<not> addedToLoop d" "ownerLoop d = this w"
  shows "linv {} (w\<lparr>chans := (chans w)(p \<mapsto> d)\<rparr>)"
proof -
  let ?v = "w\<lparr>chans := (chans w)(p \<mapsto> Channel (this w) f)\<rparr>"
  have "pinv {} ?v" using inv free pinv_new by (auto simp: linv_def)
  from pinv_touch [OF this, of p "Channel (this w) f" d]
  have "pinv {} (w\<lparr>chans := (chans w)(p \<mapsto> d)\<rparr>)"
    using d by (simp add: Channel_def index_defs)
  with inv d(5) show ?thesis by (auto simp: linv_def)
qed

text \<open>Changes of a channel that the poller does not see.\<close>

lemma linv_touch:
  assumes inv: "linv {} w" and ch: "chans w p = Some ch"
    and same: "fd d = fd ch" "events d = events ch" "index d = index ch" "addedToLoop d = addedToLoop ch"
      "ownerLoop d = ownerLoop ch"
  shows "linv {} (w\<lparr>chans := (chans w)(p \<mapsto> d)\<rparr>)"
  using inv pinv_touch [OF _ ch same(1-4)] same(5) ch by (auto simp: linv_def)

lemma fd_owner_update:
  "fd_owner p w \<Longrightarrow> chans w p = Some c \<Longrightarrow> chans w' = (chans w)(p \<mapsto> c') \<Longrightarrow> fd c' = fd c \<Longrightarrow> fd_owner p w'"
  by (auto simp: fd_owner_def)

text \<open>An update of a channel changes only the poller's part of the state.\<close>

definition poller_update :: "('cb, 'z) loop_world_scheme \<Rightarrow> ('cb, 'z) loop_world_scheme \<Rightarrow> bool" where
  "poller_update w w' \<longleftrightarrow>
     w'\<lparr>chans := chans w, channels := channels w, interest := interest w, ctl_rets := ctl_rets w\<rparr> = w"

lemma poller_update_frame_loop:
  assumes "poller_update w w'"
  shows "handlingEvents w' = handlingEvents w" "timerQueue w' = timerQueue w" "this w' = this w"
    "pendingFunctors w' = pendingFunctors w" "currentActiveChannel w' = currentActiveChannel w"
    "activeChannels w' = activeChannels w" "use_count w' = use_count w"
proof -
  have w: "w = w'\<lparr>chans := chans w, channels := channels w, interest := interest w, ctl_rets := ctl_rets w\<rparr>"
    using assms by (simp add: poller_update_def)
  show "handlingEvents w' = handlingEvents w" "timerQueue w' = timerQueue w" "this w' = this w"
    "pendingFunctors w' = pendingFunctors w" "currentActiveChannel w' = currentActiveChannel w"
    "activeChannels w' = activeChannels w" "use_count w' = use_count w"
    by (subst w, simp)+
qed

lemma poller_update_trans:
  assumes "poller_update u v" and "poller_update v w"
  shows "poller_update u w"
proof -
  have "w\<lparr>chans := chans u, channels := channels u, interest := interest u, ctl_rets := ctl_rets u\<rparr>
      = w\<lparr>chans := chans v, channels := channels v, interest := interest v, ctl_rets := ctl_rets v\<rparr>
         \<lparr>chans := chans u, channels := channels u, interest := interest u, ctl_rets := ctl_rets u\<rparr>"
    by simp
  with assms show ?thesis unfolding poller_update_def by metis
qed

lemma poller_update_ops [simp]:
  "poller_update w (w\<lparr>chans := cs\<rparr>)" "poller_update w (w\<lparr>channels := chs\<rparr>)"
  "poller_update w (w\<lparr>chans := cs, channels := chs\<rparr>)" "poller_update w (w\<lparr>channels := chs, chans := cs\<rparr>)"
  "poller_update w (w\<lparr>interest := k, ctl_rets := r\<rparr>)"
  by (simp_all add: poller_update_def)

lemma poller_update_epoll: "epoll_update op' p w = Some w' \<Longrightarrow> poller_update w w'"
  by (cases "chans w p") (auto simp: epoll_update_def Let_def case_prod_beta)

lemma poller_update_modify: "modify_chan p f w = Some w' \<Longrightarrow> poller_update w w'"
  by (auto simp: modify_chan_def bind_eq_Some_conv)

lemma poller_update_update: "updateChannel p w = Some w' \<Longrightarrow> poller_update w w'"
  by (auto simp: updateChannel_def Pollers.updateChannel_def assertInLoopThread_def bind_eq_Some_conv
      split: if_splits dest!: poller_update_epoll poller_update_modify
      elim: poller_update_trans [rotated])

lemma poller_update_remove: "removeChannel p w = Some w' \<Longrightarrow> poller_update w w'"
  by (auto simp: removeChannel_def Pollers.removeChannel_def assertInLoopThread_def bind_eq_Some_conv Let_def
      split: if_splits dest!: poller_update_epoll poller_update_modify
      elim: poller_update_trans [rotated])
    (blast intro: poller_update_trans poller_update_ops(2))+

lemma poller_update_set_events: "set_events updateChannel f p w = Some w' \<Longrightarrow> poller_update w w'"
  by (auto simp: set_events_def bind_eq_Some_conv dest!: poller_update_update
      elim: poller_update_trans [rotated])

subsection \<open>The loop beside other threads\<close>

text \<open>
  Where the loop's thread is: outside \<open>loop\<close>, at the test of \<open>quit_\<close>, in \<open>poll\<close>, handling events, or
  calling the functors it has swapped out. The other threads' calls of \<open>queueInLoop\<close> and \<open>quit\<close> have
  two steps each, the second of which is the \<open>write\<close> of \<open>wakeup\<close>; \<open>in_flight\<close> counts the threads
  between the two. What callbacks and functors do to the queue are the steps \<open>post_in_loop\<close> and
  \<open>quit_in_loop\<close>, and a functor of the timer queue may change it in any way. \<open>posted\<close> and \<open>executed\<close> record the functors in order.
\<close>

datatype 'cb phase = Idle | Checking | Polling | Handling | Running "'cb pending_functor list"

record 'cb config =
  lw :: "'cb loop_world"
  phase :: "'cb phase"
  in_flight :: nat
  posted :: "'cb pending_functor list"
  executed :: "'cb pending_functor list"

fun calls_out :: "'cb phase \<Rightarrow> bool" where
  "calls_out Handling = True"
| "calls_out (Running fs) = True"
| "calls_out _ = False"

text \<open>\<open>early\<close> allows the loop's thread to queue functors before it calls \<open>loop\<close>.\<close>

inductive loop_step :: "bool \<Rightarrow> 'cb config \<Rightarrow> 'cb config \<Rightarrow> bool" for early :: bool where
  start: "phase c = Idle \<Longrightarrow>
    loop_step early c (c\<lparr>lw := (lw c)\<lparr>looping := True, quit_flag := False\<rparr>, phase := Checking\<rparr>)"
| check_go: "phase c = Checking \<Longrightarrow> \<not> quit_flag (lw c) \<Longrightarrow> loop_step early c (c\<lparr>phase := Polling\<rparr>)"
| check_quit: "phase c = Checking \<Longrightarrow> quit_flag (lw c) \<Longrightarrow>
    loop_step early c (c\<lparr>lw := (lw c)\<lparr>looping := False\<rparr>, phase := Idle\<rparr>)"
| poll_returns: "phase c = Polling \<Longrightarrow> loop_step early c (c\<lparr>phase := Handling\<rparr>)"
| read_wakeup: "phase c = Handling \<Longrightarrow> loop_step early c (c\<lparr>lw := wakeup_read (lw c)\<rparr>)"
| post_in_loop: "calls_out (phase c) \<or> early \<and> phase c = Idle \<Longrightarrow>
    loop_step early c (c\<lparr>lw := queueInLoop True f (lw c), posted := posted c @ [f]\<rparr>)"
| quit_in_loop: "calls_out (phase c) \<Longrightarrow> loop_step early c (c\<lparr>lw := quit True (lw c)\<rparr>)"
| swap: "phase c = Handling \<Longrightarrow> swap_functors (lw c) = (fs, w) \<Longrightarrow>
    loop_step early c (c\<lparr>lw := w, phase := Running fs\<rparr>)"
| call: "phase c = Running (f # fs) \<Longrightarrow>
    loop_step early c (c\<lparr>lw := (lw c)\<lparr>timerQueue := q\<rparr>, phase := Running fs, executed := executed c @ [f]\<rparr>)"
| turn_ends: "phase c = Running [] \<Longrightarrow>
    loop_step early c (c\<lparr>lw := (lw c)\<lparr>callingPendingFunctors := False\<rparr>, phase := Checking\<rparr>)"
| push: "loop_step early c (c\<lparr>lw := push_functor f (lw c), in_flight := in_flight c + 1, posted := posted c @ [f]\<rparr>)"
| set_quit: "loop_step early c (c\<lparr>lw := (lw c)\<lparr>quit_flag := True\<rparr>, in_flight := in_flight c + 1\<rparr>)"
| do_write: "0 < in_flight c \<Longrightarrow> loop_step early c (c\<lparr>lw := wakeup (lw c), in_flight := in_flight c - 1\<rparr>)"

definition initial :: "'cb config \<Rightarrow> bool" where
  "initial c \<longleftrightarrow> phase c = Idle \<and> \<not> looping (lw c) \<and> \<not> callingPendingFunctors (lw c)
     \<and> pendingFunctors (lw c) = [] \<and> posted c = [] \<and> executed c = []"

fun running :: "'cb phase \<Rightarrow> 'cb pending_functor list" where
  "running (Running fs) = fs"
| "running _ = []"

definition fifo_inv :: "'cb config \<Rightarrow> bool" where
  "fifo_inv c \<longleftrightarrow> executed c @ running (phase c) @ pendingFunctors (lw c) = posted c"

definition woken :: "'cb config \<Rightarrow> bool" where
  "woken c \<longleftrightarrow> 0 < eventfd (lw c) \<or> 0 < in_flight c"

definition wake_inv :: "'cb config \<Rightarrow> bool" where
  "wake_inv c \<longleftrightarrow> (callingPendingFunctors (lw c) \<longleftrightarrow> (\<exists>fs. phase c = Running fs))
     \<and> (phase c \<noteq> Handling \<longrightarrow> pendingFunctors (lw c) \<noteq> [] \<longrightarrow> woken c)
     \<and> (phase c = Polling \<longrightarrow> quit_flag (lw c) \<longrightarrow> woken c)"

lemmas queue_defs = queueInLoop_def push_functor_def wakeup_def wakeup_read_def swap_functors_def
  quit_def Let_def

lemma calls_out_iff: "calls_out ph = (ph = Handling \<or> (\<exists>fs. ph = Running fs))"
  by (cases ph) auto

interpretation fifo: step_invariant "loop_step early" initial fifo_inv for early
proof
  show "initial c \<Longrightarrow> fifo_inv c" for c :: "'a config" by (simp add: initial_def fifo_inv_def)
  show "fifo_inv d" if "fifo_inv c" "loop_step early c d" for c d :: "'a config"
    using that(2,1) by cases (auto simp: fifo_inv_def queue_defs)
qed

interpretation wake: step_invariant "loop_step False" initial wake_inv
proof
  show "initial c \<Longrightarrow> wake_inv c" for c :: "'a config" by (simp add: initial_def wake_inv_def)
  show "wake_inv d" if "wake_inv c" "loop_step False c d" for c d :: "'a config"
    using that(2,1) by cases (auto simp: wake_inv_def woken_def queue_defs calls_out_iff)
qed

subsection \<open>The code's loop as such steps\<close>

text \<open>Callbacks that queue functors, in order.\<close>

definition posts :: "('cb \<Rightarrow> 'cb pending_functor list) \<Rightarrow> 'cb \<Rightarrow> 'cb loop_world \<Rightarrow> 'cb loop_world option" where
  "posts script cb w = Some (fold (queueInLoop True) (script cb) w)"

lemma post_steps:
  "calls_out (phase c) \<Longrightarrow>
   (loop_step e)\<^sup>*\<^sup>* c (c\<lparr>lw := fold (queueInLoop True) fs (lw c), posted := posted c @ fs\<rparr>)"
proof (induction fs arbitrary: c)
  case (Cons f fs)
  let ?d = "c\<lparr>lw := queueInLoop True f (lw c), posted := posted c @ [f]\<rparr>"
  have "loop_step e c ?d" using Cons.prems by (intro loop_step.post_in_loop) simp
  also have "(loop_step e)\<^sup>*\<^sup>* ?d (?d\<lparr>lw := fold (queueInLoop True) fs (lw ?d), posted := posted ?d @ fs\<rparr>)"
    by (rule Cons.IH) (simp add: Cons.prems)
  finally show ?case by simp
qed simp

lemma call_step:
  assumes "phase c = Running (f # fs)" and "call_functor (posts script) clk f (lw c) = Some w'"
  shows "\<exists>ps. (loop_step e)\<^sup>*\<^sup>* c (c\<lparr>lw := w', phase := Running fs, executed := executed c @ [f], posted := posted c @ ps\<rparr>)"
proof -
  have call: "loop_step e c (c\<lparr>lw := (lw c)\<lparr>timerQueue := q\<rparr>, phase := Running fs, executed := executed c @ [f]\<rparr>)" for q
    by (rule loop_step.call [OF assms(1)])
  show ?thesis
  proof (cases f)
    case (Functor cb)
    let ?d = "c\<lparr>lw := (lw c)\<lparr>timerQueue := timerQueue (lw c)\<rparr>, phase := Running fs, executed := executed c @ [f]\<rparr>"
    have "(loop_step e)\<^sup>*\<^sup>* ?d (?d\<lparr>lw := fold (queueInLoop True) (script cb) (lw ?d), posted := posted ?d @ script cb\<rparr>)"
      by (rule post_steps) simp
    with call [of "timerQueue (lw c)"] have "(loop_step e)\<^sup>*\<^sup>* c
        (?d\<lparr>lw := fold (queueInLoop True) (script cb) (lw ?d), posted := posted ?d @ script cb\<rparr>)"
      by (rule converse_rtranclp_into_rtranclp)
    moreover have "?d\<lparr>lw := fold (queueInLoop True) (script cb) (lw ?d), posted := posted ?d @ script cb\<rparr>
        = c\<lparr>lw := w', phase := Running fs, executed := executed c @ [f], posted := posted c @ script cb\<rparr>"
      using assms(2) Functor by (intro config.equality) (simp_all add: posts_def)
    ultimately show ?thesis by (intro exI [of _ "script cb"]) (simp only:)
  next
    case (AddTimerInLoop p)
    with assms(2) obtain q where "w' = (lw c)\<lparr>timerQueue := q\<rparr>" by (auto simp: bind_eq_Some_conv)
    with call [of q] show ?thesis by (intro exI [of _ "[]"] r_into_rtranclp) simp
  next
    case (CancelInLoop tid)
    with assms(2) obtain q where "w' = (lw c)\<lparr>timerQueue := q\<rparr>" by (auto simp: bind_eq_Some_conv)
    with call [of q] show ?thesis by (intro exI [of _ "[]"] r_into_rtranclp) simp
  qed
qed

lemma call_steps:
  assumes "phase c = Running fs" and "call_functors (posts script) clks i fs (lw c) = Some w'"
  shows "\<exists>ps. (loop_step e)\<^sup>*\<^sup>* c (c\<lparr>lw := w', phase := Running [], executed := executed c @ fs, posted := posted c @ ps\<rparr>)"
  using assms
proof (induction fs arbitrary: c i)
  case Nil
  then have "c\<lparr>lw := w', phase := Running [], executed := executed c @ [], posted := posted c @ []\<rparr> = c"
    by (intro config.equality) simp_all
  then show ?case by (intro exI [of _ "[]"]) (simp only: rtranclp.rtrancl_refl)
next
  case (Cons f fs)
  then obtain w1 where w1: "call_functor (posts script) (clks i) f (lw c) = Some w1"
      "call_functors (posts script) clks (Suc i) fs w1 = Some w'"
    by (auto simp: bind_eq_Some_conv)
  obtain ps where ps: "(loop_step e)\<^sup>*\<^sup>* c
      (c\<lparr>lw := w1, phase := Running fs, executed := executed c @ [f], posted := posted c @ ps\<rparr>)"
    using call_step [OF Cons.prems(1) w1(1)] by blast
  let ?d = "c\<lparr>lw := w1, phase := Running fs, executed := executed c @ [f], posted := posted c @ ps\<rparr>"
  obtain qs where "(loop_step e)\<^sup>*\<^sup>* ?d
      (?d\<lparr>lw := w', phase := Running [], executed := executed ?d @ fs, posted := posted ?d @ qs\<rparr>)"
    using Cons.IH [of ?d "Suc i"] w1(2) by auto
  with ps have "(loop_step e)\<^sup>*\<^sup>* c
      (?d\<lparr>lw := w', phase := Running [], executed := executed ?d @ fs, posted := posted ?d @ qs\<rparr>)"
    by (rule rtranclp_trans)
  then show ?case by (intro exI [of _ "ps @ qs"]) simp
qed

subsection \<open>Timers added and cancelled from another thread\<close>

lemma cancel_after_add:
  assumes inv: "tq_inv {} q" and ok: "client_ok (AddTimer p cb when iv clock) q"
    and new: "new_Timer p cb when iv q = (q1, tid)"
  shows "\<exists>q2 q3. addTimerInLoop p clock q1 = Some q2 \<and> cancelInLoop tid q2 = Some q3
    \<and> heap q3 = heap q \<and> tq_inv {} q3"
proof -
  obtain t where t: "heap q1 = (heap q)(p \<mapsto> t)" "tid = TimerId p (sequence t)"
    using new by (auto simp: new_Timer_def split: prod.splits)
  have inv1: "tq_inv {p} q1" using tq_inv_new(1) [OF inv ok new] by simp
  obtain q2 where q2: "addTimerInLoop p clock q1 = Some q2" "tq_inv {} q2" "heap q2 = heap q1"
      "set (timers q2) = insert (expiration t, p) (set (timers q1))"
    using addTimerInLoop_ok [OF inv1, of p t clock] t(1) ok by auto
  have "p \<in> ptrs (timers q2)" using q2(4) by (auto simp: ptrs_def)
  then have act: "(p, sequence t) \<in> set (activeTimers q2)"
    using tq_inv_active_iff [OF q2(2), of p "sequence t"] q2(3) t(1) by auto
  obtain q3 where q3: "cancelInLoop (TimerId p (sequence t)) q2 = Some q3" "tq_inv {} q3"
    using cancelInLoop_step [OF q2(2)] cb_stepD by blast
  have "heap q3 = heap q"
    using cancelInLoop_frees [OF q2(2) act q3(1)] q2(3) t(1) ok by auto
  with q2 q3 t show ?thesis by blast
qed

subsection \<open>Properties\<close>


text \<open>A loop in its initial state.\<close>

definition EventLoop :: "ptr \<Rightarrow> nat \<Rightarrow> 64 word \<Rightarrow> 'cb loop_world" where
  "EventLoop self n s_num = poll_world.extend (EPollPoller n)
     \<lparr>this = self, looping = False, quit_flag = False, handlingEvents = False, callingPendingFunctors = False,
      iteration = 0, pollReturnTime = invalid, timerQueue = TimerQueue s_num, eventfd = 0,
      currentActiveChannel = None, activeChannels = [], pendingFunctors = []\<rparr>"

lemma EventLoop_simps [simp]:
  "\<not> looping (EventLoop self n m)" "\<not> quit_flag (EventLoop self n m)" "\<not> handlingEvents (EventLoop self n m)"
  "timerQueue (EventLoop self n m) = TimerQueue m" "pendingFunctors (EventLoop self n m) = []"
  by (simp_all add: EventLoop_def poll_world.defs EPollPoller_def)

definition new_config :: "'cb config" where
  "new_config = \<lparr>lw = EventLoop 1 16 0, phase = Idle, in_flight = 0, posted = [], executed = []\<rparr>"

lemma initial_new: "initial new_config"
  by (simp add: initial_def new_config_def EventLoop_def poll_world.defs EPollPoller_def)

lemma new_config_simps [simp]:
  "phase new_config = Idle" "in_flight new_config = 0" "posted new_config = []" "executed new_config = []"
  "eventfd (lw new_config) = 0" "\<not> callingPendingFunctors (lw new_config)" "pendingFunctors (lw new_config) = []"
  by (simp_all add: new_config_def EventLoop_def poll_world.defs EPollPoller_def)



text \<open>The loop's thread enters \<open>loop\<close> and then \<open>poll\<close>.\<close>

lemma enter_poll:
  assumes "phase c = Idle"
  shows "(loop_step early)\<^sup>*\<^sup>* c (c\<lparr>lw := (lw c)\<lparr>looping := True, quit_flag := False\<rparr>, phase := Polling\<rparr>)"
proof -
  let ?d = "c\<lparr>lw := (lw c)\<lparr>looping := True, quit_flag := False\<rparr>, phase := Checking\<rparr>"
  have "loop_step early c ?d" by (rule loop_step.start [OF assms])
  moreover have "loop_step early ?d (?d\<lparr>phase := Polling\<rparr>)" by (rule loop_step.check_go) simp_all
  ultimately show ?thesis by (auto intro: converse_rtranclp_into_rtranclp)
qed


text \<open>
  The exception: a functor that the loop's own thread queues before it calls \<open>loop\<close> wakes nobody.
  The loop then waits in \<open>poll\<close> with the functor queued, nothing to read and nobody about to write,
  until something else happens or the ten seconds of \<open>kPollTimeMs\<close> have passed.\<close>

theorem queue_before_loop_not_woken:
  fixes f :: "'cb pending_functor"
  shows "\<exists>d. (loop_step True)\<^sup>*\<^sup>* new_config d \<and> phase d = Polling \<and> pendingFunctors (lw d) = [f]
    \<and> eventfd (lw d) = 0 \<and> in_flight d = 0"
proof -
  let ?c = "(new_config :: 'cb config)\<lparr>lw := queueInLoop True f (lw new_config), posted := posted new_config @ [f]\<rparr>"
  let ?d = "?c\<lparr>lw := (lw ?c)\<lparr>looping := True, quit_flag := False\<rparr>, phase := Polling\<rparr>"
  have "loop_step True new_config ?c" by (rule loop_step.post_in_loop) simp
  moreover have "(loop_step True)\<^sup>*\<^sup>* ?c ?d" by (rule enter_poll) simp
  ultimately have "(loop_step True)\<^sup>*\<^sup>* new_config ?d" by (rule converse_rtranclp_into_rtranclp)
  moreover have "pendingFunctors (lw ?d) = [f]" "eventfd (lw ?d) = 0" "in_flight ?d = 0"
    by (simp_all add: queueInLoop_def push_functor_def Let_def)
  moreover have "phase ?d = Polling" by simp
  ultimately show ?thesis by blast
qed

text \<open>
  \<open>doPendingFunctors\<close> is such an execution: with callbacks that queue functors, it runs exactly
  the functors queued when it starts, in order, and those that they queue stay for the next turn.\<close>

theorem doPendingFunctors_steps:
  assumes "phase c = Handling" and "doPendingFunctors (posts script) clks (lw c) = Some w'"
  shows "\<exists>ps. (loop_step early)\<^sup>*\<^sup>* c
    (c\<lparr>lw := w', phase := Checking, executed := executed c @ pendingFunctors (lw c), posted := posted c @ ps\<rparr>)"
proof -
  let ?fs = "pendingFunctors (lw c)"
  let ?w = "(lw c)\<lparr>callingPendingFunctors := True, pendingFunctors := []\<rparr>"
  let ?d = "c\<lparr>lw := ?w, phase := Running ?fs\<rparr>"
  obtain w1 where w1: "call_functors (posts script) clks 0 ?fs ?w = Some w1"
      "w' = w1\<lparr>callingPendingFunctors := False\<rparr>"
    using assms(2) by (auto simp: doPendingFunctors_def swap_functors_def bind_eq_Some_conv)
  have s1: "loop_step early c ?d"
    by (rule loop_step.swap [OF assms(1)]) (simp add: swap_functors_def)
  obtain ps where s2: "(loop_step early)\<^sup>*\<^sup>* ?d
      (?d\<lparr>lw := w1, phase := Running [], executed := executed ?d @ ?fs, posted := posted ?d @ ps\<rparr>)"
    using call_steps [of ?d ?fs script clks 0 w1 early] w1(1) by auto
  let ?e = "?d\<lparr>lw := w1, phase := Running [], executed := executed ?d @ ?fs, posted := posted ?d @ ps\<rparr>"
  have s3: "loop_step early ?e (?e\<lparr>lw := (lw ?e)\<lparr>callingPendingFunctors := False\<rparr>, phase := Checking\<rparr>)"
    by (rule loop_step.turn_ends) simp
  have eq: "?e\<lparr>lw := (lw ?e)\<lparr>callingPendingFunctors := False\<rparr>, phase := Checking\<rparr>
      = c\<lparr>lw := w', phase := Checking, executed := executed c @ ?fs, posted := posted c @ ps\<rparr>"
    by (intro config.equality) (simp_all add: w1(2))
  have "(loop_step early)\<^sup>*\<^sup>* c (?e\<lparr>lw := (lw ?e)\<lparr>callingPendingFunctors := False\<rparr>, phase := Checking\<rparr>)"
    by (rule converse_rtranclp_into_rtranclp [of "loop_step early", OF s1],
        rule rtranclp.rtrancl_into_rtrancl [of "loop_step early", OF s2 s3])
  then show ?thesis unfolding eq by blast
qed

theorem doPendingFunctors_steps_witness:
  "let c = (new_config :: string config)\<lparr>lw := push_functor (Functor ''a'') (lw new_config), phase := Handling,
             posted := [Functor ''a'']\<rparr>
   in \<exists>w' ps. doPendingFunctors (posts (\<lambda>cb. [])) (\<lambda>i. Timestamp 1) (lw c) = Some w'
      \<and> (loop_step False)\<^sup>*\<^sup>* c (c\<lparr>lw := w', phase := Checking, executed := executed c @ [Functor ''a''],
           posted := posted c @ ps\<rparr>)"
proof -
  let ?c = "(new_config :: string config)\<lparr>lw := push_functor (Functor ''a'') (lw new_config), phase := Handling,
             posted := [Functor ''a'']\<rparr>"
  have p: "pendingFunctors (lw ?c) = [Functor ''a'']"
    by (simp add: push_functor_def)
  obtain w' where w': "doPendingFunctors (posts (\<lambda>cb. [])) (\<lambda>i. Timestamp 1) (lw ?c) = Some w'"
    using p by (auto simp: doPendingFunctors_def swap_functors_def posts_def)
  from doPendingFunctors_steps [OF _ this, of False] p w' show ?thesis
    by (auto simp: Let_def)
qed

text \<open>
  A \<open>quit\<close> that comes before \<open>loop\<close> has been entered is lost: \<open>loop\<close> starts by clearing \<open>quit_\<close>, so
  from the loop's own thread it makes no difference at all, and from another thread it leaves the
  loop waiting for events like any other.\<close>

theorem quit_before_loop_lost:
  assumes "\<not> looping w"
  shows "loop body is (quit True w) = loop body is w
    \<and> loop body [] (quit False w) = Some ((wakeup w)\<lparr>looping := True, quit_flag := False\<rparr>, False)"
  using assms by (simp add: loop_def quit_def wakeup_def assertInLoopThread_def Let_def)

theorem quit_before_loop_lost_witness:
  "loop (\<lambda>i w. None) [] (quit False (EventLoop 1 16 0 :: string loop_world))
     = Some ((wakeup (EventLoop 1 16 0))\<lparr>looping := True, quit_flag := False\<rparr>, False)"
proof -
  have "\<not> looping (EventLoop 1 16 0 :: string loop_world)" by simp
  from quit_before_loop_lost [OF this, of "\<lambda>i w. None" "[]"] show ?thesis by blast
qed

lemma loop_while_stops:
  "run body is w = Some w' \<Longrightarrow> quit_flag w' \<Longrightarrow>
   (\<And>k v. k < length is \<Longrightarrow> run body (take k is) w = Some v \<Longrightarrow> \<not> quit_flag v)
   \<Longrightarrow> loop_while body (is @ js) w = Some (w', True)"
proof (induction "is" arbitrary: w)
  case Nil
  then show ?case by (cases js) auto
next
  case (Cons i "is")
  from Cons.prems(1) obtain v where v: "body i w = Some v" "run body is v = Some w'"
    by (auto simp: bind_eq_Some_conv)
  have "\<not> quit_flag w" using Cons.prems(3) [of 0 w] by simp
  moreover have "loop_while body (is @ js) v = Some (w', True)"
  proof (rule Cons.IH [OF v(2) Cons.prems(2)])
    fix k u assume "k < length is" "run body (take k is) v = Some u"
    with v(1) Cons.prems(3) [of "Suc k" u] show "\<not> quit_flag u" by simp
  qed
  ultimately show ?case using v(1) by simp
qed



text \<open>
  A timer that another thread adds and then cancels never fires: once the loop has run the two
  functors the timer is freed and nothing of it is left in the queue, although the cancellation may
  have been queued before the timer was ever inserted.\<close>

theorem cross_thread_cancel:
  assumes "tq_idle (timerQueue w)" and "pendingFunctors w = []"
    and "client_ok (AddTimer p cb when iv (clks 0)) (timerQueue w)"
  shows "\<exists>w1 tid w2 w3. addTimer rc False clk p cb when iv w = Some (w1, tid) \<and> cancel rc False tid w1 = Some w2
    \<and> doPendingFunctors rc clks w2 = Some w3 \<and> pendingFunctors w3 = []
    \<and> heap (timerQueue w3) = heap (timerQueue w) \<and> tq_inv {} (timerQueue w3)"
proof -
  have inv: "tq_inv {} (timerQueue w)" using assms(1) by (simp add: tq_idle_def)
  obtain q1 tid where q1: "new_Timer p cb when iv (timerQueue w) = (q1, tid)" by fastforce
  from cancel_after_add [OF inv assms(3) q1] obtain q2 q3 where
    q: "addTimerInLoop p (clks 0) q1 = Some q2" "cancelInLoop tid q2 = Some q3"
       "heap q3 = heap (timerQueue w)" "tq_inv {} q3" by blast
  let ?w1 = "queueInLoop False (AddTimerInLoop p) (w\<lparr>timerQueue := q1\<rparr>)"
  let ?w2 = "queueInLoop False (CancelInLoop tid) ?w1"
  have p2: "pendingFunctors ?w2 = [AddTimerInLoop p, CancelInLoop tid]" "timerQueue ?w2 = q1"
    using assms(2) by (simp_all add: queue_defs)
  let ?w3 = "?w2\<lparr>callingPendingFunctors := False, pendingFunctors := [], timerQueue := q3\<rparr>"
  have "doPendingFunctors rc clks ?w2 = Some ?w3"
    using p2 q by (simp add: doPendingFunctors_def swap_functors_def)
  with q q1 show ?thesis
    by (intro exI [of _ ?w1] exI [of _ tid] exI [of _ ?w2] exI [of _ ?w3])
      (simp add: addTimer_def cancel_def runInLoop_def)
qed

theorem cross_thread_cancel_witness:
  "\<exists>w1 tid w2 w3. addTimer (\<lambda>cb w. None) False (Timestamp 1) 16 ''cb'' (Timestamp 9) 0 (EventLoop 1 16 0) = Some (w1, tid)
    \<and> cancel (\<lambda>cb w. None) False tid w1 = Some w2 \<and> doPendingFunctors (\<lambda>cb w. None) (\<lambda>i. Timestamp 2) w2 = Some w3
    \<and> pendingFunctors w3 = [] \<and> heap (timerQueue w3) = Map.empty"
proof -
  let ?w = "EventLoop 1 16 0 :: string loop_world"
  have tq: "timerQueue ?w = TimerQueue 0" "pendingFunctors ?w = []"
    by simp_all
  have "client_ok (AddTimer 16 ''cb'' (Timestamp 9) 0 (Timestamp 2)) (timerQueue ?w)"
    by (simp add: tq TimerQueue_def sane_time_def sane_interval_def UINTPTR_MAX_def INT64_MAX_def dmul_million)
  with cross_thread_cancel [of ?w 16 "''cb''" "Timestamp 9" 0 "\<lambda>i. Timestamp 2" "\<lambda>cb w. None" "Timestamp 1"]
  show ?thesis using tq_idle_TimerQueue [of 0] by (auto simp: tq TimerQueue_def)
qed

lemma addTimer_in_loop:
  assumes "tq_inv {} (timerQueue w)" and "client_ok (AddTimer p cb when iv clk) (timerQueue w)"
  shows "\<exists>w' tid. addTimer rc True clk p cb when iv w = Some (w', tid)
    \<and> timer_sequence tid = sint (s_numCreated (timerQueue w)) + 1
    \<and> sched (timerQueue w') = (sched (timerQueue w))(timer_sequence tid \<mapsto> (cb, when, iv))"
proof -
  obtain q1 tid where q1: "new_Timer p cb when iv (timerQueue w) = (q1, tid)" by fastforce
  have tid: "timer_sequence tid = sint (s_numCreated (timerQueue w)) + 1"
    using q1 assms(2) sint_increment [of "s_numCreated (timerQueue w)"]
    by (auto simp: new_Timer_def Timer_def incrementAndGet_eq Let_def)
  obtain q2 where q2: "do_action (AddTimer p cb when iv clk) (timerQueue w) = Some q2"
    using do_action_Add [OF assms] by blast
  with sched_add [OF assms this] q1 tid show ?thesis
    by (auto simp: addTimer_def runInLoop_def)
qed

text \<open>
  What \<open>runAt\<close>, \<open>runAfter\<close> and \<open>runEvery\<close> schedule when called in the loop's thread: one new
  timer, under the next sequence number, with the given or computed time and interval, and no other
  change to the schedule.\<close>

theorem run_apis_schedule:
  assumes "tq_idle (timerQueue w)" and "addTime now delay = Some due"
    and "client_ok (AddTimer p cb due delay clk) (timerQueue w)"
    and "client_ok (AddTimer p cb due 0 clk) (timerQueue w)"
  shows "\<forall>iv call. (call, iv) \<in> {(runAt rc True clk p due cb, 0), (runAfter rc True now clk p delay cb, 0),
        (runEvery rc True now clk p delay cb, delay)} \<longrightarrow>
      (\<exists>w' tid. call w = Some (w', tid) \<and> timer_sequence tid = sint (s_numCreated (timerQueue w)) + 1
        \<and> sched (timerQueue w') = (sched (timerQueue w))(timer_sequence tid \<mapsto> (cb, due, iv)))"
proof -
  have inv: "tq_inv {} (timerQueue w)" using assms(1) by (simp add: tq_idle_def)
  show ?thesis
    using addTimer_in_loop [OF inv assms(3), of rc] addTimer_in_loop [OF inv assms(4), of rc] assms(2)
    by (auto simp: runAt_def [abs_def] runAfter_def [abs_def] runEvery_def [abs_def])
qed

theorem run_apis_schedule_witness:
  "\<exists>w' tid. runEvery (\<lambda>cb w. None) True (Timestamp 500000) (Timestamp 500001) 16 1 ''cb'' (EventLoop 1 16 0) = Some (w', tid)
    \<and> timer_sequence tid = 1 \<and> sched (timerQueue w') 1 = Some (''cb'', Timestamp 1500000, 1)"
proof -
  let ?w = "EventLoop 1 16 0 :: string loop_world"
  have tq: "timerQueue ?w = TimerQueue 0" by simp
  have a: "addTime (Timestamp 500000) 1 = Some (Timestamp 1500000)"
    by (simp add: addTime_def dmul_million double_to_i64_def int64_defs)
  have "client_ok (AddTimer 16 ''cb'' (Timestamp 1500000) iv (Timestamp 500001)) (timerQueue ?w)" if "iv = 0 \<or> iv = 1" for iv
    using that by (auto simp: tq TimerQueue_def sane_time_def sane_interval_def UINTPTR_MAX_def INT64_MAX_def dmul_million)
  then have c: "client_ok (AddTimer 16 ''cb'' (Timestamp 1500000) 1 (Timestamp 500001)) (timerQueue ?w)"
      "client_ok (AddTimer 16 ''cb'' (Timestamp 1500000) 0 (Timestamp 500001)) (timerQueue ?w)" by blast+
  have "tq_idle (timerQueue ?w)" using tq_idle_TimerQueue [of 0] by (simp add: tq)
  from run_apis_schedule [OF this a c, of "\<lambda>cb w. None", rule_format,
      of "runEvery (\<lambda>cb w. None) True (Timestamp 500000) (Timestamp 500001) 16 1 ''cb''" 1]
  obtain w' tid where "runEvery (\<lambda>cb w. None) True (Timestamp 500000) (Timestamp 500001) 16 1 ''cb'' ?w = Some (w', tid)"
      "timer_sequence tid = sint (s_numCreated (timerQueue ?w)) + 1"
      "sched (timerQueue w') = (sched (timerQueue ?w))(timer_sequence tid \<mapsto> (''cb'', Timestamp 1500000, 1))"
    by blast
  moreover have "s_numCreated (timerQueue ?w) = 0" by (simp add: tq TimerQueue_def)
  ultimately show ?thesis by (intro exI [of _ w'] exI [of _ tid]) simp
qed



subsection \<open>Construction and destruction\<close>

text \<open>
  The constructor, given \<open>t_loopInThisThread\<close>, the addresses of the two channels, their descriptors and
  what their read callbacks are bound to; and the destructor with those of the members it ends. The
  second component of the results is \<open>t_loopInThisThread\<close>. A second loop in the thread aborts.
\<close>

definition EventLoop_ctor :: "ptr option \<Rightarrow> ptr \<Rightarrow> nat \<Rightarrow> 64 word \<Rightarrow> ptr \<times> fd \<times> 'cb \<Rightarrow> ptr \<times> fd \<times> 'cb
    \<Rightarrow> ('cb loop_world \<times> ptr option) option" where
  "EventLoop_ctor t_loop self n s_num = (\<lambda>(tp, timer_fd, timer_cb) (wp, wakeup_fd, wakeup_cb). do {
     let w = EventLoop self n s_num;
     let w = w\<lparr>chans := (chans w)(tp \<mapsto> (Channel self timer_fd)\<lparr>readCallback := Some timer_cb\<rparr>)\<rparr>;
     w \<leftarrow> enableReading updateChannel tp w;
     let w = w\<lparr>chans := (chans w)(wp \<mapsto> Channel self wakeup_fd)\<rparr>;
     chk (t_loop = None);
     w \<leftarrow> modify_chan wp (\<lambda>ch. ch\<lparr>readCallback := Some wakeup_cb\<rparr>) w;
     w \<leftarrow> enableReading updateChannel wp w;
     Some (w, Some self) })"

definition EventLoop_dtor :: "(ptr \<Rightarrow> ('cb, 'z) loop_world_scheme \<Rightarrow> bool) \<Rightarrow> ptr \<Rightarrow> ptr
    \<Rightarrow> ('cb, 'z) loop_world_scheme \<Rightarrow> (('cb, 'z) loop_world_scheme \<times> ptr option) option" where
  "EventLoop_dtor poller_has tp wp w = do {
     w \<leftarrow> disableAll updateChannel wp w;
     w \<leftarrow> remove_channel removeChannel wp w;
     w \<leftarrow> Channel_dtor True (hasChannel poller_has) wp w;
     w \<leftarrow> disableAll updateChannel tp w;
     w \<leftarrow> remove_channel removeChannel tp w;
     q \<leftarrow> TimerQueue_dtor (timerQueue w);
     w \<leftarrow> Channel_dtor True (hasChannel poller_has) tp (w\<lparr>timerQueue := q\<rparr>);
     Some (w, None) }"

text \<open>Taking a channel out, and its destructor.\<close>

lemma watched_cong: "interest w' = interest w \<Longrightarrow> watched w' = watched w"
  by (simp add: watched_def fun_eq_iff)

lemma fd_owner_added:
  assumes inv: "linv {} w" and ch: "chans w p = Some ch" "addedToLoop ch"
  shows "fd_owner p w"
proof -
  have inv: "pinv {} w" using inv by (simp add: linv_def)
  have reg: "channels w (fd c) = Some q" if "chans w q = Some c" "addedToLoop c" for q c
    using pinv_chan [OF inv that(1)] that(2) by (simp add: chan_ok_def)
  show ?thesis
    unfolding fd_owner_def
  proof (intro allI impI)
    fix c q d
    assume a: "chans w p = Some c" "chans w q = Some d" "addedToLoop d" "fd d = fd c"
    with ch reg [OF ch] reg [OF a(2,3)] show "q = p" by simp
  qed
qed

lemma take_out_ok:
  fixes w :: "('cb, 'z) loop_world_scheme"
  assumes inv: "linv {} w" and ch: "chans w p = Some ch" and own: "fd_owner p w" and rem: "removable p w"
  shows "\<exists>u v i. disableAll updateChannel p w = Some u \<and> remove_channel removeChannel p u = Some v
    \<and> linv {} v \<and> poller_update w u \<and> poller_update w v
    \<and> chans v = (chans w)(p \<mapsto> ch\<lparr>events := kNoneEvent, addedToLoop := False, index := i\<rparr>)
    \<and> watched v = (watched w)(fd ch := None)"
proof -
  from loop.set_events_ok [OF inv ch own, of "\<lambda>_. kNoneEvent"] obtain u i where
    u: "disableAll updateChannel p w = Some u" "linv {} u"
      "chans u = (chans w)(p \<mapsto> ch\<lparr>events := kNoneEvent, addedToLoop := True, index := i\<rparr>)"
      "watched u = watch_after (fd ch) kNoneEvent (watched w)"
    unfolding set_events_ops by blast
  have p: "poller_update w u" using u(1) poller_update_set_events unfolding set_events_ops by blast
  have "removable p u" using rem poller_update_frame_loop [OF p] by (simp add: removable_def)
  with loop.remove_ok [OF u(2), of p] u(3) obtain v i' where
    v: "remove_channel removeChannel p u = Some v" "linv {} v"
      "chans v = (chans u)(p \<mapsto> ch\<lparr>events := kNoneEvent, addedToLoop := False, index := i'\<rparr>)"
      "watched v = (watched u)(fd ch := None)"
    by (fastforce simp: isNoneEvent_def)
  have "poller_update u v" using v(1)
    by (auto simp: remove_channel_def bind_eq_Some_conv dest!: poller_update_remove poller_update_modify
        elim: poller_update_trans)
  with p have "poller_update w v" by (rule poller_update_trans)
  then show ?thesis
    using u v p by (intro exI [of _ u] exI [of _ v] exI [of _ i']) (simp add: watch_after_def)
qed

lemma retire_ok:
  fixes w :: "('cb, 'z) loop_world_scheme"
  assumes inv: "linv {} w" and ch: "chans w p = Some ch" and own: "fd_owner p w"
    and idle: "\<not> handlingEvents w" "\<not> eventHandling ch"
  shows "\<exists>u v c. disableAll updateChannel p w = Some u \<and> remove_channel removeChannel p u = Some v
    \<and> linv {} v \<and> poller_update w v \<and> chans v = (chans w)(p \<mapsto> c) \<and> \<not> addedToLoop c \<and> \<not> eventHandling c
    \<and> ownerLoop c = this v \<and> fd c = fd ch \<and> watched v = (watched w)(fd ch := None)"
proof -
  have "removable p w" using idle by (simp add: removable_def)
  from take_out_ok [OF inv ch own this] obtain u v i where
    v: "disableAll updateChannel p w = Some u" "remove_channel removeChannel p u = Some v" "linv {} v"
      "poller_update w v" "chans v = (chans w)(p \<mapsto> ch\<lparr>events := kNoneEvent, addedToLoop := False, index := i\<rparr>)"
      "watched v = (watched w)(fd ch := None)" by blast
  have "ownerLoop ch = this v" using inv ch poller_update_frame_loop(3) [OF v(4)] by (simp add: linv_def)
  with v idle show ?thesis
    by (intro exI [of _ u] exI [of _ v] exI [of _ "ch\<lparr>events := kNoneEvent, addedToLoop := False, index := i\<rparr>"]) simp
qed

lemma deleted_ok:
  fixes w :: "('cb, 'z) loop_world_scheme"
  assumes inv: "linv {} w" and ch: "chans w p = Some c" "\<not> addedToLoop c" "\<not> eventHandling c"
    and has: "poller_has p w = (\<exists>ch. chans w p = Some ch \<and> channels w (fd ch) = Some p)"
  shows "Channel_dtor True (hasChannel poller_has) p w = Some (w\<lparr>chans := (chans w)(p := None)\<rparr>)
    \<and> linv {} (w\<lparr>chans := (chans w)(p := None)\<rparr>)"
proof -
  have pinv: "pinv {} w" and own: "ownerLoop c = this w" using inv ch(1) by (simp_all add: linv_def)
  have "index c = kNew" using pinv_chan [OF pinv ch(1)] ch(2) by (simp add: chan_ok_def)
  then have "\<not> poller_has p w" using has pinv_channels_at [OF pinv _ ch(1)] ch(1) by auto
  then have "hasChannel poller_has p w = Some False"
    using ch(1) own by (simp add: hasChannel_def assertInLoopThread_def)
  then show ?thesis
    by (rule loop.dtor_ok [where hasChannel = "hasChannel poller_has", OF inv ch])
qed

lemma watch_read: "watch_after f kReadEvent W = W(f \<mapsto> kReadEvent)"
  by (simp add: watch_after_def event_defs)

text \<open>A new channel on a descriptor of its own that starts to read.\<close>

lemma start_reading_ok:
  fixes w :: "('cb, 'z) loop_world_scheme"
  assumes inv: "linv {} w" and free: "chans w p = None" "\<forall>q c. chans w q = Some c \<longrightarrow> fd c \<noteq> fd d"
    and d: "events d = 0" "index d = kNew" "\<not> addedToLoop d" "ownerLoop d = this w"
  shows "\<exists>w' i. enableReading updateChannel p (w\<lparr>chans := (chans w)(p \<mapsto> d)\<rparr>) = Some w' \<and> linv {} w'
    \<and> chans w' = (chans w)(p \<mapsto> d\<lparr>events := kReadEvent, addedToLoop := True, index := i\<rparr>)
    \<and> watched w' = watch_after (fd d) kReadEvent (watched w) \<and> poller_update w w'"
proof -
  let ?w = "w\<lparr>chans := (chans w)(p \<mapsto> d)\<rparr>"
  have inv': "linv {} ?w" by (rule linv_new_channel [OF inv free(1) refl d])
  have own: "fd_owner p ?w" using free(2) by (auto simp: fd_owner_def split: if_splits)
  have ch: "chans ?w p = Some d" by simp
  from loop.set_events_ok [OF inv' ch own, of "\<lambda>e. e OR kReadEvent"] obtain w' i where
    w': "enableReading updateChannel p ?w = Some w'" "linv {} w'"
      "chans w' = (chans ?w)(p \<mapsto> d\<lparr>events := kReadEvent, addedToLoop := True, index := i\<rparr>)"
      "watched w' = watch_after (fd d) kReadEvent (watched ?w)"
    unfolding set_events_ops d(1) by auto
  have "watched ?w = watched w" by (rule watched_cong) simp
  moreover have "poller_update w w'"
    using w'(1) poller_update_set_events poller_update_trans [OF poller_update_ops(1)] unfolding set_events_ops by blast
  ultimately show ?thesis using w' by (intro exI [of _ w'] exI [of _ i]) simp
qed

lemma EventLoop_ctor_ok:
  assumes neq: "tp \<noteq> wp" "timer_fd \<noteq> wakeup_fd"
  shows "\<exists>w. EventLoop_ctor None self n s (tp, timer_fd, tcb :: 'cb) (wp, wakeup_fd, wcb) = Some (w, Some self)
    \<and> linv {} w \<and> watched w = [timer_fd \<mapsto> kReadEvent, wakeup_fd \<mapsto> kReadEvent] \<and> dom (chans w) = {tp, wp}
    \<and> (\<forall>p c. chans w p = Some c \<longrightarrow> \<not> eventHandling c \<and> fd c = (if p = tp then timer_fd else wakeup_fd))
    \<and> \<not> handlingEvents w \<and> timerQueue w = TimerQueue s"
proof -
  define t where "t = (Channel self timer_fd)\<lparr>readCallback := Some tcb\<rparr>"
  define k where "k = (Channel self wakeup_fd)\<lparr>readCallback := Some wcb\<rparr>"
  have tk: "fd t = timer_fd" "events t = 0" "index t = kNew" "\<not> addedToLoop t" "ownerLoop t = self" "\<not> eventHandling t"
      "fd k = wakeup_fd" "events k = 0" "index k = kNew" "\<not> addedToLoop k" "ownerLoop k = self" "\<not> eventHandling k"
    by (simp_all add: t_def k_def Channel_def index_defs)
  let ?w0 = "EventLoop self n s :: 'cb loop_world"
  have w0: "chans ?w0 = Map.empty" "watched ?w0 = Map.empty" "this ?w0 = self" "linv {} ?w0"
    by (simp_all add: EventLoop_def poll_world.defs EPollPoller_def linv_def pinv_def watched_def fun_eq_iff)
  have pre: "chans ?w0 tp = None" "\<forall>q c. chans ?w0 q = Some c \<longrightarrow> fd c \<noteq> fd t" "ownerLoop t = this ?w0"
    using w0 tk by simp_all
  from start_reading_ok [OF w0(4) pre(1,2) tk(2-4) pre(3)] obtain w2 i where
    w2: "enableReading updateChannel tp (?w0\<lparr>chans := (chans ?w0)(tp \<mapsto> t)\<rparr>) = Some w2" "linv {} w2"
      "chans w2 = [tp \<mapsto> t\<lparr>events := kReadEvent, addedToLoop := True, index := i\<rparr>]"
      "watched w2 = [timer_fd \<mapsto> kReadEvent]" "poller_update ?w0 w2"
    by (auto simp: watch_read w0 tk)
  note f2 = poller_update_frame_loop [OF w2(5)]
  have free: "chans w2 wp = None" "\<forall>q c. chans w2 q = Some c \<longrightarrow> fd c \<noteq> fd k"
    using w2(3) neq tk by (auto split: if_splits)
  have own: "ownerLoop k = this w2" using f2(3) w0(3) tk by simp
  from start_reading_ok [where p = wp and d = k, OF w2(2) free(1) free(2) tk(8-10) own] obtain w4 j where
    w4: "enableReading updateChannel wp (w2\<lparr>chans := (chans w2)(wp \<mapsto> k)\<rparr>) = Some w4" "linv {} w4"
      "chans w4 = (chans w2)(wp \<mapsto> k\<lparr>events := kReadEvent, addedToLoop := True, index := j\<rparr>)"
      "watched w4 = watch_after wakeup_fd kReadEvent (watched w2)" "poller_update w2 w4"
    unfolding tk by blast
  note f4 = poller_update_frame_loop [OF w4(5)]
  have "watched w4 = [timer_fd \<mapsto> kReadEvent, wakeup_fd \<mapsto> kReadEvent]"
    using w2(4) w4(4) by (simp add: watch_read)
  moreover have "EventLoop_ctor None self n s (tp, timer_fd, tcb) (wp, wakeup_fd, wcb) = Some (w4, Some self)"
    using w2(1) w4(1) by (simp add: EventLoop_ctor_def Let_def modify_chan_def t_def k_def)
  moreover have "\<not> eventHandling c \<and> fd c = (if p = tp then timer_fd else wakeup_fd)" if "chans w4 p = Some c" for p c
    using that w4(3) w2(3) neq(1) tk by (auto split: if_splits)
  moreover have "dom (chans w4) = {tp, wp}" using w4(3) w2(3) by auto
  ultimately show ?thesis using w4(2) f2 f4 by (intro exI [of _ w4]) simp
qed

text \<open>A channel is taken out of the loop and deleted.\<close>

lemma retire_delete:
  fixes w :: "'cb loop_world"
  assumes inv: "linv {} w" and ch: "chans w p = Some c" "\<not> eventHandling c" and own: "fd_owner p w" and idle: "\<not> handlingEvents w"
    and has: "\<And>p (w :: 'cb loop_world). poller_has p w = (\<exists>ch. chans w p = Some ch \<and> channels w (fd ch) = Some p)"
  shows "\<exists>u v. disableAll updateChannel p w = Some u \<and> remove_channel removeChannel p u = Some v
    \<and> Channel_dtor True (hasChannel poller_has) p v = Some (v\<lparr>chans := (chans w)(p := None)\<rparr>)
    \<and> linv {} (v\<lparr>chans := (chans w)(p := None)\<rparr>) \<and> watched v = (watched w)(fd c := None) \<and> poller_update w v"
proof -
  from retire_ok [OF inv ch(1) own idle ch(2)] obtain u v d where
    v: "disableAll updateChannel p w = Some u" "remove_channel removeChannel p u = Some v" "linv {} v"
      "poller_update w v" "chans v = (chans w)(p \<mapsto> d)" "\<not> addedToLoop d" "\<not> eventHandling d"
      "watched v = (watched w)(fd c := None)" by auto
  have "Channel_dtor True (hasChannel poller_has) p v = Some (v\<lparr>chans := (chans v)(p := None)\<rparr>)
      \<and> linv {} (v\<lparr>chans := (chans v)(p := None)\<rparr>)"
    using deleted_ok [where p = p and poller_has = poller_has, OF v(3) _ v(6,7)] has v(5) by auto
  with v show ?thesis by auto
qed

lemma EventLoop_dtor_ok:
  fixes w :: "'cb loop_world"
  assumes neq: "tp \<noteq> wp" "timer_fd \<noteq> wakeup_fd" and inv: "linv {} w" and idle: "\<not> handlingEvents w"
    and watched: "watched w = [timer_fd \<mapsto> kReadEvent, wakeup_fd \<mapsto> kReadEvent]" and dom: "dom (chans w) = {tp, wp}"
    and ch: "\<And>p c. chans w p = Some c \<Longrightarrow> \<not> eventHandling c \<and> fd c = (if p = tp then timer_fd else wakeup_fd)"
    and tq: "timerQueue w = TimerQueue s"
    and has: "\<And>p (w :: 'cb loop_world). poller_has p w = (\<exists>ch. chans w p = Some ch \<and> channels w (fd ch) = Some p)"
  shows "\<exists>v. EventLoop_dtor poller_has tp wp w = Some (v, None) \<and> watched v = Map.empty \<and> chans v = Map.empty"
proof -
  have own: "fd_owner p w" if "p \<in> {tp, wp}" for p
    unfolding fd_owner_def
  proof (intro allI impI)
    fix c q d
    assume a: "chans w p = Some c" "chans w q = Some d" "fd d = fd c"
    have "q \<in> {tp, wp}" using dom a(2) by blast
    then show "q = p" using that ch [OF a(1)] ch [OF a(2)] a(3) neq by (auto split: if_splits)
  qed
  from dom obtain k t where k: "chans w wp = Some k" and t: "chans w tp = Some t" by blast
  from retire_delete [where poller_has = poller_has, OF inv k _ own idle has] ch [OF k] obtain u v where
    v: "disableAll updateChannel wp w = Some u" "remove_channel removeChannel wp u = Some v"
      "Channel_dtor True (hasChannel poller_has) wp v = Some (v\<lparr>chans := (chans w)(wp := None)\<rparr>)"
      "linv {} (v\<lparr>chans := (chans w)(wp := None)\<rparr>)" "watched v = (watched w)(wakeup_fd := None)" "poller_update w v"
    using neq(1) by auto
  note f1 = poller_update_frame_loop [OF v(6)]
  let ?v = "v\<lparr>chans := (chans w)(wp := None)\<rparr>"
  have t': "chans ?v tp = Some t" "fd_owner tp ?v" "\<not> handlingEvents ?v"
    using t neq(1) own [of tp] f1 idle by (auto simp: fd_owner_def)
  from retire_delete [where poller_has = poller_has, OF v(4) t'(1) _ t'(2,3) has] ch [OF t] obtain x y where
    y: "disableAll updateChannel tp ?v = Some x" "remove_channel removeChannel tp x = Some y"
      "Channel_dtor True (hasChannel poller_has) tp y = Some (y\<lparr>chans := (chans ?v)(tp := None)\<rparr>)"
      "watched y = (watched ?v)(timer_fd := None)" "poller_update ?v y" by auto
  have "TimerQueue_dtor (timerQueue y) = Some (timerQueue y)"
    using poller_update_frame_loop [OF y(5)] f1 tq by (simp add: TimerQueue_dtor_def TimerQueue_def)
  moreover have "y\<lparr>timerQueue := timerQueue y\<rparr> = y" by simp
  ultimately have "EventLoop_dtor poller_has tp wp w = Some (y\<lparr>chans := (chans ?v)(tp := None)\<rparr>, None)"
    using v(1-3) y(1-3) by (simp add: EventLoop_dtor_def)
  moreover have "watched y = Map.empty"
    using y(4) v(5) watched neq(2) watched_cong [of ?v v] by (auto simp: fun_eq_iff)
  then have "watched (y\<lparr>chans := (chans ?v)(tp := None)\<rparr>) = Map.empty"
    using watched_cong [of "y\<lparr>chans := (chans ?v)(tp := None)\<rparr>" y] by simp
  moreover have "(chans ?v)(tp := None) = Map.empty" using dom by (auto simp: fun_eq_iff)
  ultimately show ?thesis by auto
qed


definition find_poller :: "ptr \<Rightarrow> string loop_world \<Rightarrow> bool" where
  "find_poller p w = (case chans w p of None \<Rightarrow> False | Some ch \<Rightarrow> channels w (fd ch) = Some p)"


end
