(* ===== verification/Connections.thy ===== *)
theory Connections
  imports EventLoops
begin

text \<open>
  \<^verbatim>\<open>TcpConnection.h\<close> and \<^verbatim>\<open>TcpConnection.c\<close>: one connection with its channel and its buffers, on top of
  the loop that serves it. The state is the loop's, extended with the members of the connection and
  what the peer can see of the socket: the bytes written so far (\<open>wire\<close>) and whether the sending side
  has been shut down. \<open>Buffer.h\<close> is not in the repository: its operations are the parameter \<open>B\<close>, and
  \<open>buffer_laws\<close> states what \<^verbatim>\<open>Info/Buffer.txt\<close> documents of them. What \<open>read\<close> and \<open>write\<close> return is an
  argument, and so is what the user's callbacks do.
\<close>

subsection \<open>Buffers\<close>

record 'b buffer_ops =
  readableBytes :: "'b \<Rightarrow> nat"
  peek :: "'b \<Rightarrow> bytes"
  append_data :: "'b \<Rightarrow> bytes \<Rightarrow> 'b"
  retrieve :: "'b \<Rightarrow> nat \<Rightarrow> 'b"
  retrieveAll :: "'b \<Rightarrow> 'b"

text \<open>\<open>peek\<close> points at the readable bytes, \<open>append\<close> copies behind them, \<open>retrieve\<close> drops from the front.\<close>

definition buffer_laws :: "'b buffer_ops \<Rightarrow> bool" where
  "buffer_laws B \<longleftrightarrow>
     (\<forall>b. readableBytes B b = length (peek B b))
     \<and> (\<forall>b xs. peek B (append_data B b xs) = peek B b @ xs)
     \<and> (\<forall>b n. peek B (retrieve B b n) = drop n (peek B b))
     \<and> (\<forall>b. peek B (retrieveAll B b) = [])"

subsection \<open>The class\<close>

datatype StateE = kDisconnected | kConnecting | kConnected | kDisconnecting

fun state_code :: "StateE \<Rightarrow> int" where
  "state_code kDisconnected = 0"
| "state_code kConnecting = 1"
| "state_code kConnected = 2"
| "state_code kDisconnecting = 3"

text \<open>What is bound into callbacks and functors; \<open>'u\<close> are the user's own.\<close>

datatype 'u conn_cb =
    HandleRead | HandleWrite | HandleClose | HandleError
  | SendInLoop bytes | ShutdownInLoop | ForceCloseInLoop | ForceCloseWeak | StartReadInLoop | StopReadInLoop
  | ConnectEstablished | ConnectDestroyed
  | WriteComplete 'u | HighWaterMark 'u nat | Other 'u

record ('b, 'u) conn_world = "'u conn_cb loop_world" +
  self :: ptr
  state :: StateE
  reading :: bool
  channel :: ptr
  connectionCallback :: "'u option"
  messageCallback :: "'u option"
  writeCompleteCallback :: "'u option"
  highWaterMarkCallback :: "'u option"
  connCloseCallback :: "'u option"
  highWaterMark :: nat
  inputBuffer :: 'b
  outputBuffer :: 'b
  keepAlive :: bool
  tcpNoDelay :: bool
  wire :: bytes
  write_shut :: bool

type_synonym ('b, 'u) conn_op = "('b, 'u) conn_world \<Rightarrow> ('b, 'u) conn_world option"

text \<open>What the kernel returns to the operation that runs: \<open>Inl errno\<close> is a return value of -1.\<close>

record io =
  write_result :: "errno + nat"
  read_result :: "errno + bytes"

definition EWOULDBLOCK :: errno where "EWOULDBLOCK = 11"
definition EPIPE :: errno where "EPIPE = 32"
definition ECONNRESET :: errno where "ECONNRESET = 104"

lemmas errno_defs = EWOULDBLOCK_def EPIPE_def ECONNRESET_def

definition TcpConnection :: "ptr \<Rightarrow> ptr \<Rightarrow> fd \<Rightarrow> 'b \<Rightarrow> ('b, 'u) conn_world \<Rightarrow> ('b, 'u) conn_world" where
  "TcpConnection obj p sockfd empty_buffer w =
     w\<lparr>self := obj, state := kConnecting, reading := True, channel := p,
       highWaterMark := 64 * 1024 * 1024, inputBuffer := empty_buffer, outputBuffer := empty_buffer,
       connectionCallback := None, messageCallback := None, writeCompleteCallback := None,
       highWaterMarkCallback := None, connCloseCallback := None, wire := [], write_shut := False,
       tcpNoDelay := False,
       chans := (chans w)(p \<mapsto> (Channel (this w) sockfd)\<lparr>readCallback := Some HandleRead,
         writeCallback := Some HandleWrite, closeCallback := Some HandleClose, errorCallback := Some HandleError\<rparr>),
       keepAlive := True\<rparr>"

definition TcpConnection_dtor :: "('b, 'u) conn_op" where
  "TcpConnection_dtor w = do { chk (state w = kDisconnected); Some w }"

definition connected :: "('b, 'u) conn_world \<Rightarrow> bool" where
  "connected w \<longleftrightarrow> state w = kConnected"

definition disconnected :: "('b, 'u) conn_world \<Rightarrow> bool" where
  "disconnected w \<longleftrightarrow> state w = kDisconnected"

definition setState :: "StateE \<Rightarrow> ('b, 'u) conn_world \<Rightarrow> ('b, 'u) conn_world" where
  "setState s w = w\<lparr>state := s\<rparr>"

fun stateToString :: "StateE \<Rightarrow> string" where
  "stateToString kDisconnected = ''kDisconnected''"
| "stateToString kConnecting = ''kConnecting''"
| "stateToString kConnected = ''kConnected''"
| "stateToString kDisconnecting = ''kDisconnecting''"

definition setTcpNoDelay :: "bool \<Rightarrow> ('b, 'u) conn_world \<Rightarrow> ('b, 'u) conn_world" where
  "setTcpNoDelay on w = w\<lparr>tcpNoDelay := on\<rparr>"

text \<open>The callbacks, set by the server or the client before \<open>connectEstablished\<close>.\<close>

definition setConnectionCallback :: "'u option \<Rightarrow> ('b, 'u) conn_world \<Rightarrow> ('b, 'u) conn_world" where
  "setConnectionCallback cb w = w\<lparr>connectionCallback := cb\<rparr>"

definition setMessageCallback :: "'u option \<Rightarrow> ('b, 'u) conn_world \<Rightarrow> ('b, 'u) conn_world" where
  "setMessageCallback cb w = w\<lparr>messageCallback := cb\<rparr>"

definition setWriteCompleteCallback :: "'u option \<Rightarrow> ('b, 'u) conn_world \<Rightarrow> ('b, 'u) conn_world" where
  "setWriteCompleteCallback cb w = w\<lparr>writeCompleteCallback := cb\<rparr>"

definition setHighWaterMarkCallback :: "'u option \<Rightarrow> nat \<Rightarrow> ('b, 'u) conn_world \<Rightarrow> ('b, 'u) conn_world" where
  "setHighWaterMarkCallback cb mark w = w\<lparr>highWaterMarkCallback := cb, highWaterMark := mark\<rparr>"

definition setCloseCallback :: "'u option \<Rightarrow> ('b, 'u) conn_world \<Rightarrow> ('b, 'u) conn_world" where
  "setCloseCallback cb w = w\<lparr>connCloseCallback := cb\<rparr>"

text \<open>Calling a \<open>boost::function\<close>; an empty one throws.\<close>

definition call_user :: "('u \<Rightarrow> ('b, 'u) conn_op) \<Rightarrow> 'u option \<Rightarrow> ('b, 'u) conn_op" where
  "call_user run_user cb w = (case cb of None \<Rightarrow> None | Some u \<Rightarrow> run_user u w)"

subsection \<open>Operations in the loop's thread\<close>

text \<open>\<open>sendInLoop\<close> first writes what it can; it gives what was written, and whether the peer is gone.\<close>

definition send_direct :: "'b buffer_ops \<Rightarrow> errno + nat \<Rightarrow> bytes \<Rightarrow> 'u conn_cb channel \<Rightarrow> ('b, 'u) conn_world
    \<Rightarrow> ('b, 'u) conn_world \<times> nat \<times> bool" where
  "send_direct B wr data ch w =
     (if \<not> isWriting ch \<and> readableBytes B (outputBuffer w) = 0
      then (case wr of
              Inr n \<Rightarrow>
                let w = w\<lparr>wire := wire w @ take n data\<rparr>
                in (case writeCompleteCallback w of
                      Some u \<Rightarrow> if n = length data then queueInLoop True (Functor (WriteComplete u)) w else w
                    | None \<Rightarrow> w, n, False)
            | Inl errno \<Rightarrow> (w, 0, errno \<noteq> EWOULDBLOCK \<and> (errno = EPIPE \<or> errno = ECONNRESET)))
      else (w, 0, False))"

text \<open>Then it keeps the rest; \<open>len - nwrote\<close> would wrap around if more had been written than asked.\<close>

definition send_rest :: "'b buffer_ops \<Rightarrow> bytes \<Rightarrow> 'u conn_cb channel \<Rightarrow> nat \<Rightarrow> bool \<Rightarrow> ('b, 'u) conn_op" where
  "send_rest B data ch nwrote faultError w =
     do { chk (nwrote \<le> length data);
          let remaining = length data - nwrote;
          if \<not> faultError \<and> remaining > 0
          then do {
            let oldLen = readableBytes B (outputBuffer w);
            let w = (case highWaterMarkCallback w of
                       Some u \<Rightarrow> if oldLen + remaining \<ge> highWaterMark w
                                 then queueInLoop True (Functor (HighWaterMark u (oldLen + remaining))) w else w
                     | None \<Rightarrow> w);
            let w = w\<lparr>outputBuffer := append_data B (outputBuffer w) (drop nwrote data)\<rparr>;
            if \<not> isWriting ch then enableWriting updateChannel (channel w) w else Some w }
          else Some w }"

definition sendInLoop :: "'b buffer_ops \<Rightarrow> errno + nat \<Rightarrow> bytes \<Rightarrow> ('b, 'u) conn_op" where
  "sendInLoop B wr data w =
     (if state w = kDisconnected then Some w
      else do {
        ch \<leftarrow> chans w (channel w);
        let (w, nwrote, faultError) = send_direct B wr data ch w;
        send_rest B data ch nwrote faultError w })"

definition shutdownInLoop :: "('b, 'u) conn_op" where
  "shutdownInLoop w =
     do { ch \<leftarrow> chans w (channel w);
          if \<not> isWriting ch then Some (w\<lparr>write_shut := True\<rparr>) else Some w }"

definition startReadInLoop :: "('b, 'u) conn_op" where
  "startReadInLoop w =
     do { ch \<leftarrow> chans w (channel w);
          if \<not> reading w \<or> \<not> isReading ch
          then do { w \<leftarrow> enableReading updateChannel (channel w) w; Some (w\<lparr>reading := True\<rparr>) }
          else Some w }"

definition stopReadInLoop :: "('b, 'u) conn_op" where
  "stopReadInLoop w =
     do { ch \<leftarrow> chans w (channel w);
          if reading w \<or> isReading ch
          then do { w \<leftarrow> disableReading updateChannel (channel w) w; Some (w\<lparr>reading := False\<rparr>) }
          else Some w }"

definition connectEstablished :: "('u \<Rightarrow> ('b, 'u) conn_op) \<Rightarrow> ('b, 'u) conn_op" where
  "connectEstablished run_user w =
     do { chk (state w = kConnecting);
          let w = setState kConnected w;
          w \<leftarrow> modify_chan (channel w) (tie (self w)) w;
          w \<leftarrow> enableReading updateChannel (channel w) w;
          call_user run_user (connectionCallback w) w }"

definition connectDestroyed :: "('u \<Rightarrow> ('b, 'u) conn_op) \<Rightarrow> ('b, 'u) conn_op" where
  "connectDestroyed run_user w =
     do { w \<leftarrow> (if state w = kConnected
               then do { let w = setState kDisconnected w;
                         w \<leftarrow> disableAll updateChannel (channel w) w;
                         call_user run_user (connectionCallback w) w }
               else Some w);
          remove_channel removeChannel (channel w) w }"

definition handleClose :: "('u \<Rightarrow> ('b, 'u) conn_op) \<Rightarrow> ('b, 'u) conn_op" where
  "handleClose run_user w =
     do { chk (state w = kConnected \<or> state w = kDisconnecting);
          let w = setState kDisconnected w;
          w \<leftarrow> disableAll updateChannel (channel w) w;
          w \<leftarrow> call_user run_user (connectionCallback w) w;
          call_user run_user (connCloseCallback w) w }"

text \<open>\<open>getSocketError\<close> clears \<open>SO_ERROR\<close>; the code ignores the value.\<close>

definition handleError :: "('b, 'u) conn_op" where
  "handleError w = Some w"

text \<open>\<open>readFd\<close> appends what it read to the input buffer; no bytes mean the end of the stream.\<close>

definition handleRead :: "'b buffer_ops \<Rightarrow> ('u \<Rightarrow> ('b, 'u) conn_op) \<Rightarrow> errno + bytes \<Rightarrow> ('b, 'u) conn_op" where
  "handleRead B run_user rd w =
     (case rd of
        Inr data \<Rightarrow>
          if 0 < length data
          then call_user run_user (messageCallback w) (w\<lparr>inputBuffer := append_data B (inputBuffer w) data\<rparr>)
          else handleClose run_user w
      | Inl savedErrno \<Rightarrow> handleError w)"

definition handleWrite :: "'b buffer_ops \<Rightarrow> errno + nat \<Rightarrow> ('b, 'u) conn_op" where
  "handleWrite B wr w =
     do { ch \<leftarrow> chans w (channel w);
          if isWriting ch
          then (case wr of
                  Inr n \<Rightarrow>
                    if 0 < n
                    then do {
                      let w = w\<lparr>wire := wire w @ take n (peek B (outputBuffer w)),
                                outputBuffer := retrieve B (outputBuffer w) n\<rparr>;
                      if readableBytes B (outputBuffer w) = 0
                      then do {
                        w \<leftarrow> disableWriting updateChannel (channel w) w;
                        let w = (case writeCompleteCallback w of
                                   Some u \<Rightarrow> queueInLoop True (Functor (WriteComplete u)) w
                                 | None \<Rightarrow> w);
                        if state w = kDisconnecting then shutdownInLoop w else Some w }
                      else Some w }
                    else Some w
                | Inl errno \<Rightarrow> Some w)
          else Some w }"

definition forceCloseInLoop :: "('u \<Rightarrow> ('b, 'u) conn_op) \<Rightarrow> ('b, 'u) conn_op" where
  "forceCloseInLoop run_user w =
     (if state w = kConnected \<or> state w = kDisconnecting then handleClose run_user w else Some w)"

definition forceClose :: "bool \<Rightarrow> ('b, 'u) conn_op" where
  "forceClose in_loop w =
     (if state w = kConnected \<or> state w = kDisconnecting
      then Some (queueInLoop in_loop (Functor ForceCloseInLoop) (setState kDisconnecting w))
      else Some w)"

text \<open>\<open>WeakCallback\<close>: nothing if the object is gone.\<close>

definition WeakCallback :: "ptr \<Rightarrow> ('b, 'u) conn_op \<Rightarrow> ('b, 'u) conn_op" where
  [simp]: "WeakCallback object f w = (if use_count w object = 0 then Some w else f w)"

text \<open>Calling what was bound.\<close>

fun conn_call :: "'b buffer_ops \<Rightarrow> ('u \<Rightarrow> ('b, 'u) conn_op) \<Rightarrow> io \<Rightarrow> 'u conn_cb \<Rightarrow> ('b, 'u) conn_op" where
  "conn_call B run_user io HandleRead w = handleRead B run_user (read_result io) w"
| "conn_call B run_user io HandleWrite w = handleWrite B (write_result io) w"
| "conn_call B run_user io HandleClose w = handleClose run_user w"
| "conn_call B run_user io HandleError w = handleError w"
| "conn_call B run_user io (SendInLoop data) w = sendInLoop B (write_result io) data w"
| "conn_call B run_user io ShutdownInLoop w = shutdownInLoop w"
| "conn_call B run_user io ForceCloseInLoop w = forceCloseInLoop run_user w"
| "conn_call B run_user io ForceCloseWeak w = WeakCallback (self w) (forceClose True) w"
| "conn_call B run_user io StartReadInLoop w = startReadInLoop w"
| "conn_call B run_user io StopReadInLoop w = stopReadInLoop w"
| "conn_call B run_user io ConnectEstablished w = connectEstablished run_user w"
| "conn_call B run_user io ConnectDestroyed w = connectDestroyed run_user w"
| "conn_call B run_user io (WriteComplete u) w = run_user u w"
| "conn_call B run_user io (HighWaterMark u n) w = run_user u w"
| "conn_call B run_user io (Other u) w = run_user u w"

subsection \<open>The user's operations\<close>

text \<open>\<open>call\<close> is \<open>conn_call\<close> with its parameters; it is used when the caller is in the loop's thread.\<close>

definition run_in_loop :: "('u conn_cb \<Rightarrow> ('b, 'u) conn_op) \<Rightarrow> bool \<Rightarrow> 'u conn_cb \<Rightarrow> ('b, 'u) conn_op" where
  "run_in_loop call in_loop cb w = runInLoop call in_loop (Timestamp 0) (Functor cb) w"

definition send :: "('u conn_cb \<Rightarrow> ('b, 'u) conn_op) \<Rightarrow> bool \<Rightarrow> bytes \<Rightarrow> ('b, 'u) conn_op" where
  "send call in_loop message w =
     (if state w = kConnected
      then if in_loop then call (SendInLoop message) w
           else run_in_loop call in_loop (SendInLoop message) w
      else Some w)"

definition send_buffer :: "'b buffer_ops \<Rightarrow> ('u conn_cb \<Rightarrow> ('b, 'u) conn_op) \<Rightarrow> bool \<Rightarrow> 'b \<Rightarrow> ('b, 'u) conn_world
    \<Rightarrow> (('b, 'u) conn_world \<times> 'b) option" where
  "send_buffer B call in_loop buf w =
     (if state w = kConnected
      then if in_loop
           then do { w \<leftarrow> call (SendInLoop (peek B buf)) w; Some (w, retrieveAll B buf) }
           else do { w \<leftarrow> run_in_loop call in_loop (SendInLoop (peek B buf)) w; Some (w, retrieveAll B buf) }
      else Some (w, buf))"

text \<open>The condition is the assignment \<open>state_ = kConnected\<close>, whose value is not zero.\<close>

definition shutdown :: "('u conn_cb \<Rightarrow> ('b, 'u) conn_op) \<Rightarrow> bool \<Rightarrow> ('b, 'u) conn_op" where
  "shutdown call in_loop w =
     (let w = w\<lparr>state := kConnected\<rparr>
      in if state_code (state w) \<noteq> 0
         then run_in_loop call in_loop ShutdownInLoop (setState kDisconnecting w)
         else Some w)"

definition forceCloseWithDelay :: "('u conn_cb \<Rightarrow> ('b, 'u) conn_op) \<Rightarrow> bool \<Rightarrow> timestamp \<Rightarrow> timestamp \<Rightarrow> ptr
    \<Rightarrow> double \<Rightarrow> ('b, 'u) conn_op" where
  "forceCloseWithDelay call in_loop now clock p seconds w =
     (if state w = kConnected \<or> state w = kDisconnecting
      then do { (w, tid) \<leftarrow> runAfter call in_loop now clock p seconds ForceCloseWeak (setState kDisconnecting w);
                Some w }
      else Some w)"

definition startRead :: "('u conn_cb \<Rightarrow> ('b, 'u) conn_op) \<Rightarrow> bool \<Rightarrow> ('b, 'u) conn_op" where
  "startRead call in_loop w = run_in_loop call in_loop StartReadInLoop w"

definition stopRead :: "('u conn_cb \<Rightarrow> ('b, 'u) conn_op) \<Rightarrow> bool \<Rightarrow> ('b, 'u) conn_op" where
  "stopRead call in_loop w = run_in_loop call in_loop StopReadInLoop w"

definition defaultMessageCallback :: "'b buffer_ops \<Rightarrow> ('b, 'u) conn_op" where
  "defaultMessageCallback B w = Some (w\<lparr>inputBuffer := retrieveAll B (inputBuffer w)\<rparr>)"

definition defaultConnectionCallback :: "('b, 'u) conn_op" where
  "defaultConnectionCallback w = Some w"

subsection \<open>The invariant of an established connection\<close>

definition live :: "('b, 'u) conn_world \<Rightarrow> bool" where
  "live w \<longleftrightarrow> state w = kConnected \<or> state w = kDisconnecting"

text \<open>
  While the connection is live its channel waits to write exactly when the output buffer holds
  something, and to read exactly when \<open>reading_\<close> says so; the sending side is shut down only with an
  empty buffer; and once it is down its channel waits for nothing.
\<close>

definition conn_static :: "('b, 'u) conn_world \<Rightarrow> 'u conn_cb channel \<Rightarrow> bool" where
  "conn_static w ch \<longleftrightarrow> addedToLoop ch \<and> tied ch \<and> weak_tie ch = Some (self w) \<and> 0 < use_count w (self w)
     \<and> readCallback ch = Some HandleRead \<and> writeCallback ch = Some HandleWrite
     \<and> closeCallback ch = Some HandleClose \<and> errorCallback ch = Some HandleError
     \<and> connectionCallback w \<noteq> None \<and> messageCallback w \<noteq> None \<and> connCloseCallback w \<noteq> None"

definition conn_ok :: "'b buffer_ops \<Rightarrow> ('b, 'u) conn_world \<Rightarrow> 'u conn_cb channel \<Rightarrow> bool" where
  "conn_ok B w ch \<longleftrightarrow> conn_static w ch \<and> state w \<noteq> kConnecting
     \<and> (live w \<longrightarrow> isWriting ch = (peek B (outputBuffer w) \<noteq> []) \<and> isReading ch = reading w
          \<and> (write_shut w \<longrightarrow> peek B (outputBuffer w) = []))
     \<and> (state w = kDisconnected \<longrightarrow> isNoneEvent ch)"

definition cinv :: "'b buffer_ops \<Rightarrow> ('b, 'u) conn_world \<Rightarrow> bool" where
  "cinv B w \<longleftrightarrow> linv {} w \<and> fd_owner (channel w) w \<and> (\<exists>ch. chans w (channel w) = Some ch \<and> conn_ok B w ch)"

text \<open>All bytes the connection has taken: those written, then those that wait.\<close>

definition stream :: "'b buffer_ops \<Rightarrow> ('b, 'u) conn_world \<Rightarrow> bytes" where
  "stream B w = wire w @ peek B (outputBuffer w)"

definition conn_revents :: "('b, 'u) conn_world \<Rightarrow> 32 word option" where
  "conn_revents w = map_option revents (chans w (channel w))"

definition cstep :: "'b buffer_ops \<Rightarrow> ('b, 'u) conn_world \<Rightarrow> ('b, 'u) conn_world \<Rightarrow> bool" where
  "cstep B w w' \<longleftrightarrow> cinv B w' \<and> (\<exists>xs. stream B w' = stream B w @ xs) \<and> (\<exists>ys. wire w' = wire w @ ys)
     \<and> (state w = kDisconnected \<longrightarrow> state w' = kDisconnected)
     \<and> channel w' = channel w \<and> conn_revents w' = conn_revents w
     \<and> self w' = self w \<and> use_count w (self w) \<le> use_count w' (self w)"

lemma cstep_refl: "cinv B w \<Longrightarrow> cstep B w w"
  by (simp add: cstep_def)

lemma cstep_trans: "cstep B u v \<Longrightarrow> cstep B v w \<Longrightarrow> cstep B u w"
  by (auto simp: cstep_def)

lemma cstep_cinv: "cstep B w w' \<Longrightarrow> cinv B w'"
  by (simp add: cstep_def)

lemma cinvE:
  assumes "cinv B w"
  obtains ch where "linv {} w" "fd_owner (channel w) w" "chans w (channel w) = Some ch" "conn_ok B w ch"
  using assms by (auto simp: cinv_def)

lemma cstepI:
  assumes "linv {} w'" and "fd_owner (channel w') w'" and "chans w' (channel w') = Some ch" and "conn_ok B w' ch"
    and "stream B w' = stream B w @ xs" and "wire w' = wire w @ ys" and "state w = kDisconnected \<Longrightarrow> state w' = kDisconnected"
    and "channel w' = channel w" and "chans w (channel w) = Some old" and "revents ch = revents old"
    and "self w' = self w" and "use_count w (self w) \<le> use_count w' (self w)"
  shows "cstep B w w'"
  using assms by (auto simp: cstep_def cinv_def conn_revents_def)

subsection \<open>Frames\<close>

lemma queue_frame [simp]:
  "chans (queueInLoop b f w) = chans w" "channels (queueInLoop b f w) = channels w"
  "interest (queueInLoop b f w) = interest w" "ctl_rets (queueInLoop b f w) = ctl_rets w"
  "this (queueInLoop b f w) = this w" "use_count (queueInLoop b f w) = use_count w"
  by (simp_all add: queue_defs)

lemma queue_frame_conn [simp]:
  fixes w :: "('b, 'u) conn_world"
  shows "state (queueInLoop b f w) = state w" "self (queueInLoop b f w) = self w"
    "reading (queueInLoop b f w) = reading w" "channel (queueInLoop b f w) = channel w"
    "connectionCallback (queueInLoop b f w) = connectionCallback w"
    "messageCallback (queueInLoop b f w) = messageCallback w"
    "writeCompleteCallback (queueInLoop b f w) = writeCompleteCallback w"
    "highWaterMarkCallback (queueInLoop b f w) = highWaterMarkCallback w"
    "connCloseCallback (queueInLoop b f w) = connCloseCallback w"
    "highWaterMark (queueInLoop b f w) = highWaterMark w"
    "outputBuffer (queueInLoop b f w) = outputBuffer w" "inputBuffer (queueInLoop b f w) = inputBuffer w"
    "wire (queueInLoop b f w) = wire w" "write_shut (queueInLoop b f w) = write_shut w"
  by (simp_all add: queue_defs)

lemma poller_update_frame:
  fixes w w' :: "('b, 'u) conn_world"
  assumes "poller_update w w'"
  shows "state w' = state w" "self w' = self w" "reading w' = reading w" "channel w' = channel w"
    "connectionCallback w' = connectionCallback w" "messageCallback w' = messageCallback w"
    "writeCompleteCallback w' = writeCompleteCallback w"
    "highWaterMarkCallback w' = highWaterMarkCallback w" "connCloseCallback w' = connCloseCallback w"
    "highWaterMark w' = highWaterMark w" "outputBuffer w' = outputBuffer w" "inputBuffer w' = inputBuffer w"
    "wire w' = wire w" "write_shut w' = write_shut w" "use_count w' = use_count w" "this w' = this w"
    "pendingFunctors w' = pendingFunctors w"
proof -
  have w: "w = w'\<lparr>chans := chans w, channels := channels w, interest := interest w, ctl_rets := ctl_rets w\<rparr>"
    using assms by (simp add: poller_update_def)
  show "state w' = state w" "self w' = self w" "reading w' = reading w" "channel w' = channel w"
    "connectionCallback w' = connectionCallback w" "messageCallback w' = messageCallback w"
    "writeCompleteCallback w' = writeCompleteCallback w"
    "highWaterMarkCallback w' = highWaterMarkCallback w" "connCloseCallback w' = connCloseCallback w"
    "highWaterMark w' = highWaterMark w" "outputBuffer w' = outputBuffer w" "inputBuffer w' = inputBuffer w"
    "wire w' = wire w" "write_shut w' = write_shut w" "use_count w' = use_count w" "this w' = this w"
    "pendingFunctors w' = pendingFunctors w"
    by (subst w, simp)+
qed

lemma conn_set_events:
  fixes w :: "('b, 'u) conn_world"
  assumes "linv {} w" and "fd_owner (channel w) w" and "chans w (channel w) = Some ch"
  shows "\<exists>w' i. set_events updateChannel f (channel w) w = Some w' \<and> poller_update w w' \<and> linv {} w'
    \<and> fd_owner (channel w) w'
    \<and> chans w' (channel w) = Some (ch\<lparr>events := f (events ch), addedToLoop := True, index := i\<rparr>)
    \<and> watched w' = watch_after (fd ch) (f (events ch)) (watched w)"
proof -
  from loop.set_events_ok [OF assms(1,3,2), of f] obtain w' i where
    w': "set_events updateChannel f (channel w) w = Some w'" "linv {} w'"
      "chans w' = (chans w)(channel w \<mapsto> ch\<lparr>events := f (events ch), addedToLoop := True, index := i\<rparr>)"
      "watched w' = watch_after (fd ch) (f (events ch)) (watched w)" by blast
  have "fd_owner (channel w) w'" by (rule fd_owner_update [OF assms(2,3) w'(3)]) simp
  with w' poller_update_set_events [OF w'(1)] show ?thesis by auto
qed

text \<open>The bits that the channel's operations set and clear.\<close>

lemma word_mask:
  fixes e x y :: "'a::len word"
  shows "(e OR x) AND x = x" and "(e AND NOT x) AND x = 0"
    and "x AND y = 0 \<Longrightarrow> (e OR x) AND y = e AND y" and "x AND y = 0 \<Longrightarrow> (e AND NOT x) AND y = e AND y"
  by (auto simp: bit_eq_iff bit_simps)

lemma event_masks: "kReadEvent AND kWriteEvent = 0" "kWriteEvent AND kReadEvent = 0" "kReadEvent \<noteq> 0" "kWriteEvent \<noteq> 0"
  by (simp_all add: event_defs)

lemma event_bits [simp]:
  "isReading (ch\<lparr>events := e OR kReadEvent, addedToLoop := a, index := i\<rparr>)"
  "isWriting (ch\<lparr>events := e OR kWriteEvent, addedToLoop := a, index := i\<rparr>)"
  "\<not> isReading (ch\<lparr>events := e AND NOT kReadEvent, addedToLoop := a, index := i\<rparr>)"
  "\<not> isWriting (ch\<lparr>events := e AND NOT kWriteEvent, addedToLoop := a, index := i\<rparr>)"
  "isWriting (ch\<lparr>events := e OR kReadEvent, addedToLoop := a, index := i\<rparr>) = (e AND kWriteEvent \<noteq> 0)"
  "isWriting (ch\<lparr>events := e AND NOT kReadEvent, addedToLoop := a, index := i\<rparr>) = (e AND kWriteEvent \<noteq> 0)"
  "isReading (ch\<lparr>events := e OR kWriteEvent, addedToLoop := a, index := i\<rparr>) = (e AND kReadEvent \<noteq> 0)"
  "isReading (ch\<lparr>events := e AND NOT kWriteEvent, addedToLoop := a, index := i\<rparr>) = (e AND kReadEvent \<noteq> 0)"
  by (simp_all add: isReading_def isWriting_def word_mask event_masks)

subsection \<open>Operations keep the invariant\<close>

lemma lawsD:
  assumes "buffer_laws B"
  shows "readableBytes B b = length (peek B b)" "peek B (append_data B b xs) = peek B b @ xs"
    "peek B (retrieve B b n) = drop n (peek B b)" "peek B (retrieveAll B b) = []"
  using assms by (simp_all add: buffer_laws_def)

text \<open>What \<open>write\<close> can return to \<open>sendInLoop\<close>: no more than asked, and \<open>EPIPE\<close> after a shutdown.\<close>

definition write_ok :: "errno + nat \<Rightarrow> bytes \<Rightarrow> ('b, 'u) conn_world \<Rightarrow> bool" where
  "write_ok wr data w \<longleftrightarrow> (\<forall>n. wr = Inr n \<longrightarrow> n \<le> length data) \<and> (write_shut w \<longrightarrow> wr = Inl EPIPE)"

text \<open>The peer is gone: a direct write failed with \<open>EPIPE\<close> or \<open>ECONNRESET\<close>.\<close>

definition peer_gone :: "'b buffer_ops \<Rightarrow> errno + nat \<Rightarrow> ('b, 'u) conn_world \<Rightarrow> bool" where
  "peer_gone B wr w \<longleftrightarrow> peek B (outputBuffer w) = [] \<and> (wr = Inl EPIPE \<or> wr = Inl ECONNRESET)"

lemma conn_okD:
  assumes "conn_ok B w ch"
  shows "conn_static w ch" "state w \<noteq> kConnecting" "state w = kDisconnected \<Longrightarrow> isNoneEvent ch"
    "live w \<Longrightarrow> isWriting ch = (peek B (outputBuffer w) \<noteq> [])" "live w \<Longrightarrow> isReading ch = reading w"
    "live w \<Longrightarrow> write_shut w \<Longrightarrow> peek B (outputBuffer w) = []"
  using assms by (simp_all add: conn_ok_def)

lemma conn_okI:
  assumes "conn_static w ch" and "state w \<noteq> kConnecting" and "state w = kDisconnected \<Longrightarrow> isNoneEvent ch"
    and "live w \<Longrightarrow> isWriting ch = (peek B (outputBuffer w) \<noteq> [])" and "live w \<Longrightarrow> isReading ch = reading w"
    and "live w \<Longrightarrow> write_shut w \<Longrightarrow> peek B (outputBuffer w) = []"
  shows "conn_ok B w ch"
  using assms by (simp add: conn_ok_def)

lemma live_down: "live w \<Longrightarrow> state w \<noteq> kDisconnected"
  by (auto simp: live_def)

lemma conn_static_cong:
  "self w' = self w \<Longrightarrow> use_count w' = use_count w \<Longrightarrow> connectionCallback w' = connectionCallback w
   \<Longrightarrow> messageCallback w' = messageCallback w \<Longrightarrow> connCloseCallback w' = connCloseCallback w
   \<Longrightarrow> conn_static w' ch = conn_static w ch"
  by (simp add: conn_static_def)

lemma conn_static_events [simp]:
  "conn_static w ch \<Longrightarrow> conn_static w (ch\<lparr>events := e, addedToLoop := True, index := i\<rparr>)"
  by (simp add: conn_static_def)

lemma live_iff: "live w \<longleftrightarrow> state w \<noteq> kDisconnected \<and> state w \<noteq> kConnecting"
  by (cases "state w") (simp_all add: live_def)

lemma live_or_down: "conn_ok B w ch \<Longrightarrow> state w \<noteq> kDisconnected \<Longrightarrow> live w"
  by (cases "state w") (auto simp: conn_ok_def live_def)

text \<open>The direct write of \<open>sendInLoop\<close> puts \<open>xs\<close> on the wire and leaves everything else.\<close>

definition sent :: "bytes \<Rightarrow> ('b, 'u) conn_world \<Rightarrow> ('b, 'u) conn_world \<Rightarrow> bool" where
  "sent xs w w1 \<longleftrightarrow> chans w1 = chans w \<and> channels w1 = channels w \<and> interest w1 = interest w \<and> ctl_rets w1 = ctl_rets w
     \<and> this w1 = this w \<and> use_count w1 = use_count w \<and> state w1 = state w \<and> self w1 = self w \<and> reading w1 = reading w
     \<and> channel w1 = channel w \<and> connectionCallback w1 = connectionCallback w \<and> messageCallback w1 = messageCallback w
     \<and> connCloseCallback w1 = connCloseCallback w \<and> outputBuffer w1 = outputBuffer w \<and> write_shut w1 = write_shut w
     \<and> wire w1 = wire w @ xs"

lemma send_direct_ok:
  assumes laws: "buffer_laws B" and ok: "conn_ok B w ch" and live: "live w" and wr: "write_ok wr data w"
    and d: "send_direct B wr data ch w = (w1, nw, fault)"
  shows "sent (take nw data) w w1" "nw \<le> length data" "nw \<noteq> 0 \<Longrightarrow> peek B (outputBuffer w) = []"
    "fault = peer_gone B wr w" "fault \<Longrightarrow> nw = 0" "write_shut w \<Longrightarrow> fault"
proof -
  have wt: "isWriting ch = (peek B (outputBuffer w) \<noteq> [])" "write_shut w \<longrightarrow> peek B (outputBuffer w) = []"
    using ok live by (simp_all add: conn_ok_def)
  note laws = lawsD [OF laws]
  show "sent (take nw data) w w1"
    unfolding sent_def using d by (auto simp: send_direct_def Let_def split: if_splits sum.splits option.splits)
  show "nw \<le> length data" "nw \<noteq> 0 \<Longrightarrow> peek B (outputBuffer w) = []"
      "fault = peer_gone B wr w" "fault \<Longrightarrow> nw = 0" "write_shut w \<Longrightarrow> fault"
    using d wr wt by (auto simp: send_direct_def Let_def write_ok_def peer_gone_def laws errno_defs
        split: if_splits sum.splits option.splits)
qed

text \<open>The rest goes to the output buffer, and the channel waits until it can be written.\<close>

lemma send_rest_queues:
  assumes laws: "buffer_laws B" and ch: "linv {} w" "fd_owner (channel w) w" "chans w (channel w) = Some ch" "conn_ok B w ch"
    and live: "live w" and ws: "\<not> write_shut w" and s: "sent (take nw data) w w1" and nw: "nw < length data"
    and first: "nw \<noteq> 0 \<Longrightarrow> peek B (outputBuffer w) = []"
  shows "\<exists>w'. send_rest B data ch nw False w1 = Some w' \<and> cstep B w w' \<and> state w' = state w \<and> stream B w' = stream B w @ data"
proof -
  note laws = lawsD [OF laws]
  note w1 = s [unfolded sent_def]
  let ?q = "case highWaterMarkCallback w1 of
      Some u \<Rightarrow> if readableBytes B (outputBuffer w1) + (length data - nw) \<ge> highWaterMark w1
                then queueInLoop True (Functor (HighWaterMark u (readableBytes B (outputBuffer w1) + (length data - nw)))) w1
                else w1
    | None \<Rightarrow> w1"
  define w2 where "w2 = ?q\<lparr>outputBuffer := append_data B (outputBuffer ?q) (drop nw data)\<rparr>"
  have w2: "chans w2 = chans w" "channels w2 = channels w" "interest w2 = interest w" "ctl_rets w2 = ctl_rets w"
      "this w2 = this w" "use_count w2 = use_count w" "state w2 = state w" "self w2 = self w" "reading w2 = reading w"
      "channel w2 = channel w" "connectionCallback w2 = connectionCallback w" "messageCallback w2 = messageCallback w"
      "connCloseCallback w2 = connCloseCallback w" "write_shut w2 = write_shut w"
      "wire w2 = wire w @ take nw data" "peek B (outputBuffer w2) = peek B (outputBuffer w) @ drop nw data"
    by (auto simp: w2_def w1 laws split: option.splits)
  have linv2: "linv {} w2" using ch(1) linv_cong [of w2 w] w2 by simp
  have own2: "fd_owner (channel w2) w2" using ch(2) by (simp add: fd_owner_def w2)
  have st: "stream B w2 = stream B w @ data" using first by (cases "nw = 0") (auto simp: stream_def w2)
  have s2: "send_rest B data ch nw False w1 = (if \<not> isWriting ch then enableWriting updateChannel (channel w2) w2 else Some w2)"
    using nw by (simp add: send_rest_def Let_def w2_def)
  have ch2: "chans w2 (channel w2) = Some ch" using ch(3) by (simp add: w2)
  have out: "peek B (outputBuffer w2) \<noteq> []" using nw by (simp add: w2)
  have up: "state w \<noteq> kDisconnected" by (rule live_down [OF live])
  show ?thesis
  proof (cases "isWriting ch")
    case wting: True
    have "conn_ok B w2 ch"
      using conn_okD [OF ch(4)] wting out ws live by (intro conn_okI) (simp_all add: conn_static_def live_iff w2)
    then have "cstep B w w2"
      using st ch(3) up by (intro cstepI [OF linv2 own2 ch2, where xs = data and ys = "take nw data" and old = ch]) (simp_all add: w2)
    with s2 wting st show ?thesis by (auto simp: w2)
  next
    case idle: False
    from conn_set_events [OF linv2 own2 ch2, of "\<lambda>e. e OR kWriteEvent"] obtain w' i where
      w': "enableWriting updateChannel (channel w2) w2 = Some w'" "poller_update w2 w'" "linv {} w'"
        "fd_owner (channel w2) w'"
        "chans w' (channel w2) = Some (ch\<lparr>events := events ch OR kWriteEvent, addedToLoop := True, index := i\<rparr>)"
      by (auto simp: set_events_ops)
    note f = poller_update_frame [OF w'(2)]
    have "conn_ok B w' (ch\<lparr>events := events ch OR kWriteEvent, addedToLoop := True, index := i\<rparr>)"
      using conn_okD [OF ch(4)] out ws live up
      by (intro conn_okI) (simp_all add: conn_static_def isReading_def [symmetric] live_iff w2 f)
    then have "cstep B w w'"
      using cstepI [of w' _ B w data "take nw data" ch] ch(3) w' st up by (auto simp: f w2 stream_def)
    with s2 idle w'(1) st show ?thesis by (auto simp: f w2 stream_def)
  qed
qed

lemma sendInLoop_ok:
  assumes laws: "buffer_laws B" and inv: "cinv B w" and wr: "write_ok wr data w"
  shows "\<exists>w'. sendInLoop B wr data w = Some w' \<and> cstep B w w' \<and> state w' = state w
    \<and> stream B w' = stream B w @ (if state w = kDisconnected \<or> peer_gone B wr w then [] else data)"
proof (cases "state w = kDisconnected")
  case True
  then show ?thesis using cstep_refl [OF inv] by (simp add: sendInLoop_def)
next
  case up: False
  from inv obtain ch where ch: "linv {} w" "fd_owner (channel w) w" "chans w (channel w) = Some ch" "conn_ok B w ch"
    by (rule cinvE)
  have live: "live w" by (rule live_or_down [OF ch(4) up])
  obtain w1 nw fault where d: "send_direct B wr data ch w = (w1, nw, fault)" by (cases "send_direct B wr data ch w") auto
  note s = send_direct_ok [OF laws ch(4) live wr d]
  note w1 = s(1) [unfolded sent_def]
  have eq: "sendInLoop B wr data w = send_rest B data ch nw fault w1"
    using up ch(3) d by (simp add: sendInLoop_def)
  show ?thesis
  proof (cases "\<not> fault \<and> nw < length data")
    case False
    then have "sendInLoop B wr data w = Some w1" using s(2) by (auto simp: eq send_rest_def Let_def)
    moreover have "stream B w1 = stream B w @ (if peer_gone B wr w then [] else data)"
      using False s(2-5) by (cases "data = []") (auto simp: stream_def w1 not_less dest!: antisym)
    moreover have "conn_ok B w1 ch"
      using conn_okD [OF ch(4)] by (intro conn_okI) (simp_all add: conn_static_def live_def w1)
    moreover have "linv {} w1" using ch(1) linv_cong [of w1 w] w1 by simp
    moreover have "fd_owner (channel w) w1" using ch(2) by (simp add: fd_owner_def w1)
    ultimately show ?thesis using cstepI [of w1 ch B w] ch(3) w1 up by auto
  next
    case True
    then have "\<not> write_shut w" "\<not> peer_gone B wr w" using s(4,6) by auto
    with send_rest_queues [OF laws ch live _ s(1) _ s(3)] True up show ?thesis by (simp add: eq)
  qed
qed

lemma conn_update:
  fixes u :: "('b, 'u) conn_world"
  assumes "linv {} u" and "fd_owner (channel u) u" and "chans u (channel u) = Some ch"
    and ok: "\<And>w' i. poller_update u w' \<Longrightarrow> conn_ok B w' (ch\<lparr>events := f (events ch), addedToLoop := True, index := i\<rparr>)"
    and "stream B u = stream B w @ xs" and "wire u = wire w @ ys" and "state w = kDisconnected \<Longrightarrow> state u = kDisconnected"
    and "channel u = channel w" and "chans w (channel w) = Some ch"
    and "self u = self w" and "use_count u = use_count w"
  shows "\<exists>w'. set_events updateChannel f (channel u) u = Some w' \<and> cstep B w w' \<and> poller_update u w'"
proof -
  from conn_set_events [OF assms(1-3), of f] obtain w' i where
    w': "set_events updateChannel f (channel u) u = Some w'" "poller_update u w'" "linv {} w'" "fd_owner (channel u) w'"
      "chans w' (channel u) = Some (ch\<lparr>events := f (events ch), addedToLoop := True, index := i\<rparr>)"
    by blast
  note fr = poller_update_frame [OF w'(2)]
  have "cstep B w w'"
    using cstepI [of w' _ B w xs ys ch] w' ok [OF w'(2), of i] assms(5-11) by (simp add: fr stream_def)
  with w' show ?thesis by blast
qed

lemma shutdownInLoop_ok:
  assumes inv: "cinv B w"
  shows "\<exists>w'. shutdownInLoop w = Some w' \<and> cstep B w w' \<and> state w' = state w
    \<and> stream B w' = stream B w"
proof -
  from inv obtain ch where ch: "linv {} w" "fd_owner (channel w) w" "chans w (channel w) = Some ch" "conn_ok B w ch"
    by (rule cinvE)
  show ?thesis
  proof (cases "isWriting ch")
    case True
    with ch(3) show ?thesis using cstep_refl [OF inv] by (simp add: shutdownInLoop_def)
  next
    case False
    let ?w = "w\<lparr>write_shut := True\<rparr>"
    have "linv {} ?w" using ch(1) linv_cong [of ?w w] by simp
    moreover have "conn_ok B ?w ch"
      using conn_okD [OF ch(4)] False by (intro conn_okI) (simp_all add: conn_static_def live_def)
    ultimately have "cstep B w ?w"
      using cstepI [of ?w ch B w "[]" "[]"] ch(2,3) by (simp add: fd_owner_def stream_def)
    with ch(3) False show ?thesis by (simp add: shutdownInLoop_def stream_def)
  qed
qed

lemma startReadInLoop_ok:
  assumes inv: "cinv B w" and live: "live w"
  shows "\<exists>w'. startReadInLoop w = Some w' \<and> cstep B w w' \<and> state w' = state w"
proof -
  from inv obtain ch where ch: "linv {} w" "fd_owner (channel w) w" "chans w (channel w) = Some ch" "conn_ok B w ch"
    by (rule cinvE)
  show ?thesis
  proof (cases "reading w")
    case True
    with ch(3,4) live show ?thesis using cstep_refl [OF inv] by (auto simp: startReadInLoop_def conn_ok_def)
  next
    case False
    from conn_set_events [OF ch(1-3), of "\<lambda>e. e OR kReadEvent"] obtain w' i where
      w': "enableReading updateChannel (channel w) w = Some w'" "poller_update w w'" "linv {} w'" "fd_owner (channel w) w'"
        "chans w' (channel w) = Some (ch\<lparr>events := events ch OR kReadEvent, addedToLoop := True, index := i\<rparr>)"
      by (auto simp: set_events_ops)
    let ?c = "ch\<lparr>events := events ch OR kReadEvent, addedToLoop := True, index := i\<rparr>"
    note fr = poller_update_frame [OF w'(2)]
    let ?w = "w'\<lparr>reading := True\<rparr>"
    have "linv {} ?w" using w'(3) linv_cong [of ?w w'] by simp
    moreover have "conn_ok B ?w ?c"
      using conn_okD [OF ch(4)] live live_down [OF live]
      by (intro conn_okI) (simp_all add: conn_static_def live_iff fr isWriting_def [symmetric])
    moreover have "fd_owner (channel ?w) ?w" using w'(4) by (simp add: fr fd_owner_def)
    ultimately have "cstep B w ?w"
      using w'(5) ch(3) by (intro cstepI [of ?w ?c B w "[]" "[]" ch]) (simp_all add: fr stream_def)
    with ch(3) False w'(1) show ?thesis by (auto simp: startReadInLoop_def fr)
  qed
qed

lemma stopReadInLoop_ok:
  assumes inv: "cinv B w"
  shows "\<exists>w'. stopReadInLoop w = Some w' \<and> cstep B w w' \<and> state w' = state w"
proof -
  from inv obtain ch where ch: "linv {} w" "fd_owner (channel w) w" "chans w (channel w) = Some ch" "conn_ok B w ch"
    by (rule cinvE)
  show ?thesis
  proof (cases "reading w \<or> isReading ch")
    case False
    with ch(3) show ?thesis using cstep_refl [OF inv] by (auto simp: stopReadInLoop_def)
  next
    case True
    from conn_set_events [OF ch(1-3), of "\<lambda>e. e AND NOT kReadEvent"] obtain w' i where
      w': "disableReading updateChannel (channel w) w = Some w'" "poller_update w w'" "linv {} w'" "fd_owner (channel w) w'"
        "chans w' (channel w) = Some (ch\<lparr>events := events ch AND NOT kReadEvent, addedToLoop := True, index := i\<rparr>)"
      by (auto simp: set_events_ops)
    let ?c = "ch\<lparr>events := events ch AND NOT kReadEvent, addedToLoop := True, index := i\<rparr>"
    note fr = poller_update_frame [OF w'(2)]
    let ?w = "w'\<lparr>reading := False\<rparr>"
    have "linv {} ?w" using w'(3) linv_cong [of ?w w'] by simp
    moreover have "conn_ok B ?w ?c"
      using conn_okD [OF ch(4)]
      by (intro conn_okI)
        (simp_all add: conn_static_def live_iff fr isWriting_def [symmetric] isNoneEvent_def kNoneEvent_def)
    moreover have "fd_owner (channel ?w) ?w" using w'(4) by (simp add: fr fd_owner_def)
    ultimately have "cstep B w ?w"
      using w'(5) ch(3) by (intro cstepI [of ?w ?c B w "[]" "[]" ch]) (simp_all add: fr stream_def)
    with ch(3) True w'(1) show ?thesis by (auto simp: stopReadInLoop_def fr)
  qed
qed

lemma cinv_queue: "cinv B w \<Longrightarrow> cinv B (queueInLoop b f w)"
  using linv_cong [of "queueInLoop b f w" w "{}"]
  by (auto simp: cinv_def conn_ok_def conn_static_def live_def fd_owner_def)

lemma cstep_queue: "cstep B w w' \<Longrightarrow> cstep B w (queueInLoop b f w')"
  using cinv_queue by (auto simp: cstep_def stream_def conn_revents_def)

text \<open>The end of \<open>handleWrite\<close> when the buffer has run empty.\<close>

lemma write_complete_ok:
  assumes "cstep B w w1"
  shows "\<exists>w'. (let v = (case writeCompleteCallback w1 of
                   Some u \<Rightarrow> queueInLoop True (Functor (WriteComplete u)) w1 | None \<Rightarrow> w1)
         in if state v = kDisconnecting then shutdownInLoop v else Some v) = Some w'
      \<and> cstep B w w' \<and> state w' = state w1 \<and> stream B w' = stream B w1"
proof -
  define v where "v = (case writeCompleteCallback w1 of
                   Some u \<Rightarrow> queueInLoop True (Functor (WriteComplete u)) w1 | None \<Rightarrow> w1)"
  have v: "cstep B w v" "state v = state w1" "stream B v = stream B w1"
    using cstep_queue [OF assms] assms by (auto simp: v_def stream_def split: option.splits)
  from shutdownInLoop_ok [OF cstep_cinv [OF v(1)]] obtain w' where
    "shutdownInLoop v = Some w'" "cstep B v w'" "state w' = state v" "stream B w' = stream B v" by blast
  with v cstep_trans [OF v(1)] show ?thesis unfolding v_def [symmetric] Let_def by auto
qed

lemma handleWrite_ok:
  assumes laws: "buffer_laws B" and inv: "cinv B w"
  shows "\<exists>w'. handleWrite B wr w = Some w' \<and> cstep B w w' \<and> state w' = state w \<and> stream B w' = stream B w"
proof -
  from inv obtain ch where ch: "linv {} w" "fd_owner (channel w) w" "chans w (channel w) = Some ch" "conn_ok B w ch"
    by (rule cinvE)
  note laws = lawsD [OF laws]
  show ?thesis
  proof (cases "isWriting ch \<and> (\<exists>n. wr = Inr n \<and> 0 < n)")
    case False
    with ch(3) show ?thesis using cstep_refl [OF inv]
      by (auto simp: handleWrite_def split: sum.splits)
  next
    case True
    then obtain n where wr: "wr = Inr n" "0 < n" "isWriting ch" by blast
    have live: "live w"
      using conn_okD(2,3) [OF ch(4)] wr(3) by (auto simp: live_iff isNoneEvent_def isWriting_def kNoneEvent_def)
    let ?u = "w\<lparr>wire := wire w @ take n (peek B (outputBuffer w)), outputBuffer := retrieve B (outputBuffer w) n\<rparr>"
    have linv: "linv {} ?u" using ch(1) linv_cong [of ?u w] by simp
    have own: "fd_owner (channel ?u) ?u" using ch(2) by (simp add: fd_owner_def)
    have cu: "chans ?u (channel ?u) = Some ch" using ch(3) by simp
    have st: "stream B ?u = stream B w" by (simp add: stream_def laws)
    have ws: "\<not> write_shut w" using conn_okD(4,6) [OF ch(4) live] wr(3) by blast
    show ?thesis
    proof (cases "length (peek B (outputBuffer w)) \<le> n")
      case False
      have "conn_ok B ?u ch"
        using conn_okD [OF ch(4)] live live_down [OF live] wr(3) ws False
        by (intro conn_okI) (simp_all add: conn_static_def live_iff laws)
      then have "cstep B w ?u"
        using st cstepI [OF linv own cu, of B w "[]" "take n (peek B (outputBuffer w))" ch] ch(3) by simp
      with wr ch(3) False st show ?thesis by (auto simp: handleWrite_def laws)
    next
      case empties: True
      have "conn_ok B w' (ch\<lparr>events := events ch AND NOT kWriteEvent, addedToLoop := True, index := i\<rparr>)"
        if "poller_update ?u w'" for w' i
        using conn_okD [OF ch(4)] live live_down [OF live] ws empties
        by (intro conn_okI)
          (simp_all add: conn_static_def live_iff laws poller_update_frame [OF that] isReading_def [symmetric])
      from conn_update [where f = "\<lambda>e. e AND NOT kWriteEvent" and w = w and xs = "[]"
          and ys = "take n (peek B (outputBuffer w))", OF linv own cu this] st ch(3)
      obtain w1 where w1: "disableWriting updateChannel (channel ?u) ?u = Some w1" "cstep B w w1" "poller_update ?u w1"
        unfolding set_events_ops by auto
      note fr = poller_update_frame [OF w1(3)]
      from write_complete_ok [OF w1(2)] obtain w' where
        w': "(let v = (case writeCompleteCallback w1 of
                   Some u \<Rightarrow> queueInLoop True (Functor (WriteComplete u)) w1 | None \<Rightarrow> w1)
           in if state v = kDisconnecting then shutdownInLoop v else Some v) = Some w'"
          "cstep B w w'" "state w' = state w1" "stream B w' = stream B w1" by blast
      have "stream B w' = stream B w" using w'(4) st by (simp add: stream_def fr)
      moreover have "handleWrite B wr w = Some w'"
        using wr ch(3) empties w1(1) w'(1) by (simp add: handleWrite_def laws Let_def)
      ultimately show ?thesis using w' by (simp add: fr)
    qed
  qed
qed

subsection \<open>The contract of the user's callbacks\<close>

text \<open>A callback may do anything that keeps the invariant, the bytes already taken, and a closed
  connection closed.\<close>

locale conn_user =
  fixes B :: "'b buffer_ops" and run_user :: "'u \<Rightarrow> ('b, 'u) conn_op"
  assumes user_ok: "buffer_laws B \<Longrightarrow> cinv B w \<Longrightarrow> \<exists>w'. run_user u w = Some w' \<and> cstep B w w'"
begin

lemma call_user_ok:
  "buffer_laws B \<Longrightarrow> cinv B w \<Longrightarrow> cb \<noteq> None \<Longrightarrow> \<exists>w'. call_user run_user cb w = Some w' \<and> cstep B w w'"
  using user_ok by (auto simp: call_user_def)

lemma handleClose_ok:
  assumes laws: "buffer_laws B" and inv: "cinv B w" and live: "live w"
  shows "\<exists>w'. handleClose run_user w = Some w' \<and> cstep B w w' \<and> state w' = kDisconnected"
proof -
  from inv obtain ch where ch: "linv {} w" "fd_owner (channel w) w" "chans w (channel w) = Some ch" "conn_ok B w ch"
    by (rule cinvE)
  let ?u = "setState kDisconnected w"
  have linv: "linv {} ?u" using ch(1) linv_cong [of ?u w] by (simp add: setState_def)
  have own: "fd_owner (channel ?u) ?u" using ch(2) by (simp add: fd_owner_def setState_def)
  have cu: "chans ?u (channel ?u) = Some ch" using ch(3) by (simp add: setState_def)
  have "conn_ok B w' (ch\<lparr>events := kNoneEvent, addedToLoop := True, index := i\<rparr>)" if "poller_update ?u w'" for w' i
    using conn_okD [OF ch(4)]
    by (intro conn_okI) (simp_all add: conn_static_def poller_update_frame [OF that] setState_def isNoneEvent_def live_iff)
  from conn_update [OF linv own cu this, where w = w and xs = "[]" and ys = "[]"] ch(3)
  obtain w1 where w1: "disableAll updateChannel (channel w) ?u = Some w1" "cstep B w w1" "poller_update ?u w1"
    unfolding set_events_ops by (auto simp: setState_def stream_def)
  note fr = poller_update_frame [OF w1(3)]
  have cb: "connectionCallback w1 \<noteq> None"
    using conn_okD(1) [OF ch(4)] by (simp add: fr setState_def conn_static_def)
  obtain w2 where w2: "call_user run_user (connectionCallback w1) w1 = Some w2" "cstep B w1 w2"
    using call_user_ok [OF laws cstep_cinv [OF w1(2)] cb] by blast
  have cb2: "connCloseCallback w2 \<noteq> None"
    using cstep_cinv [OF w2(2)] by (auto simp: cinv_def conn_ok_def conn_static_def)
  obtain w3 where w3: "call_user run_user (connCloseCallback w2) w2 = Some w3" "cstep B w2 w3"
    using call_user_ok [OF laws cstep_cinv [OF w2(2)] cb2] by blast
  have "state w3 = kDisconnected" using w2(2) w3(2) by (simp add: cstep_def fr setState_def)
  moreover have "handleClose run_user w = Some w3"
    using live w1(1) w2(1) w3(1) by (simp add: handleClose_def live_def Let_def setState_def)
  moreover have "cstep B w w3" using w1(2) w2(2) w3(2) cstep_trans by blast
  ultimately show ?thesis by blast
qed

lemma forceCloseInLoop_ok:
  assumes "buffer_laws B" and "cinv B w"
  shows "\<exists>w'. forceCloseInLoop run_user w = Some w' \<and> cstep B w w'"
  using handleClose_ok [OF assms] cstep_refl [OF assms(2)] by (auto simp: forceCloseInLoop_def live_def)

lemma cinv_input: "cinv B w \<Longrightarrow> cinv B (w\<lparr>inputBuffer := b\<rparr>)"
  using linv_cong [of "w\<lparr>inputBuffer := b\<rparr>" w "{}"]
  by (auto simp: cinv_def conn_ok_def conn_static_def live_def fd_owner_def)

lemma handleRead_ok:
  assumes laws: "buffer_laws B" and inv: "cinv B w" and live: "live w"
  shows "\<exists>w'. handleRead B run_user rd w = Some w' \<and> cstep B w w'"
proof (cases rd)
  case (Inl e)
  then show ?thesis using cstep_refl [OF inv] by (simp add: handleRead_def handleError_def)
next
  case (Inr data)
  let ?w = "w\<lparr>inputBuffer := append_data B (inputBuffer w) data\<rparr>"
  have "messageCallback w \<noteq> None" using inv by (auto simp: cinv_def conn_ok_def conn_static_def)
  then obtain w' where "call_user run_user (messageCallback w) ?w = Some w'" "cstep B ?w w'"
    using call_user_ok [OF laws cinv_input [OF inv], of "messageCallback w"] by blast
  with Inr handleClose_ok [OF laws inv live] show ?thesis
    by (auto simp: handleRead_def cstep_def stream_def conn_revents_def)
qed

end

subsection \<open>User callbacks as scripts\<close>

text \<open>
  What a user calls from a callback or another thread (the flag tells which), with what \<open>write\<close>
  returns; \<open>DestroyLater\<close> is what the close callbacks of the server and the client queue. \<open>act_ok\<close> is
  the user's protocol: no \<open>shutdown\<close> and no \<open>startRead\<close> of a connection that is down.
\<close>

datatype act = Send bool bytes "errno + nat" | Shutdown bool | ForceClose bool | StartRead bool
  | StopRead bool | Consume nat | DestroyLater

fun act_ok :: "act \<Rightarrow> ('b, 'u) conn_world \<Rightarrow> bool" where
  "act_ok (Send in_loop data wr) w = write_ok wr data w"
| "act_ok (Shutdown in_loop) w = live w"
| "act_ok (StartRead in_loop) w = live w"
| "act_ok _ w = True"

definition writes :: "errno + nat \<Rightarrow> io" where
  "writes wr = \<lparr>write_result = wr, read_result = Inl 0\<rparr>"

fun do_act :: "'b buffer_ops \<Rightarrow> act \<Rightarrow> ('b, 'u) conn_op" where
  "do_act B (Send in_loop data wr) w = send (conn_call B (\<lambda>u w. None) (writes wr)) in_loop data w"
| "do_act B (Shutdown in_loop) w = shutdown (conn_call B (\<lambda>u w. None) (writes (Inl 0))) in_loop w"
| "do_act B (ForceClose in_loop) w = forceClose in_loop w"
| "do_act B (StartRead in_loop) w = startRead (conn_call B (\<lambda>u w. None) (writes (Inl 0))) in_loop w"
| "do_act B (StopRead in_loop) w = stopRead (conn_call B (\<lambda>u w. None) (writes (Inl 0))) in_loop w"
| "do_act B (Consume n) w = Some (w\<lparr>inputBuffer := retrieve B (inputBuffer w) n\<rparr>)"
| "do_act B DestroyLater w = Some (queueInLoop True (Functor ConnectDestroyed) w)"

text \<open>A callback does those of its calls that the protocol allows where it comes to them.\<close>

fun do_acts :: "'b buffer_ops \<Rightarrow> act list \<Rightarrow> ('b, 'u) conn_op" where
  "do_acts B [] w = Some w"
| "do_acts B (a # as) w =
     (if act_ok a w then do { w \<leftarrow> do_act B a w; do_acts B as w } else do_acts B as w)"

definition conn_script :: "'b buffer_ops \<Rightarrow> ('u \<Rightarrow> ('b, 'u) conn_world \<Rightarrow> act list) \<Rightarrow> 'u \<Rightarrow> ('b, 'u) conn_op" where
  "conn_script B script u w = do_acts B (script u w) w"

lemma setState_live:
  assumes inv: "cinv B w" and live: "live w"
  shows "cstep B w (w\<lparr>state := kDisconnecting\<rparr>)"
proof -
  from inv obtain ch where ch: "linv {} w" "fd_owner (channel w) w" "chans w (channel w) = Some ch" "conn_ok B w ch"
    by (rule cinvE)
  let ?w = "w\<lparr>state := kDisconnecting\<rparr>"
  have "linv {} ?w" using ch(1) linv_cong [of ?w w] by simp
  moreover have "conn_ok B ?w ch"
    using conn_okD [OF ch(4)] live by (intro conn_okI) (simp_all add: conn_static_def)
  ultimately show ?thesis
    using ch(2,3) live_down [OF live] by (intro cstepI [of ?w ch B w "[]" "[]" ch]) (simp_all add: fd_owner_def stream_def)
qed

lemma do_act_ok:
  assumes laws: "buffer_laws B" and inv: "cinv B w" and ok: "act_ok a w"
  shows "\<exists>w'. do_act B a w = Some w' \<and> cstep B w w'"
proof -
  have q: "cstep B w (queueInLoop b f w)" for b f using cstep_queue [OF cstep_refl [OF inv]] .
  show ?thesis
  proof (cases a)
    case (Send b data wr)
    with ok sendInLoop_ok [OF laws inv, of wr data] q cstep_refl [OF inv] show ?thesis
      by (auto simp: send_def run_in_loop_def runInLoop_def writes_def)
  next
    case (Shutdown b)
    with ok have live: "live w" by simp
    note st = setState_live [OF inv live]
    from shutdownInLoop_ok [OF cstep_cinv [OF st]] obtain w' where
      "shutdownInLoop (w\<lparr>state := kDisconnecting\<rparr>) = Some w'" "cstep B (w\<lparr>state := kDisconnecting\<rparr>) w'" by blast
    with Shutdown cstep_trans [OF st] cstep_queue [OF st] show ?thesis
      by (cases b) (auto simp: shutdown_def run_in_loop_def runInLoop_def setState_def)
  next
    case (ForceClose b)
    with cstep_queue [OF setState_live [OF inv]] cstep_refl [OF inv] show ?thesis
      by (auto simp: forceClose_def live_def setState_def)
  next
    case (StartRead b)
    with ok startReadInLoop_ok [OF inv] q show ?thesis
      by (cases b) (auto simp: startRead_def run_in_loop_def runInLoop_def)
  next
    case (StopRead b)
    with stopReadInLoop_ok [OF inv] q show ?thesis
      by (cases b) (auto simp: stopRead_def run_in_loop_def runInLoop_def)
  next
    case (Consume n)
    have "cinv B (w\<lparr>inputBuffer := b\<rparr>)" for b
      using inv linv_cong [of "w\<lparr>inputBuffer := b\<rparr>" w "{}"]
      by (auto simp: cinv_def conn_ok_def conn_static_def live_def fd_owner_def)
    then show ?thesis using Consume by (simp add: cstep_def stream_def conn_revents_def)
  next
    case DestroyLater
    with q show ?thesis by simp
  qed
qed

lemma do_acts_ok: "buffer_laws B \<Longrightarrow> cinv B w \<Longrightarrow> \<exists>w'. do_acts B as w = Some w' \<and> cstep B w w'"
proof (induction "as" arbitrary: w)
  case Nil
  then show ?case by (simp add: cstep_refl)
next
  case (Cons a "as")
  show ?case
  proof (cases "act_ok a w")
    case True
    from do_act_ok [OF Cons.prems True] obtain v where v: "do_act B a w = Some v" "cstep B w v" by blast
    from Cons.IH [OF Cons.prems(1) cstep_cinv [OF v(2)]] obtain w' where
      "do_acts B as v = Some w'" "cstep B v w'" by blast
    with True v cstep_trans [OF v(2)] show ?thesis by simp
  next
    case False
    with Cons show ?thesis by simp
  qed
qed

interpretation scripted_user: conn_user B "conn_script B script" for B script
  by unfold_locales (simp add: conn_script_def do_acts_ok)

subsection \<open>Events of the loop on the connection's channel\<close>

text \<open>
  The channel was reported with \<open>r\<close>: \<open>poll\<close> stores \<open>revents_\<close> and the loop calls \<open>handleEvent\<close>, with the
  connection's own handlers as callbacks. Nothing is destroyed, since the owner holds a reference.
\<close>

definition channel_event :: "'b buffer_ops \<Rightarrow> ('u \<Rightarrow> ('b, 'u) conn_op) \<Rightarrow> 32 word \<Rightarrow> timestamp \<Rightarrow> io \<Rightarrow> ('b, 'u) conn_op" where
  "channel_event B run_user r t io w =
     do { w \<leftarrow> modify_chan (channel w) (\<lambda>ch. ch\<lparr>revents := r\<rparr>) w;
          handleEvent (\<lambda>cb t. conn_call B run_user io cb) (\<lambda>p w. None) t (channel w) w }"

text \<open>Changes of a channel that its host does not see.\<close>

lemma cinv_touch:
  assumes inv: "cinv B w" and ch: "chans w (channel w) = Some ch"
    and same: "fd d = fd ch" "events d = events ch" "index d = index ch" "addedToLoop d = addedToLoop ch"
      "ownerLoop d = ownerLoop ch" "conn_static w d = conn_static w ch"
  shows "cinv B (w\<lparr>chans := (chans w)(channel w \<mapsto> d)\<rparr>)"
proof -
  let ?w = "w\<lparr>chans := (chans w)(channel w \<mapsto> d)\<rparr>"
  from inv obtain ch' where "linv {} w" "fd_owner (channel w) w" "chans w (channel w) = Some ch'" "conn_ok B w ch'"
    by (rule cinvE)
  then have c: "linv {} w" "fd_owner (channel w) w" "conn_ok B w ch" using ch by simp_all
  have "linv {} ?w" by (rule linv_touch [OF c(1) ch same(1-5)])
  moreover have "fd_owner (channel w) ?w" by (rule fd_owner_update [where c' = d, OF c(2) ch]) (simp_all add: same)
  moreover have "conn_static ?w d" using conn_okD(1) [OF c(3)] same(6) by (simp add: conn_static_def)
  then have "conn_ok B ?w d"
    using conn_okD [OF c(3)] same
    by (intro conn_okI) (simp_all add: live_def isWriting_def isReading_def isNoneEvent_def)
  ultimately show ?thesis by (simp add: cinv_def)
qed

context conn_user
begin

text \<open>One conditional of the dispatch: what it may call keeps the connection.\<close>

lemma call_if_ok:
  assumes laws: "buffer_laws B" and inv: "cinv B w"
    and static: "\<And>ch. chans w (channel w) = Some ch \<Longrightarrow> conn_static w ch \<Longrightarrow> sel ch = Some cb"
    and call: "cond (the (conn_revents w)) \<Longrightarrow> \<exists>w'. conn_call B run_user io cb w = Some w' \<and> cstep B w w'"
  shows "\<exists>w'. call_if (\<lambda>cb t. conn_call B run_user io cb) cond sel t (channel w) w = Some w' \<and> cstep B w w'"
proof -
  from inv obtain ch where ch: "chans w (channel w) = Some ch" "conn_ok B w ch" by (rule cinvE)
  have sel: "sel ch = Some cb" by (rule static [OF ch(1) conn_okD(1) [OF ch(2)]])
  show ?thesis
    using ch(1) sel call cstep_refl [OF inv] by (auto simp: call_if_def conn_revents_def)
qed

lemma guarded_event_ok:
  assumes laws: "buffer_laws B" and inv: "cinv B w" and rev: "conn_revents w = Some r"
    and live: "live w" and once: "\<not> (is_close r \<and> is_read r)"
  shows "\<exists>w'. handleEventWithGuard (\<lambda>cb t. conn_call B run_user io cb) t (channel w) w = Some w' \<and> cstep B w w'"
proof -
  let ?call = "\<lambda>cb (t::timestamp). conn_call B run_user io cb"
  from inv obtain ch where ch: "chans w (channel w) = Some ch" by (rule cinvE)
  let ?w0 = "w\<lparr>chans := (chans w)(channel w \<mapsto> ch\<lparr>eventHandling := True\<rparr>)\<rparr>"
  have inv0: "cinv B ?w0" by (rule cinv_touch [OF inv ch]) (simp_all add: conn_static_def)
  have rev0: "conn_revents ?w0 = Some r" "live ?w0" "channel ?w0 = channel w"
    using rev ch live by (simp_all add: conn_revents_def live_def)
  obtain w1 where w1: "call_if ?call is_close closeCallback t (channel ?w0) ?w0 = Some w1" "cstep B ?w0 w1"
    using call_if_ok [OF laws inv0, of closeCallback HandleClose is_close io t]
      handleClose_ok [OF laws inv0 rev0(2)] by (auto simp: conn_static_def)
  have live1: "live w1" if "is_read r"
  proof -
    have "w1 = ?w0"
      using w1(1) that once rev0 by (auto simp: call_if_def conn_revents_def bind_eq_Some_conv split: if_splits)
    with rev0 show ?thesis by simp
  qed
  have c1: "cinv B w1" "conn_revents w1 = Some r" "channel w1 = channel w"
    using w1(2) rev0 by (simp_all add: cstep_def)
  obtain w2 where w2: "call_if ?call is_error errorCallback t (channel w1) w1 = Some w2" "cstep B w1 w2"
    using call_if_ok [OF laws c1(1), of errorCallback HandleError is_error io t] cstep_refl [OF c1(1)]
    by (auto simp: conn_static_def handleError_def)
  have eq2: "w2 = w1"
    using w2(1) c1 by (auto simp: call_if_def handleError_def conn_static_def conn_ok_def bind_eq_Some_conv
        elim!: cinvE split: if_splits)
  obtain w3 where w3: "call_if ?call is_read readCallback t (channel w1) w1 = Some w3" "cstep B w1 w3"
    using call_if_ok [OF laws c1(1), of readCallback HandleRead is_read io t]
      handleRead_ok [OF laws c1(1) live1] c1(2) by (auto simp: conn_static_def)
  have c3: "cinv B w3" "channel w3 = channel w" using w3(2) c1 by (simp_all add: cstep_def)
  obtain w4 where w4: "call_if ?call is_write writeCallback t (channel w3) w3 = Some w4" "cstep B w3 w4"
    using call_if_ok [OF laws c3(1), of writeCallback HandleWrite is_write io t]
      handleWrite_ok [OF laws c3(1)] by (force simp: conn_static_def)
  have c4: "cinv B w4" "channel w4 = channel w" using w4(2) c3 by (simp_all add: cstep_def)
  from c4(1) obtain d where d: "chans w4 (channel w4) = Some d" by (rule cinvE)
  let ?w5 = "w4\<lparr>chans := (chans w4)(channel w4 \<mapsto> d\<lparr>eventHandling := False\<rparr>)\<rparr>"
  have inv5: "cinv B ?w5" by (rule cinv_touch [OF c4(1) d]) (simp_all add: conn_static_def)
  have s04: "cstep B ?w0 w4"
    using w1(2) w3(2) w4(2) cstep_trans by blast
  have "cstep B w ?w5"
    using s04 inv5 d ch by (simp add: cstep_def stream_def conn_revents_def)
  moreover have "handleEventWithGuard ?call t (channel w) w = Some ?w5"
    using ch w1(1) w2(1) w3(1) w4(1) d
    by (simp add: handleEventWithGuard_def eq2 c1(3) c3(2) c4(2))
  ultimately show ?thesis by blast
qed

end

text \<open>What events keep: the invariant, and every byte taken or written before.\<close>

definition keeps_bytes :: "'b buffer_ops \<Rightarrow> ('b, 'u) conn_world \<Rightarrow> ('b, 'u) conn_world \<Rightarrow> bool" where
  "keeps_bytes B w w' \<longleftrightarrow> cinv B w' \<and> (\<exists>xs. stream B w' = stream B w @ xs) \<and> (\<exists>ys. wire w' = wire w @ ys)"

lemma cstep_keeps_bytes: "cstep B w w' \<Longrightarrow> keeps_bytes B w w'"
  by (simp add: cstep_def keeps_bytes_def)

lemma cinv_use_count:
  assumes "cinv B w" and "0 < u (self w)"
  shows "cinv B (w\<lparr>use_count := u\<rparr>)"
proof -
  from assms(1) obtain ch where ch: "linv {} w" "fd_owner (channel w) w" "chans w (channel w) = Some ch" "conn_ok B w ch"
    by (rule cinvE)
  let ?w = "w\<lparr>use_count := u\<rparr>"
  have "conn_ok B ?w ch"
    using conn_okD [OF ch(4)] assms(2) by (intro conn_okI) (simp_all add: conn_static_def live_iff)
  moreover have "linv {} ?w" using ch(1) linv_cong [of ?w w] by simp
  ultimately show ?thesis using ch(2,3) by (simp add: cinv_def fd_owner_def)
qed

context conn_user
begin

lemma channel_event_ok:
  assumes laws: "buffer_laws B" and inv: "cinv B w" and live: "live w" and once: "\<not> (is_close r \<and> is_read r)"
  shows "\<exists>w'. channel_event B run_user r t io w = Some w' \<and> keeps_bytes B w w'"
proof -
  from inv obtain ch where ch: "chans w (channel w) = Some ch" "conn_ok B w ch" by (rule cinvE)
  note st = conn_okD(1) [OF ch(2)]
  let ?obj = "self w"
  let ?w1 = "w\<lparr>chans := (chans w)(channel w \<mapsto> ch\<lparr>revents := r\<rparr>)\<rparr>"
  have inv1: "cinv B ?w1" by (rule cinv_touch [OF inv ch(1)]) (simp_all add: conn_static_def)
  let ?w2 = "?w1\<lparr>use_count := (use_count w)(?obj := use_count w ?obj + 1)\<rparr>"
  have inv2: "cinv B ?w2" by (rule cinv_use_count [OF inv1]) simp
  have c2: "conn_revents ?w2 = Some r" "live ?w2" "channel ?w2 = channel w"
    using live by (simp_all add: conn_revents_def live_def)
  from guarded_event_ok [OF laws inv2 c2(1,2) once] obtain w3 where
    w3: "handleEventWithGuard (\<lambda>cb t. conn_call B run_user io cb) t (channel w) ?w2 = Some w3" "cstep B ?w2 w3"
    unfolding c2(3) by blast
  have c3: "use_count w ?obj + 1 \<le> use_count w3 ?obj" "self w3 = ?obj" "cinv B w3"
    using w3(2) by (simp_all add: cstep_def)
  have pos: "0 < use_count w ?obj" using st by (simp add: conn_static_def)
  let ?w4 = "w3\<lparr>use_count := (use_count w3)(?obj := use_count w3 ?obj - 1)\<rparr>"
  have inv4: "cinv B ?w4" by (rule cinv_use_count [OF c3(3)]) (use c3 pos in simp)
  have "release (\<lambda>p w. None) ?obj w3 = Some ?w4"
    using c3(1) pos by (simp add: release_def Let_def)
  then have "channel_event B run_user r t io w = Some ?w4"
    using ch(1) st pos w3(1) by (simp add: channel_event_def handleEvent_def lock_def conn_static_def)
  moreover have "keeps_bytes B w ?w4"
    using w3(2) inv4 by (simp add: keeps_bytes_def cstep_def stream_def)
  ultimately show ?thesis by blast
qed

lemma forceClose_ok:
  "cinv B w \<Longrightarrow> \<exists>w'. forceClose b w = Some w' \<and> cstep B w w'"
  using cstep_queue [OF setState_live] cstep_refl
  by (auto simp: forceClose_def live_def setState_def)

end

subsection \<open>The connection as a machine\<close>

text \<open>
  Calls of the user, functors the loop runs, and events on the channel. \<open>conn_event_ok\<close> is what the
  loop guarantees: events only for a connection that is not down (nothing is watched any more
  otherwise), no hang-up without data together with something to read, and \<open>write\<close>'s contract.
\<close>

datatype 'u conn_event = UserAct act | RunFunctor "'u conn_cb" io | ChannelEvent "32 word" timestamp io

fun conn_step :: "'b buffer_ops \<Rightarrow> ('u \<Rightarrow> ('b, 'u) conn_world \<Rightarrow> act list) \<Rightarrow> 'u conn_event \<Rightarrow> ('b, 'u) conn_op" where
  "conn_step B script (UserAct a) w = do_act B a w"
| "conn_step B script (RunFunctor cb io) w = conn_call B (conn_script B script) io cb w"
| "conn_step B script (ChannelEvent r t io) w = channel_event B (conn_script B script) r t io w"

fun functor_ok :: "'u conn_cb \<Rightarrow> io \<Rightarrow> ('b, 'u) conn_world \<Rightarrow> bool" where
  "functor_ok (SendInLoop data) io w = write_ok (write_result io) data w"
| "functor_ok StartReadInLoop io w = live w"
| "functor_ok ShutdownInLoop io w = True"
| "functor_ok ForceCloseInLoop io w = True"
| "functor_ok ForceCloseWeak io w = True"
| "functor_ok StopReadInLoop io w = True"
| "functor_ok (WriteComplete u) io w = True"
| "functor_ok (HighWaterMark u n) io w = True"
| "functor_ok (Other u) io w = True"
| "functor_ok _ io w = False"

fun conn_event_ok :: "'u conn_event \<Rightarrow> ('b, 'u) conn_world \<Rightarrow> bool" where
  "conn_event_ok (UserAct a) w = act_ok a w"
| "conn_event_ok (RunFunctor cb io) w = functor_ok cb io w"
| "conn_event_ok (ChannelEvent r t io) w = (live w \<and> \<not> (is_close r \<and> is_read r))"

lemma run_functor_ok:
  assumes laws: "buffer_laws B" and inv: "cinv B w" and ok: "functor_ok cb io w"
  shows "\<exists>w'. conn_call B (conn_script B script) io cb w = Some w' \<and> cstep B w w'"
proof (cases cb)
  case (SendInLoop d)
  with ok sendInLoop_ok [OF laws inv, of "write_result io" d] show ?thesis by auto
next
  case ShutdownInLoop
  with shutdownInLoop_ok [OF inv] show ?thesis by auto
next
  case ForceCloseInLoop
  with scripted_user.forceCloseInLoop_ok [OF laws inv] show ?thesis by simp
next
  case ForceCloseWeak
  with scripted_user.forceClose_ok [OF inv] cstep_refl [OF inv] show ?thesis by simp
next
  case StartReadInLoop
  with ok startReadInLoop_ok [OF inv] show ?thesis by auto
next
  case StopReadInLoop
  with stopReadInLoop_ok [OF inv] show ?thesis by auto
qed (use ok scripted_user.user_ok [OF laws inv] in simp_all)

lemma conn_step_ok:
  assumes laws: "buffer_laws B" and inv: "cinv B w" and ok: "conn_event_ok e w"
  shows "\<exists>w'. conn_step B script e w = Some w' \<and> keeps_bytes B w w'"
proof (cases e)
  case (UserAct a)
  with ok do_act_ok [OF laws inv, of a] cstep_keeps_bytes show ?thesis by auto
next
  case (RunFunctor cb io)
  with ok run_functor_ok [OF laws inv, of cb io script] cstep_keeps_bytes show ?thesis by auto
next
  case (ChannelEvent r t io)
  with ok scripted_user.channel_event_ok [OF laws inv] show ?thesis by simp
qed

interpretation conn: safe_machine_with "conn_step B script" conn_event_ok "\<lambda>w. buffer_laws B \<and> cinv B w"
    "\<lambda>w. (\<exists>xs. stream B w = s @ xs) \<and> (\<exists>ys. wire w = v @ ys)" for B script s v
proof (unfold_locales, goal_cases)
  case (1 w e)
  then show ?case using conn_step_ok by (fastforce simp: keeps_bytes_def)
next
  case (2 w e w')
  then obtain w1 where "conn_step B script e w = Some w1" "keeps_bytes B w w1"
    using conn_step_ok by blast
  with 2 show ?case by (auto simp: keeps_bytes_def)
qed

subsection \<open>A new connection\<close>

text \<open>What the server has done to a connection before it calls \<open>connectEstablished\<close>.\<close>

definition ready :: "'b buffer_ops \<Rightarrow> ('b, 'u) conn_world \<Rightarrow> bool" where
  "ready B w \<longleftrightarrow> linv {} w \<and> fd_owner (channel w) w \<and> state w = kConnecting \<and> reading w
     \<and> \<not> write_shut w \<and> peek B (outputBuffer w) = [] \<and> 0 < use_count w (self w)
     \<and> connectionCallback w \<noteq> None \<and> messageCallback w \<noteq> None \<and> connCloseCallback w \<noteq> None
     \<and> (\<exists>ch. chans w (channel w) = Some ch \<and> events ch = 0 \<and> readCallback ch = Some HandleRead
          \<and> writeCallback ch = Some HandleWrite \<and> closeCallback ch = Some HandleClose
          \<and> errorCallback ch = Some HandleError)"

lemma linv_tie:
  assumes inv: "linv {} w" and ch: "chans w p = Some ch"
  shows "linv {} (w\<lparr>chans := (chans w)(p \<mapsto> tie obj ch)\<rparr>)"
  by (rule linv_touch [OF inv ch]) (simp_all add: tie_def)

context conn_user
begin

lemma connectEstablished_eq:
  assumes rdy: "ready B w"
  shows "\<exists>v. connectEstablished run_user w = call_user run_user (connectionCallback v) v \<and> cinv B v
    \<and> state v = kConnected \<and> reading v \<and> \<not> write_shut v \<and> stream B v = stream B w \<and> poller_update (setState kConnected w) v"
proof -
  obtain ch where ch: "chans w (channel w) = Some ch" "events ch = 0" "readCallback ch = Some HandleRead"
      "writeCallback ch = Some HandleWrite" "closeCallback ch = Some HandleClose" "errorCallback ch = Some HandleError"
    using rdy by (auto simp: ready_def)
  let ?t = "tie (self w) ch"
  let ?v = "setState kConnected w"
  let ?w1 = "?v\<lparr>chans := (chans w)(channel w \<mapsto> ?t)\<rparr>"
  have "linv {} (w\<lparr>chans := (chans w)(channel w \<mapsto> ?t)\<rparr>)"
    using rdy linv_tie [OF _ ch(1)] by (simp add: ready_def)
  then have linv: "linv {} ?w1"
    using linv_cong [of ?w1 "w\<lparr>chans := (chans w)(channel w \<mapsto> ?t)\<rparr>" "{}"] by (simp add: setState_def)
  have "fd_owner (channel w) w" using rdy by (simp add: ready_def)
  then have own: "fd_owner (channel ?w1) ?w1"
    using ch(1) by (auto simp: fd_owner_def setState_def tie_def)
  have c1: "chans ?w1 (channel ?w1) = Some ?t" by (simp add: setState_def)
  from conn_set_events [OF linv own c1, of "\<lambda>e. e OR kReadEvent"] obtain w2 i where
    w2: "enableReading updateChannel (channel w) ?w1 = Some w2" "poller_update ?w1 w2" "linv {} w2"
      "fd_owner (channel w) w2"
      "chans w2 (channel w) = Some (?t\<lparr>events := events ?t OR kReadEvent, addedToLoop := True, index := i\<rparr>)"
    by (auto simp: set_events_ops setState_def)
  note fr = poller_update_frame [OF w2(2)]
  let ?c = "?t\<lparr>events := events ?t OR kReadEvent, addedToLoop := True, index := i\<rparr>"
  have "conn_ok B w2 ?c"
  proof (rule conn_okI)
    show "conn_static w2 ?c"
      using rdy ch by (simp add: conn_static_def fr setState_def tie_def ready_def)
    show "isWriting ?c = (peek B (outputBuffer w2) \<noteq> [])"
      using rdy ch(2) by (simp add: fr setState_def ready_def tie_def isWriting_def event_masks)
    show "isReading ?c = reading w2" using rdy by (simp add: fr setState_def ready_def)
  qed (use rdy in \<open>simp_all add: fr setState_def ready_def\<close>)
  then have inv2: "cinv B w2" using w2(3-5) by (simp add: cinv_def fr setState_def)
  have "connectEstablished run_user w = call_user run_user (connectionCallback w2) w2"
    using rdy ch(1) w2(1)
    by (simp add: connectEstablished_def ready_def setState_def Let_def modify_chan_def)
  moreover have "poller_update ?v w2"
    using poller_update_trans [OF _ w2(2), of ?v] by simp
  ultimately show ?thesis
    using inv2 rdy by (intro exI [of _ w2]) (simp add: fr setState_def ready_def stream_def)
qed

lemma connectEstablished_ok:
  assumes laws: "buffer_laws B" and rdy: "ready B w"
  shows "\<exists>w'. connectEstablished run_user w = Some w' \<and> cinv B w'"
proof -
  obtain v where v: "connectEstablished run_user w = call_user run_user (connectionCallback v) v" "cinv B v"
    using connectEstablished_eq [OF rdy] by blast
  have "connectionCallback v \<noteq> None" using v(2) by (auto simp: cinv_def conn_ok_def conn_static_def)
  with call_user_ok [OF laws v(2) this] v(1) cstep_cinv show ?thesis by auto
qed

text \<open>The end of the life cycle, from a connection that is down.\<close>

lemma connectDestroyed_down:
  assumes inv: "cinv B w" and down: "state w = kDisconnected" and idle: "\<not> handlingEvents w"
  shows "\<exists>w' c. connectDestroyed run_user w = Some w' \<and> linv {} w' \<and> state w' = kDisconnected
    \<and> chans w' (channel w) = Some c \<and> \<not> addedToLoop c \<and> channel w' = channel w \<and> watched w' (fd c) = None"
proof -
  from inv obtain ch where ch: "linv {} w" "chans w (channel w) = Some ch" "conn_ok B w ch"
    by (rule cinvE)
  have c: "addedToLoop ch" "isNoneEvent ch"
    using conn_okD [OF ch(3)] down by (simp_all add: conn_static_def)
  have "removable (channel w) w" using idle by (simp add: removable_def)
  from loop.remove_ok [OF ch(1,2) c this] obtain w' i where
    w': "remove_channel removeChannel (channel w) w = Some w'" "linv {} w'"
      "chans w' = (chans w)(channel w \<mapsto> ch\<lparr>addedToLoop := False, index := i\<rparr>)"
      "watched w' = (watched w)(fd ch := None)" by blast
  have "poller_update w w'"
    using w'(1) by (auto simp: remove_channel_def bind_eq_Some_conv
        dest!: poller_update_remove poller_update_modify elim: poller_update_trans)
  note fr = poller_update_frame [OF this]
  show ?thesis using w' down by (auto simp: connectDestroyed_def fr)
qed

end

subsection \<open>An example\<close>

definition list_buffer :: "bytes buffer_ops" where
  "list_buffer = \<lparr>readableBytes = length, peek = (\<lambda>b. b), append_data = (\<lambda>b xs. b @ xs),
     retrieve = (\<lambda>b n. drop n b), retrieveAll = (\<lambda>b. [])\<rparr>"

lemma list_buffer_laws: "buffer_laws list_buffer"
  by (simp add: buffer_laws_def list_buffer_def)

definition blank_conn :: "(bytes, nat) conn_world" where
  "blank_conn = loop_world.extend (EventLoop 1 16 0)
     \<lparr>self = 0, state = kDisconnected, reading = False, channel = 0, connectionCallback = None,
      messageCallback = None, writeCompleteCallback = None, highWaterMarkCallback = None,
      connCloseCallback = None, highWaterMark = 0, inputBuffer = [], outputBuffer = [],
      keepAlive = False, tcpNoDelay = False, wire = [], write_shut = False\<rparr>"

definition ready_conn :: "(bytes, nat) conn_world" where
  "ready_conn = (TcpConnection 100 8 5 [] blank_conn)\<lparr>use_count := (\<lambda>p. if p = 100 then 1 else 0),
     connectionCallback := Some 0, messageCallback := Some 0, connCloseCallback := Some 0\<rparr>"

abbreviation idle_user :: "nat \<Rightarrow> (bytes, nat) conn_op" where
  "idle_user \<equiv> conn_script list_buffer (\<lambda>u w. [])"

lemma blank_conn_simps:
  "chans blank_conn = Map.empty" "channels blank_conn = Map.empty" "interest blank_conn = Map.empty"
  "ctl_rets blank_conn = []" "this blank_conn = 1" "\<not> handlingEvents blank_conn" "pendingFunctors blank_conn = []"
  by (simp_all add: blank_conn_def EventLoop_def poll_world.defs loop_world.defs EPollPoller_def)

lemma ready_conn_ready: "ready list_buffer ready_conn"
proof -
  let ?d = "(Channel 1 5 :: nat conn_cb channel)\<lparr>readCallback := Some HandleRead, writeCallback := Some HandleWrite,
      closeCallback := Some HandleClose, errorCallback := Some HandleError\<rparr>"
  have "linv {} blank_conn" by (simp add: linv_def pinv_def blank_conn_simps)
  then have l: "linv {} (blank_conn\<lparr>chans := (chans blank_conn)(8 \<mapsto> ?d)\<rparr>)"
    by (rule linv_new_channel [of _ _ _ 5]) (simp_all add: blank_conn_simps Channel_def index_defs)
  have "linv {} ready_conn = linv {} (blank_conn\<lparr>chans := (chans blank_conn)(8 \<mapsto> ?d)\<rparr>)"
    by (rule linv_cong) (simp_all add: ready_conn_def TcpConnection_def blank_conn_simps)
  then show ?thesis
    using l by (simp add: ready_def ready_conn_def TcpConnection_def blank_conn_simps list_buffer_def fd_owner_def Channel_def)
qed

lemma example_established:
  "\<exists>w. connectEstablished idle_user ready_conn = Some w \<and> cinv list_buffer w \<and> state w = kConnected
    \<and> reading w \<and> \<not> write_shut w \<and> stream list_buffer w = [] \<and> \<not> handlingEvents w \<and> pendingFunctors w = []"
proof -
  obtain v where v: "connectEstablished idle_user ready_conn = call_user idle_user (connectionCallback v) v"
      "cinv list_buffer v" "state v = kConnected" "reading v" "\<not> write_shut v"
      "stream list_buffer v = stream list_buffer ready_conn" "poller_update (setState kConnected ready_conn) v"
    using scripted_user.connectEstablished_eq [OF ready_conn_ready] by blast
  note fr = poller_update_frame [OF v(7)]
  have "connectionCallback v = Some 0" by (simp add: fr setState_def ready_conn_def)
  then have e: "connectEstablished idle_user ready_conn = Some v"
    by (simp add: v(1) call_user_def conn_script_def)
  have "handlingEvents v = handlingEvents (setState kConnected ready_conn)"
    using v(7) by (metis poller_update_frame_loop)
  then have "\<not> handlingEvents v" by (simp add: setState_def ready_conn_def TcpConnection_def blank_conn_simps)
  moreover have "pendingFunctors v = []"
    by (simp add: fr setState_def ready_conn_def TcpConnection_def blank_conn_simps)
  moreover have "stream list_buffer ready_conn = []"
    by (simp add: stream_def ready_conn_def TcpConnection_def list_buffer_def)
  then have "stream list_buffer v = []" using v(6) by simp
  ultimately show ?thesis using e v(2-5) by blast
qed

subsection \<open>What a connection promises\<close>

text \<open>The poller reports events of mask \<open>m\<close> on the connection's descriptor.\<close>

definition awaits :: "32 word \<Rightarrow> ('b, 'u) conn_world \<Rightarrow> bool" where
  "awaits m w \<longleftrightarrow> (case chans w (channel w) of None \<Rightarrow> False
     | Some ch \<Rightarrow> (case watched w (fd ch) of None \<Rightarrow> False | Some e \<Rightarrow> e AND m \<noteq> 0))"

lemma awaits_iff:
  assumes inv: "cinv B w" and live: "live w"
  shows "awaits kWriteEvent w = (peek B (outputBuffer w) \<noteq> [])" "awaits kReadEvent w = reading w"
proof -
  from inv obtain ch where ch: "linv {} w" "chans w (channel w) = Some ch" "conn_ok B w ch" by (rule cinvE)
  have inv: "pinv {} w" using ch(1) by (simp add: linv_def)
  have ok: "chan_ok w (channel w) ch" by (rule pinv_chan [OF inv ch(2)])
  have reg: "index ch = kAdded" if "addedToLoop ch" "interest w (fd ch) = Some (e, p)" for e p
  proof -
    from pinv_interest [OF inv that(2)] obtain c where c: "chans w p = Some c" "fd c = fd ch" "index c = kAdded" by blast
    have "channels w (fd ch) = Some p" using pinv_chan [OF inv c(1)] c(2,3) by (simp add: chan_ok_def)
    moreover have "channels w (fd ch) = Some (channel w)" using ok that(1) by (simp add: chan_ok_def)
    ultimately show ?thesis using c(1,3) ch(2) by simp
  qed
  have "addedToLoop ch" using conn_okD(1) [OF ch(3)] by (simp add: conn_static_def)
  then have "watched w (fd ch) = (if index ch = kAdded then Some (events ch) else None)"
      "index ch \<noteq> kAdded \<longrightarrow> events ch = 0"
    using ok reg by (cases "interest w (fd ch)"; force simp: chan_ok_def watched_def kNoneEvent_def)+
  then show "awaits kWriteEvent w = (peek B (outputBuffer w) \<noteq> [])" "awaits kReadEvent w = reading w"
    using ch(2) conn_okD(4,5) [OF ch(3) live]
    by (auto simp: awaits_def isWriting_def isReading_def split: option.splits)
qed

text \<open>A run of events from a new connection, after \<open>connectEstablished\<close>.\<close>

definition conn_run :: "'b buffer_ops \<Rightarrow> ('u \<Rightarrow> ('b, 'u) conn_world \<Rightarrow> act list) \<Rightarrow> 'u conn_event list \<Rightarrow> ('b, 'u) conn_op" where
  "conn_run B script es w = do { w \<leftarrow> connectEstablished (conn_script B script) w; run (conn_step B script) es w }"

definition conn_run_ok :: "'b buffer_ops \<Rightarrow> ('u \<Rightarrow> ('b, 'u) conn_world \<Rightarrow> act list) \<Rightarrow> 'u conn_event list
    \<Rightarrow> ('b, 'u) conn_world \<Rightarrow> bool" where
  "conn_run_ok B script es w \<longleftrightarrow> (case connectEstablished (conn_script B script) w of
     None \<Rightarrow> True | Some w \<Rightarrow> run_ok (conn_step B script) conn_event_ok es w)"

lemma conn_run_cinv:
  assumes laws: "buffer_laws B" and rdy: "ready B w" and ok: "conn_run_ok B script es w"
  shows "\<exists>w'. conn_run B script es w = Some w' \<and> cinv B w'"
proof -
  obtain v where v: "connectEstablished (conn_script B script) w = Some v" "cinv B v"
    using scripted_user.connectEstablished_ok [OF laws rdy] by blast
  with ok have "run_ok (conn_step B script) conn_event_ok es v" by (simp add: conn_run_ok_def)
  with conn.run_safe [of B v script es] laws v show ?thesis by (auto simp: conn_run_def)
qed

text \<open>C14: From a connection the server has just made, \<open>connectEstablished\<close> and then any sequence of
  calls of the user, functors and channel events that keeps to the protocol runs without a failed
  assertion, an empty callback or a use of a channel the loop does not know; while the connection is
  not down its descriptor is watched for writing exactly when bytes wait in the output buffer, and for
  reading exactly when \<open>reading_\<close> says so.\<close>
theorem conn_safe:
  assumes "buffer_laws B" and "ready B w" and "conn_run_ok B script es w"
  shows "\<exists>w'. conn_run B script es w = Some w' \<and> (state w' \<noteq> kDisconnected \<longrightarrow>
    (awaits kWriteEvent w' = (peek B (outputBuffer w') \<noteq> [])) \<and> (awaits kReadEvent w' = reading w'))"
proof -
  from conn_run_cinv [OF assms] obtain w' where w': "conn_run B script es w = Some w'" "cinv B w'" by blast
  have "live w'" if "state w' \<noteq> kDisconnected" using w'(2) live_or_down that by (auto elim!: cinvE)
  with w' awaits_iff [OF w'(2)] show ?thesis by blast
qed

definition example_events :: "nat conn_event list" where
  "example_events = [UserAct (Send True [1, 2, 3] (Inr 1)), UserAct (StopRead True),
     UserAct (Consume 0), RunFunctor ForceCloseInLoop \<lparr>write_result = Inr 0, read_result = Inl 0\<rparr>]"

lemma example_run_ok: "conn_run_ok list_buffer (\<lambda>u w. []) example_events ready_conn"
proof -
  obtain v where v: "connectEstablished idle_user ready_conn = Some v" "\<not> write_shut v"
    using example_established by blast
  then show ?thesis
    by (auto simp: conn_run_ok_def example_events_def write_ok_def split: option.splits)
qed

theorem conn_safe_witness:
  "\<exists>w'. conn_run list_buffer (\<lambda>u w. []) example_events ready_conn = Some w' \<and> (state w' \<noteq> kDisconnected \<longrightarrow>
    (awaits kWriteEvent w' = (peek list_buffer (outputBuffer w') \<noteq> [])) \<and> (awaits kReadEvent w' = reading w'))"
  by (rule conn_safe [OF list_buffer_laws ready_conn_ready example_run_ok])

text \<open>C15: No step of such a run takes back or reorders a byte: the bytes written to the socket, and those
  written or waiting to be, are at any time a prefix of what they are later.\<close>
theorem conn_stream_grows:
  assumes "buffer_laws B" and "ready B w" and "conn_run_ok B script (es @ fs) w"
  shows "\<exists>v w'. conn_run B script es w = Some v \<and> conn_run B script (es @ fs) w = Some w'
    \<and> (\<exists>xs. stream B w' = stream B v @ xs) \<and> (\<exists>ys. wire w' = wire v @ ys)"
proof -
  obtain u where u: "connectEstablished (conn_script B script) w = Some u" "cinv B u"
    using scripted_user.connectEstablished_ok [OF assms(1,2)] by blast
  with assms(3) have ok: "run_ok (conn_step B script) conn_event_ok (es @ fs) u" by (simp add: conn_run_ok_def)
  from run_ok_prefix [OF ok] conn.run_safe [of B u script es] assms(1) u(2) obtain v where
    v: "run (conn_step B script) es u = Some v" "cinv B v" by auto
  from run_ok_suffix [OF ok v(1)] have okf: "run_ok (conn_step B script) conn_event_ok fs v" .
  from conn.run_safe [of B v script fs] assms(1) v(2) okf obtain w' where
    w': "run (conn_step B script) fs v = Some w'" by auto
  from conn.run_also [of B v "stream B v" "wire v" script fs w'] assms(1) v(2) okf w'
  have "(\<exists>xs. stream B w' = stream B v @ xs) \<and> (\<exists>ys. wire w' = wire v @ ys)" by simp
  with u(1) v(1) w' show ?thesis by (simp add: conn_run_def run_append)
qed

theorem conn_stream_grows_witness:
  "\<exists>v w'. conn_run list_buffer (\<lambda>u w. []) (take 1 example_events) ready_conn = Some v
    \<and> conn_run list_buffer (\<lambda>u w. []) (take 1 example_events @ drop 1 example_events) ready_conn = Some w'
    \<and> (\<exists>xs. stream list_buffer w' = stream list_buffer v @ xs) \<and> (\<exists>ys. wire w' = wire v @ ys)"
  by (rule conn_stream_grows [OF list_buffer_laws ready_conn_ready]) (simp add: example_run_ok)

text \<open>C16: What \<open>sendInLoop\<close> is given is written or kept, whole and in order, behind everything taken
  before, unless the connection is down or the peer is gone, and then none of it is; the protocol state
  does not change.\<close>
theorem sendInLoop_takes:
  assumes "buffer_laws B" and "cinv B w" and "write_ok wr data w"
  shows "\<exists>w'. sendInLoop B wr data w = Some w' \<and> cinv B w' \<and> state w' = state w
    \<and> stream B w' = stream B w @ (if state w = kDisconnected \<or> peer_gone B wr w then [] else data)"
  using sendInLoop_ok [OF assms] cstep_cinv by blast

theorem sendInLoop_takes_witness:
  "\<exists>w w'. cinv list_buffer (w :: (bytes, nat) conn_world)
    \<and> sendInLoop list_buffer (Inr 1) [1, 2, 3] w = Some w' \<and> stream list_buffer w' = [1, 2, 3]"
proof -
  obtain w :: "(bytes, nat) conn_world" where w: "cinv list_buffer w" "state w = kConnected" "\<not> write_shut w"
      "stream list_buffer w = []"
    using example_established by blast
  from sendInLoop_takes [OF list_buffer_laws w(1), of "Inr 1" "[1, 2, 3]"] w show ?thesis
    by (fastforce simp: write_ok_def peer_gone_def)
qed

text \<open>A connection that has been closed: its channel waits for nothing.\<close>

lemma down_channel:
  assumes inv: "cinv B w" and down: "state w = kDisconnected"
  obtains ch where "linv {} w" "fd_owner (channel w) w" "chans w (channel w) = Some ch" "events ch = 0" "addedToLoop ch"
    "conn_static w ch"
proof -
  from inv obtain ch where ch: "linv {} w" "fd_owner (channel w) w" "chans w (channel w) = Some ch" "conn_ok B w ch"
    by (rule cinvE)
  with conn_okD [OF ch(4)] down that show ?thesis by (auto simp: conn_static_def isNoneEvent_def kNoneEvent_def)
qed

lemma shutdown_static:
  "shutdown call True w = call ShutdownInLoop (w\<lparr>state := kDisconnecting\<rparr>)"
  by (simp add: shutdown_def run_in_loop_def runInLoop_def setState_def)

text \<open>The write that empties the buffer of a connection that is disconnecting.\<close>

lemma last_write:
  assumes laws: "buffer_laws B" and inv: "cinv B w" and st: "state w = kDisconnecting"
    and out: "peek B (outputBuffer w) \<noteq> []" "length (peek B (outputBuffer w)) \<le> n"
  shows "\<exists>w'. handleWrite B (Inr n) w = Some w' \<and> write_shut w' \<and> wire w' = stream B w \<and> \<not> awaits kWriteEvent w'"
proof -
  from inv obtain ch where ch: "linv {} w" "fd_owner (channel w) w" "chans w (channel w) = Some ch" "conn_ok B w ch"
    by (rule cinvE)
  have wt: "isWriting ch" using conn_okD(4) [OF ch(4)] st out(1) by (simp add: live_def)
  let ?b = "retrieve B (outputBuffer w) n"
  let ?x = "w\<lparr>wire := wire w @ take n (peek B (outputBuffer w)), outputBuffer := ?b\<rparr>"
  have linv: "linv {} ?x" using ch(1) linv_cong [of ?x w] by simp
  have own: "fd_owner (channel ?x) ?x" using ch(2) by (simp add: fd_owner_def)
  have cx: "chans ?x (channel ?x) = Some ch" using ch(3) by simp
  from conn_set_events [OF linv own cx, of "\<lambda>e. e AND NOT kWriteEvent"] obtain y i where
    y: "disableWriting updateChannel (channel w) ?x = Some y" "poller_update ?x y"
      "chans y (channel w) = Some (ch\<lparr>events := events ch AND NOT kWriteEvent, addedToLoop := True, index := i\<rparr>)"
    unfolding set_events_ops by auto
  note fr = poller_update_frame [OF y(2)]
  let ?z = "case writeCompleteCallback y of Some u \<Rightarrow> queueInLoop True (Functor (WriteComplete u)) y | None \<Rightarrow> y"
  have z: "state ?z = kDisconnecting" "chans ?z = chans y" "channel ?z = channel w" "wire ?z = wire y"
      "outputBuffer ?z = ?b"
    using st by (auto simp: fr split: option.splits)
  have hw: "handleWrite B (Inr n) w = Some (?z\<lparr>write_shut := True\<rparr>)"
    using ch(3) wt out y(1,3) z
    by (cases "n = 0") (simp_all add: handleWrite_def lawsD [OF laws] Let_def shutdownInLoop_def)
  obtain w' where w': "handleWrite B (Inr n) w = Some w'" "cstep B w w'"
    using handleWrite_ok [OF laws inv] by blast
  then have eq: "w' = ?z\<lparr>write_shut := True\<rparr>" using hw by simp
  have "live w'" using z(1) by (simp add: eq live_def)
  then have "\<not> awaits kWriteEvent w'"
    using awaits_iff(1) [OF cstep_cinv [OF w'(2)]] out by (simp add: eq z lawsD [OF laws])
  moreover have "wire w' = wire y" by (simp add: eq z)
  then have "wire w' = stream B w" using out by (simp add: fr stream_def)
  ultimately show ?thesis using w'(1) by (simp add: eq)
qed

text \<open>C17: A shutdown is graceful: with bytes waiting it leaves the socket open and only says that the
  connection is disconnecting; the write that empties the buffer then shuts the sending side, after
  the last byte; with nothing waiting it shuts the sending side at once.\<close>
theorem graceful_shutdown:
  assumes "buffer_laws B" and "cinv B w" and "state w = kConnected" and "\<not> write_shut w"
    and "length (peek B (outputBuffer w)) \<le> n"
  shows "\<exists>v. shutdown (conn_call B run_user io) True w = Some v \<and> state v = kDisconnecting
    \<and> write_shut v = (peek B (outputBuffer w) = [])
    \<and> (peek B (outputBuffer w) \<noteq> [] \<longrightarrow> (\<exists>w'. handleWrite B (Inr n) v = Some w'
         \<and> write_shut w' \<and> wire w' = stream B w \<and> \<not> awaits kWriteEvent w'))"
proof -
  have live: "live w" using assms(3) by (simp add: live_def)
  let ?u = "w\<lparr>state := kDisconnecting\<rparr>"
  have u: "cinv B ?u" by (rule cstep_cinv [OF setState_live [OF assms(2) live]])
  from u obtain ch where ch: "chans w (channel w) = Some ch" "conn_ok B ?u ch" by (auto elim!: cinvE)
  have "isWriting ch = (peek B (outputBuffer w) \<noteq> [])" using conn_okD(4) [OF ch(2)] by (simp add: live_def)
  then have s: "shutdown (conn_call B run_user io) True w = Some (if peek B (outputBuffer w) = [] then ?u\<lparr>write_shut := True\<rparr> else ?u)"
    using ch(1) by (simp add: shutdown_static shutdownInLoop_def)
  from last_write [OF assms(1) u, of n] assms(4,5) show ?thesis
    by (cases "peek B (outputBuffer w) = []") (simp_all add: s stream_def)
qed

theorem graceful_shutdown_witness:
  "\<exists>w v. state (w :: (bytes, nat) conn_world) = kConnected
    \<and> shutdown (conn_call list_buffer idle_user (writes (Inl 0))) True w = Some v \<and> state v = kDisconnecting"
proof -
  obtain w :: "(bytes, nat) conn_world" where w: "cinv list_buffer w" "state w = kConnected" "\<not> write_shut w"
    using example_established by blast
  from graceful_shutdown [OF list_buffer_laws w order_refl, of idle_user "writes (Inl 0)"] w(2) show ?thesis
    by blast
qed


text \<open>The example, closed by the user.\<close>

lemma idle_close:
  assumes "cinv list_buffer w" and "live w" and "handleClose idle_user w = Some w'"
  shows "handlingEvents w' = handlingEvents w" "state w' = kDisconnected"
proof -
  have "\<exists>v. disableAll updateChannel (channel w) (setState kDisconnected w) = Some v \<and> w' = v"
    using assms(3) by (auto simp: handleClose_def call_user_def conn_script_def bind_eq_Some_conv setState_def
        split: option.splits)
  then have p: "poller_update (setState kDisconnected w) w'"
    using poller_update_set_events by (auto simp: set_events_ops)
  show "handlingEvents w' = handlingEvents w"
    using poller_update_frame_loop [OF p] by (simp add: setState_def)
  show "state w' = kDisconnected" using poller_update_frame [OF p] by (simp add: setState_def)
qed

abbreviation close_now :: "nat conn_event list" where
  "close_now \<equiv> [RunFunctor ForceCloseInLoop (writes (Inl 0))]"

lemma example_close_ok: "conn_run_ok list_buffer (\<lambda>u w. []) close_now ready_conn"
  by (simp add: conn_run_ok_def split: option.splits)

lemma example_closed:
  "\<exists>w. conn_run list_buffer (\<lambda>u w. []) close_now ready_conn = Some w
    \<and> cinv list_buffer w \<and> state w = kDisconnected \<and> \<not> handlingEvents w"
proof -
  obtain v where v: "connectEstablished idle_user ready_conn = Some v" "cinv list_buffer v" "state v = kConnected"
      "\<not> handlingEvents v"
    using example_established by blast
  have live: "live v" using v(3) by (simp add: live_def)
  from scripted_user.handleClose_ok [OF list_buffer_laws v(2) live] obtain w where
    w: "handleClose idle_user v = Some w" "cstep list_buffer v w" by blast
  with v idle_close [OF v(2) live w(1)] cstep_cinv show ?thesis
    by (auto simp: conn_run_def forceCloseInLoop_def)
qed


subsection \<open>Where the code departs from its protocol\<close>

text \<open>Taking a channel out that still waits for events fails \<open>Channel::remove\<close>'s assertion.\<close>

lemma remove_needs_none:
  "chans w p = Some ch \<Longrightarrow> events ch \<noteq> 0 \<Longrightarrow> remove_channel r p w = None"
  by (simp add: remove_channel_def isNoneEvent_def kNoneEvent_def)

text \<open>C19: The condition of \<open>shutdown\<close> is the assignment \<open>state_ = kConnected\<close>. Called on a connection
  that is already closed but not yet destroyed it revives the state to disconnecting; \<open>connectDestroyed\<close>
  leaves it there, and the assertion of the destructor fails.\<close>
theorem shutdown_after_close_aborts:
  assumes "cinv B w" and "state w = kDisconnected" and "\<not> handlingEvents w"
  shows "\<exists>v u. shutdown (conn_call B run_user io) True w = Some v \<and> state v = kDisconnecting
    \<and> connectDestroyed (conn_script B script) v = Some u \<and> TcpConnection_dtor u = None"
proof -
  from down_channel [OF assms(1,2)] obtain ch where
    ch: "linv {} w" "fd_owner (channel w) w" "chans w (channel w) = Some ch" "events ch = 0" "addedToLoop ch" by metis
  let ?v = "w\<lparr>state := kDisconnecting, write_shut := True\<rparr>"
  have "shutdown (conn_call B run_user io) True w = Some ?v"
    using ch(3,4) by (simp add: shutdown_static shutdownInLoop_def isWriting_def)
  moreover have linv: "linv {} ?v" using ch(1) linv_cong [of ?v w] by simp
  moreover have "removable (channel ?v) ?v" using assms(3) by (simp add: removable_def)
  then obtain u where u: "remove_channel removeChannel (channel ?v) ?v = Some u"
    using loop.remove_ok [OF linv, of "channel ?v" ch] ch(3-5) by (auto simp: isNoneEvent_def kNoneEvent_def)
  moreover from u have "poller_update ?v u"
    by (auto simp: remove_channel_def bind_eq_Some_conv
        dest!: poller_update_remove poller_update_modify elim: poller_update_trans)
  then have "state u = kDisconnecting" by (simp add: poller_update_frame)
  ultimately show ?thesis by (simp add: connectDestroyed_def TcpConnection_dtor_def)
qed

theorem shutdown_after_close_aborts_witness:
  "\<exists>w v u. state (w :: (bytes, nat) conn_world) = kDisconnected
    \<and> shutdown (conn_call list_buffer idle_user (writes (Inl 0))) True w = Some v
    \<and> connectDestroyed idle_user v = Some u \<and> TcpConnection_dtor u = None"
  using example_closed shutdown_after_close_aborts by metis

text \<open>\<open>connectDestroyed\<close> turns the channel off only if the connection is connected. When it runs on a
  connection that is disconnecting, as the server's destructor makes it do, and reads are on, the
  assertion of \<open>Channel::remove\<close> fails.\<close>
theorem destroy_while_disconnecting_aborts:
  assumes "cinv B w" and "state w = kDisconnecting" and "reading w"
  shows "connectDestroyed run_user w = None"
proof -
  from assms(1) obtain ch where ch: "chans w (channel w) = Some ch" "conn_ok B w ch" by (rule cinvE)
  have "isReading ch" using conn_okD(5) [OF ch(2)] assms(2,3) by (simp add: live_def)
  then have "events ch \<noteq> 0" by (auto simp: isReading_def)
  with remove_needs_none [OF ch(1)] assms(2) show ?thesis by (simp add: connectDestroyed_def)
qed

theorem destroy_while_disconnecting_aborts_witness:
  "\<exists>w. state (w :: (bytes, nat) conn_world) = kDisconnecting \<and> connectDestroyed idle_user w = None"
proof -
  obtain v :: "(bytes, nat) conn_world" where v: "cinv list_buffer v" "state v = kConnected" "reading v"
    using example_established by blast
  have "cinv list_buffer (v\<lparr>state := kDisconnecting\<rparr>)"
    using setState_live [OF v(1)] v(2) cstep_cinv by (auto simp: live_def)
  from destroy_while_disconnecting_aborts [OF this, of idle_user] v(3) show ?thesis
    by (intro exI [of _ "v\<lparr>state := kDisconnecting\<rparr>"]) simp
qed

text \<open>\<open>startReadInLoop\<close> does not look at the state: run after the connection was closed it makes the
  channel wait for reads again, and \<open>connectDestroyed\<close> then fails \<open>Channel::remove\<close>'s assertion.\<close>
theorem startRead_after_close_aborts:
  assumes "cinv B w" and "state w = kDisconnected"
  shows "\<exists>v. startReadInLoop w = Some v \<and> awaits kReadEvent v \<and> connectDestroyed run_user v = None"
proof -
  from down_channel [OF assms] obtain ch where
    ch: "linv {} w" "fd_owner (channel w) w" "chans w (channel w) = Some ch" "events ch = 0" by metis
  from conn_set_events [OF ch(1-3), of "\<lambda>e. e OR kReadEvent"] ch(4) obtain x i where
    x: "enableReading updateChannel (channel w) w = Some x" "poller_update w x"
      "chans x (channel w) = Some (ch\<lparr>events := kReadEvent, addedToLoop := True, index := i\<rparr>)"
      "watched x = watch_after (fd ch) kReadEvent (watched w)"
    unfolding set_events_ops by auto
  note fr = poller_update_frame [OF x(2)]
  let ?v = "x\<lparr>reading := True\<rparr>"
  have "startReadInLoop w = Some ?v" using ch(3,4) x(1) by (simp add: startReadInLoop_def isReading_def)
  moreover have "watched ?v = watched x" by (simp add: watched_def fun_eq_iff)
  then have "awaits kReadEvent ?v"
    using x(3,4) by (simp add: awaits_def fr watch_after_def event_defs)
  moreover have "connectDestroyed run_user ?v = None"
    using remove_needs_none [of ?v "channel ?v"] x(3) assms(2) by (simp add: connectDestroyed_def fr event_masks)
  ultimately show ?thesis by blast
qed

theorem startRead_after_close_aborts_witness:
  "\<exists>w v. state (w :: (bytes, nat) conn_world) = kDisconnected \<and> startReadInLoop w = Some v
    \<and> connectDestroyed idle_user v = None"
  using example_closed startRead_after_close_aborts by metis

end
