(* ===== verification/Addresses.thy ===== *)
theory Addresses
  imports Machine
begin

text \<open>
  \<^verbatim>\<open>InetAddress.h\<close>, \<^verbatim>\<open>InetAddress.c\<close> and the functions of \<^verbatim>\<open>SocketOps.c\<close> on addresses. An
  \<^verbatim>\<open>InetAddress\<close> is the memory of its union: 28 bytes, of which \<open>sockaddr_in\<close> uses the first 16. The
  host is little-endian. \<open>inet_ntop\<close> and \<open>inet_pton\<close> are written out for IPv4. The conversions of
  \<^verbatim>\<open>Endian.h\<close>, which is not in the repository, and the two functions for IPv6 are the parameter
  \<open>L\<close>; \<open>net_laws\<close> states what is documented of them.
\<close>

subsection \<open>The C library and \<open>Endian.h\<close>\<close>

record net_lib =
  hostToNetwork16 :: "16 word \<Rightarrow> 16 word"
  networkToHost16 :: "16 word \<Rightarrow> 16 word"
  hostToNetwork32 :: "32 word \<Rightarrow> 32 word"
  inet_ntop6 :: "bytes \<Rightarrow> string"
  inet_pton6 :: "string \<Rightarrow> bytes option"

definition AF_INET :: "16 word" where "AF_INET = 2"
definition AF_INET6 :: "16 word" where "AF_INET6 = 10"
definition INET_ADDRSTRLEN :: nat where "INET_ADDRSTRLEN = 16"
definition INET6_ADDRSTRLEN :: nat where "INET6_ADDRSTRLEN = 46"

lemmas inet_consts = AF_INET_def AF_INET6_def INET_ADDRSTRLEN_def INET6_ADDRSTRLEN_def

text \<open>\<open>inet_ntop(AF_INET, ...)\<close>: the four bytes in decimal, with dots between them.\<close>

fun join_dots :: "string list \<Rightarrow> string" where
  "join_dots [] = []"
| "join_dots [s] = s"
| "join_dots (s # ss) = s @ CHR ''.'' # join_dots ss"

definition inet_ntop4 :: "bytes \<Rightarrow> string" where
  "inet_ntop4 bs = join_dots (map (\<lambda>b. dec (unat b)) bs)"

text \<open>\<open>inet_pton(AF_INET, ...)\<close>: four numbers of at most 255 without leading zeros.\<close>

fun split_dots :: "string \<Rightarrow> string list" where
  "split_dots [] = [[]]"
| "split_dots (c # s) =
     (if c = CHR ''.'' then [] # split_dots s
      else (case split_dots s of p # ps \<Rightarrow> (c # p) # ps | [] \<Rightarrow> [[c]]))"

definition is_digit :: "char \<Rightarrow> bool" where
  "is_digit c \<longleftrightarrow> 48 \<le> (of_char c :: nat) \<and> (of_char c :: nat) \<le> 57"

definition octet_ok :: "string \<Rightarrow> bool" where
  "octet_ok p \<longleftrightarrow> p \<noteq> [] \<and> list_all is_digit p
     \<and> undec p \<le> 255 \<and> (hd p = CHR ''0'' \<longrightarrow> length p = 1)"

definition inet_pton4 :: "string \<Rightarrow> bytes option" where
  "inet_pton4 s =
     (let ps = split_dots s
      in if length ps = 4 \<and> list_all octet_ok ps then Some (map (\<lambda>p. of_nat (undec p)) ps) else None)"

subsection \<open>Memory\<close>

definition store16 :: "16 word \<Rightarrow> bytes" where
  "store16 x = [ucast x, ucast (drop_bit 8 x)]"

definition load16 :: "bytes \<Rightarrow> 16 word" where
  "load16 bs = of_nat (unat (bs ! 0) + 256 * unat (bs ! 1))"

definition store32 :: "32 word \<Rightarrow> bytes" where
  "store32 x = [ucast x, ucast (drop_bit 8 x), ucast (drop_bit 16 x), ucast (drop_bit 24 x)]"

definition read_at :: "nat \<Rightarrow> nat \<Rightarrow> bytes \<Rightarrow> bytes" where
  "read_at off n m = take n (drop off m)"

definition write_at :: "nat \<Rightarrow> bytes \<Rightarrow> bytes \<Rightarrow> bytes" where
  "write_at off bs m = take off m @ bs @ drop (off + length bs) m"

text \<open>The members of \<open>sockaddr_in\<close> and \<open>sockaddr_in6\<close>; \<open>family()\<close> and \<open>portNetEndian()\<close>.\<close>

definition family :: "bytes \<Rightarrow> 16 word" where
  "family a = load16 (read_at 0 2 a)"

definition portNetEndian :: "bytes \<Rightarrow> 16 word" where
  "portNetEndian a = load16 (read_at 2 2 a)"

definition sin_addr :: "bytes \<Rightarrow> bytes" where
  "sin_addr a = read_at 4 4 a"

definition sin6_addr :: "bytes \<Rightarrow> bytes" where
  "sin6_addr a = read_at 8 16 a"

definition set_family :: "16 word \<Rightarrow> bytes \<Rightarrow> bytes" where
  "set_family f a = write_at 0 (store16 f) a"

definition set_port :: "16 word \<Rightarrow> bytes \<Rightarrow> bytes" where
  "set_port p a = write_at 2 (store16 p) a"

subsection \<open>\<open>sockets::\<close> functions on addresses\<close>

text \<open>\<open>buf\<close> is the string in the caller's buffer, whose size is \<open>sz\<close>.\<close>

definition toIp :: "net_lib \<Rightarrow> string \<Rightarrow> nat \<Rightarrow> bytes \<Rightarrow> string option" where
  "toIp L buf sz addr =
     (if family addr = AF_INET
      then do { chk (sz \<ge> INET_ADDRSTRLEN); Some (inet_ntop4 (sin_addr addr)) }
      else if family addr = AF_INET6
      then do { chk (sz \<ge> INET6_ADDRSTRLEN); Some (inet_ntop6 L (sin6_addr addr)) }
      else Some buf)"

definition toIpPort :: "net_lib \<Rightarrow> string \<Rightarrow> nat \<Rightarrow> bytes \<Rightarrow> string option" where
  "toIpPort L buf sz addr =
     do { buf \<leftarrow> toIp L buf sz addr;
          let end = length buf;
          let port = networkToHost16 L (portNetEndian addr);
          chk (sz > end);
          Some (buf @ snprintf (sz - end) (CHR '':'' # dec (unat port))) }"

definition fromIpPort4 :: "net_lib \<Rightarrow> string \<Rightarrow> 16 word \<Rightarrow> bytes \<Rightarrow> bytes" where
  "fromIpPort4 L ip port addr =
     (let addr = set_port (hostToNetwork16 L port) (set_family AF_INET addr)
      in case inet_pton4 ip of Some bs \<Rightarrow> write_at 4 bs addr | None \<Rightarrow> addr)"

definition fromIpPort6 :: "net_lib \<Rightarrow> string \<Rightarrow> 16 word \<Rightarrow> bytes \<Rightarrow> bytes" where
  "fromIpPort6 L ip port addr =
     (let addr = set_port (hostToNetwork16 L port) (set_family AF_INET6 addr)
      in case inet_pton6 L ip of Some bs \<Rightarrow> write_at 8 bs addr | None \<Rightarrow> addr)"

text \<open>What \<open>getsockopt\<close>, \<open>getsockname\<close> and \<open>getpeername\<close> returned is an argument: \<open>Inl errno\<close> is -1.\<close>

definition getSocketError :: "errno + int \<Rightarrow> int" where
  "getSocketError r = (case r of Inl errno \<Rightarrow> errno | Inr optval \<Rightarrow> optval)"

definition getLocalAddr :: "errno + bytes \<Rightarrow> bytes" where
  "getLocalAddr r =
     (let localaddr = replicate 28 0
      in case r of Inl errno \<Rightarrow> localaddr | Inr bs \<Rightarrow> write_at 0 (take 28 bs) localaddr)"

definition getPeerAddr :: "errno + bytes \<Rightarrow> bytes" where
  "getPeerAddr r =
     (let peeraddr = replicate 28 0
      in case r of Inl errno \<Rightarrow> peeraddr | Inr bs \<Rightarrow> write_at 0 (take 28 bs) peeraddr)"

definition isSelfConnect :: "errno + bytes \<Rightarrow> errno + bytes \<Rightarrow> bool" where
  "isSelfConnect sockname peername =
     (let localaddr = getLocalAddr sockname; peeraddr = getPeerAddr peername
      in if family localaddr = AF_INET
         then portNetEndian localaddr = portNetEndian peeraddr \<and> sin_addr localaddr = sin_addr peeraddr
         else if family localaddr = AF_INET6
         then portNetEndian localaddr = portNetEndian peeraddr \<and> sin6_addr localaddr = sin6_addr peeraddr
         else False)"

subsection \<open>\<open>InetAddress\<close>\<close>

text \<open>The constructors; \<open>mem\<close> is what the 28 bytes held before, and \<open>bzero\<close> clears one member of the union.\<close>

definition INADDR_ANY :: "32 word" where "INADDR_ANY = 0"
definition INADDR_LOOPBACK :: "32 word" where "INADDR_LOOPBACK = 0x7F000001"
definition in6addr_any :: bytes where "in6addr_any = replicate 16 0"
definition in6addr_loopback :: bytes where "in6addr_loopback = replicate 15 0 @ [1]"

definition InetAddress_any :: "net_lib \<Rightarrow> 16 word \<Rightarrow> bool \<Rightarrow> bool \<Rightarrow> bytes \<Rightarrow> bytes" where
  "InetAddress_any L port loopbackOnly ipv6 mem =
     (if ipv6
      then let a = write_at 0 (replicate 28 0) mem;
               a = set_family AF_INET6 a;
               ip = (if loopbackOnly then in6addr_loopback else in6addr_any);
               a = write_at 8 ip a
           in set_port (hostToNetwork16 L port) a
      else let a = write_at 0 (replicate 16 0) mem;
               a = set_family AF_INET a;
               ip = (if loopbackOnly then INADDR_LOOPBACK else INADDR_ANY);
               a = write_at 4 (store32 (hostToNetwork32 L ip)) a
           in set_port (hostToNetwork16 L port) a)"

definition InetAddress_ip :: "net_lib \<Rightarrow> string \<Rightarrow> 16 word \<Rightarrow> bool \<Rightarrow> bytes \<Rightarrow> bytes" where
  "InetAddress_ip L ip port ipv6 mem =
     (if ipv6 then fromIpPort6 L ip port (write_at 0 (replicate 28 0) mem)
      else fromIpPort4 L ip port (write_at 0 (replicate 16 0) mem))"

definition InetAddress_toIpPort :: "net_lib \<Rightarrow> bytes \<Rightarrow> string option" where
  "InetAddress_toIpPort L a = toIpPort L '''' 64 a"

definition InetAddress_toIp :: "net_lib \<Rightarrow> bytes \<Rightarrow> string option" where
  "InetAddress_toIp L a = toIp L '''' 64 a"

definition ipNetEndian :: "bytes \<Rightarrow> bytes option" where
  "ipNetEndian a = do { chk (family a = AF_INET); Some (sin_addr a) }"

definition toPort :: "net_lib \<Rightarrow> bytes \<Rightarrow> 16 word" where
  "toPort L a = networkToHost16 L (portNetEndian a)"

text \<open>\<open>gethostbyname_r\<close> gave \<open>ret\<close> and, if it found one, an address type, a length and an address.\<close>

definition resolve :: "int \<Rightarrow> (16 word \<times> nat \<times> bytes) option \<Rightarrow> bytes \<Rightarrow> (bytes \<times> bool) option" where
  "resolve ret he out =
     (case he of
        Some (addrtype, len, addr) \<Rightarrow>
          if ret = 0
          then do { chk (addrtype = AF_INET \<and> len = 4); Some (write_at 4 (take 4 addr) out, True) }
          else Some (out, False)
      | None \<Rightarrow> Some (out, False))"

subsection \<open>Memory\<close>

lemma unat_byte: "unat (b :: 8 word) < 256"
proof -
  have "unat b < 2 ^ LENGTH(8)" by (rule unsigned_less)
  then show ?thesis by simp
qed

lemma length_write_at [simp]: "off + length bs \<le> length m \<Longrightarrow> length (write_at off bs m) = length m"
  by (simp add: write_at_def)

lemma length_read_at [simp]: "off + n \<le> length m \<Longrightarrow> length (read_at off n m) = n"
  by (simp add: read_at_def)

lemma read_write_same: "off + length bs \<le> length m \<Longrightarrow> n = length bs \<Longrightarrow> read_at off n (write_at off bs m) = bs"
  by (simp add: read_at_def write_at_def)

lemma read_write_other:
  assumes "off + length bs \<le> length m" and "off' + n \<le> off \<or> off + length bs \<le> off'"
  shows "read_at off' n (write_at off bs m) = read_at off' n m"
  using assms by (auto simp: read_at_def write_at_def drop_take min_def)

lemma length_store16 [simp]: "length (store16 x) = 2"
  by (simp add: store16_def)

lemma length_store32 [simp]: "length (store32 x) = 4"
  by (simp add: store32_def)

lemma load_store16 [simp]: "load16 (store16 x) = x"
proof -
  have "unat (ucast x :: 8 word) + 256 * unat (ucast (drop_bit 8 x) :: 8 word) = unat x"
  proof -
    have a: "unat (ucast x :: 8 word) = unat x mod 256"
      by (simp add: unsigned_ucast_eq take_bit_eq_mod)
    have "unat (drop_bit 8 x) = drop_bit 8 (take_bit 16 (unat x))" by (simp add: unsigned_drop_bit_eq)
    also have "take_bit 16 (unat x) = unat x" by (rule take_bit_nat_eq_self) (use unsigned_less [of x] in simp)
    finally have b: "unat (drop_bit 8 x) = unat x div 256" by (simp only: drop_bit_eq_div) simp
    have "unat x < 2 ^ LENGTH(16)" by (rule unsigned_less)
    then have "unat x < 65536" by simp
    then have "unat x div 256 < 256" by simp
    then have "unat (ucast (drop_bit 8 x) :: 8 word) = unat x div 256"
      by (simp add: unsigned_ucast_eq take_bit_eq_mod b)
    with a show ?thesis by simp
  qed
  then show ?thesis by (simp add: load16_def store16_def)
qed

lemma length_set_fields [simp]:
  "2 \<le> length a \<Longrightarrow> length (set_family f a) = length a" "4 \<le> length a \<Longrightarrow> length (set_port p a) = length a"
  by (simp_all add: set_family_def set_port_def)

lemma fields_set [simp]:
  assumes "24 \<le> length a"
  shows "family (set_family f a) = f" "family (set_port p a) = family a"
    "portNetEndian (set_family f a) = portNetEndian a" "portNetEndian (set_port p a) = p"
    "sin_addr (set_family f a) = sin_addr a" "sin_addr (set_port p a) = sin_addr a"
    "sin6_addr (set_family f a) = sin6_addr a" "sin6_addr (set_port p a) = sin6_addr a"
    "length bs = 4 \<Longrightarrow> family (write_at 4 bs a) = family a" "length bs = 4 \<Longrightarrow> portNetEndian (write_at 4 bs a) = portNetEndian a"
    "length bs = 4 \<Longrightarrow> sin_addr (write_at 4 bs a) = bs"
    "length cs = 16 \<Longrightarrow> family (write_at 8 cs a) = family a" "length cs = 16 \<Longrightarrow> portNetEndian (write_at 8 cs a) = portNetEndian a"
    "length cs = 16 \<Longrightarrow> sin6_addr (write_at 8 cs a) = cs"
  using assms
  by (simp_all add: family_def portNetEndian_def sin_addr_def sin6_addr_def set_family_def set_port_def
      read_write_same read_write_other)

subsection \<open>Dotted decimal\<close>

lemma split_dots_not_Nil [simp]: "split_dots s \<noteq> []"
  by (induction s) (auto split: list.splits)

lemma split_dots_plain: "CHR ''.'' \<notin> set p \<Longrightarrow> split_dots p = [p]"
  by (induction p) auto

lemma split_dots_append: "CHR ''.'' \<notin> set p \<Longrightarrow> split_dots (p @ CHR ''.'' # s) = p # split_dots s"
  by (induction p) auto

lemma split_join_dots:
  "ps \<noteq> [] \<Longrightarrow> \<forall>p \<in> set ps. CHR ''.'' \<notin> set p \<Longrightarrow> split_dots (join_dots ps) = ps"
  by (induction ps rule: join_dots.induct) (auto simp: split_dots_plain split_dots_append)

lemma is_digit_digit: "d < 10 \<Longrightarrow> is_digit (digit d)"
  by (simp add: is_digit_def digit_def)

lemma hd_dec: "0 < n \<Longrightarrow> hd (dec n) \<noteq> CHR ''0''"
proof (induction n rule: dec.induct)
  case (1 n)
  show ?case
  proof (cases "n < 10")
    case True
    then have "hd (dec n) = digit n" by (subst dec.simps) simp
    then have "undigit (hd (dec n)) = n" using True by simp
    moreover have "undigit CHR ''0'' = 0" by (simp add: undigit_def)
    ultimately show ?thesis using 1(2) by auto
  next
    case False
    then have "0 < n div 10" by (simp add: div_greater_zero_iff)
    then have "hd (dec (n div 10)) \<noteq> CHR ''0''" using 1 False by blast
    then show ?thesis using False by (subst dec.simps) simp
  qed
qed

lemma octet_ok_dec: "n < 256 \<Longrightarrow> octet_ok (dec n)"
proof -
  assume n: "n < 256"
  have "\<forall>c \<in> set (dec n). is_digit c" using dec_digits is_digit_digit by metis
  moreover have "length (dec n) = 1" if "hd (dec n) = CHR ''0''"
    using hd_dec [of n] that by (cases "n = 0") (auto simp: dec.simps)
  ultimately show ?thesis using n by (simp add: octet_ok_def list_all_iff)
qed

lemma inet_pton_ntop4:
  assumes "length bs = 4"
  shows "inet_pton4 (inet_ntop4 bs) = Some bs"
proof -
  have ne: "bs \<noteq> []" using assms by auto
  have "split_dots (inet_ntop4 bs) = map (\<lambda>b. dec (unat b)) bs"
    unfolding inet_ntop4_def using ne dec_no_special(1) by (intro split_join_dots) auto
  moreover have "octet_ok (dec (unat b))" for b :: "8 word"
    using octet_ok_dec unat_byte by simp
  ultimately show ?thesis using assms by (simp add: inet_pton4_def list_all_iff comp_def)
qed

lemma length_join_dots: "\<forall>p \<in> set ps. length p \<le> k \<Longrightarrow> ps \<noteq> [] \<Longrightarrow> Suc (length (join_dots ps)) \<le> length ps * Suc k"
  by (induction ps rule: join_dots.induct) auto

lemma length_inet_ntop4: "length bs = 4 \<Longrightarrow> length (inet_ntop4 bs) \<le> 15"
proof -
  assume bs: "length bs = 4"
  have "length (dec (unat b)) \<le> 3" for b :: "8 word"
  proof (rule length_dec_le)
    show "unat b < 10 ^ 3" using unat_byte [of b] by simp
  qed simp
  then have "Suc (length (inet_ntop4 bs)) \<le> length (map (\<lambda>b. dec (unat b)) bs) * Suc 3"
    unfolding inet_ntop4_def using bs by (intro length_join_dots) auto
  with bs show ?thesis by simp
qed

subsection \<open>What is documented of the parameter\<close>

text \<open>
  The conversions of \<open>Endian.h\<close> are inverse to each other and put the most significant byte first;
  \<open>inet_pton\<close> reads what \<open>inet_ntop\<close> prints, which fits in \<open>INET6_ADDRSTRLEN\<close> with its final zero.
\<close>

definition net_laws :: "net_lib \<Rightarrow> bool" where
  "net_laws L \<longleftrightarrow>
     (\<forall>p. networkToHost16 L (hostToNetwork16 L p) = p) \<and> (\<forall>p. hostToNetwork16 L (networkToHost16 L p) = p)
     \<and> (\<forall>x. store32 (hostToNetwork32 L x) = rev (store32 x))
     \<and> (\<forall>a. length a = 16 \<longrightarrow> inet_pton6 L (inet_ntop6 L a) = Some a)
     \<and> (\<forall>a. length a = 16 \<longrightarrow> length (inet_ntop6 L a) < INET6_ADDRSTRLEN)"

definition known_family :: "bytes \<Rightarrow> bool" where
  "known_family a \<longleftrightarrow> length a = 28 \<and> (family a = AF_INET \<or> family a = AF_INET6)"

text \<open>The IP address itself, of either family.\<close>

definition ip_of :: "bytes \<Rightarrow> bytes" where
  "ip_of a = (if family a = AF_INET then sin_addr a else sin6_addr a)"

lemma families_neq [simp]: "AF_INET6 \<noteq> AF_INET" "AF_INET \<noteq> AF_INET6"
  by (simp_all add: inet_consts)

lemma length_ip [simp]: "length a = 28 \<Longrightarrow> length (sin_addr a) = 4" "length a = 28 \<Longrightarrow> length (sin6_addr a) = 16"
  by (simp_all add: sin_addr_def sin6_addr_def)

definition ip_text :: "net_lib \<Rightarrow> bytes \<Rightarrow> string" where
  "ip_text L a = (if family a = AF_INET then inet_ntop4 (sin_addr a) else inet_ntop6 L (sin6_addr a))"

lemma toIp_text: "known_family a \<Longrightarrow> INET6_ADDRSTRLEN \<le> sz \<Longrightarrow> toIp L buf sz a = Some (ip_text L a)"
  by (auto simp: toIp_def ip_text_def known_family_def inet_consts)

lemma length_ip_text:
  assumes "net_laws L" and "known_family a"
  shows "length (ip_text L a) \<le> 45"
proof -
  have a: "length a = 28" using assms(2) by (simp add: known_family_def)
  then have "length (inet_ntop6 L (sin6_addr a)) < INET6_ADDRSTRLEN" using assms(1) by (simp add: net_laws_def)
  moreover have "length (inet_ntop4 (sin_addr a)) \<le> 15" by (rule length_inet_ntop4) (simp add: a)
  ultimately show ?thesis by (simp add: ip_text_def inet_consts)
qed

lemma length_dec_port: "length (dec (unat (p :: 16 word))) \<le> 5"
proof (rule length_dec_le)
  have "unat p < 2 ^ LENGTH(16)" by (rule unsigned_less)
  then show "unat p < 10 ^ 5" by simp
qed simp

lemma toIpPort_text:
  assumes laws: "net_laws L" and fam: "known_family a"
  shows "InetAddress_toIpPort L a = Some (ip_text L a @ CHR '':'' # dec (unat (toPort L a)))"
proof -
  have "length (ip_text L a) \<le> 45" by (rule length_ip_text [OF laws fam])
  moreover have "length (dec (unat (toPort L a))) \<le> 5" by (rule length_dec_port)
  ultimately show ?thesis
    using fam by (simp add: InetAddress_toIpPort_def toIpPort_def toIp_text inet_consts snprintf_def toPort_def)
qed

subsection \<open>Properties\<close>

text \<open>C20: Printing an address and parsing it again: \<open>toIp\<close> and \<open>toIpPort\<close> never run out of their buffers
  of 64 characters, \<open>toIpPort\<close> is the address, a colon and the port in decimal, and the constructor from
  text gives back the family, the port and the IP address, whatever was in the memory before.\<close>

theorem InetAddress_roundtrip:
  assumes "net_laws L" and "known_family a" and "length mem = 28"
  shows "\<exists>ip. InetAddress_toIp L a = Some ip
    \<and> InetAddress_toIpPort L a = Some (ip @ CHR '':'' # dec (unat (toPort L a)))
    \<and> (let b = InetAddress_ip L ip (toPort L a) (family a = AF_INET6) mem
       in known_family b \<and> family b = family a \<and> toPort L b = toPort L a \<and> ip_of b = ip_of a)"
proof -
  let ?ip = "ip_text L a"
  have p: "InetAddress_toIp L a = Some ?ip"
    using assms(2) by (simp add: InetAddress_toIp_def toIp_text inet_consts)
  define m16 where "m16 = write_at 0 (replicate 16 0) mem"
  define m28 where "m28 = write_at 0 (replicate 28 0) mem"
  have m: "length m16 = 28" "length m28 = 28" using assms(3) by (simp_all add: m16_def m28_def)
  have port: "networkToHost16 L (hostToNetwork16 L q) = q" for q using assms(1) by (simp add: net_laws_def)
  let ?b = "InetAddress_ip L ?ip (toPort L a) (family a = AF_INET6) mem"
  have "known_family ?b \<and> family ?b = family a \<and> toPort L ?b = toPort L a \<and> ip_of ?b = ip_of a"
  proof (cases "family a = AF_INET")
    case True
    have "inet_pton4 ?ip = Some (sin_addr a)"
      using True assms(2) by (simp add: ip_text_def known_family_def inet_pton_ntop4)
    with True m assms(2) show ?thesis
      by (simp add: InetAddress_ip_def fromIpPort4_def Let_def known_family_def ip_of_def toPort_def port
          m16_def [symmetric])
  next
    case False
    then have six: "family a = AF_INET6" using assms(2) by (simp add: known_family_def)
    have "inet_pton6 L ?ip = Some (sin6_addr a)"
      using six assms(1,2) by (simp add: ip_text_def known_family_def net_laws_def)
    with six m assms(2) show ?thesis
      by (simp add: InetAddress_ip_def fromIpPort6_def Let_def known_family_def ip_of_def toPort_def port
          m28_def [symmetric])
  qed
  with p toIpPort_text [OF assms(1,2)] show ?thesis by (simp add: Let_def)
qed

text \<open>A concrete library: bytes are swapped, and IPv6 addresses printed as 32 hexadecimal digits.\<close>

unbundle bit_operations_syntax

definition swap16 :: "16 word \<Rightarrow> 16 word" where
  "swap16 x = push_bit 8 x OR drop_bit 8 x"

definition swap32 :: "32 word \<Rightarrow> 32 word" where
  "swap32 x = push_bit 24 x OR (push_bit 8 x AND push_bit 16 (mask 8))
     OR (drop_bit 8 x AND push_bit 8 (mask 8)) OR drop_bit 24 x"

definition nibble :: "nat \<Rightarrow> char" where
  "nibble n = char_of (if n < 10 then 48 + n else 87 + n)"

definition unnibble :: "char \<Rightarrow> nat" where
  "unnibble c = (let k = of_char c in if k < 58 then k - 48 else k - 87)"

fun unhex :: "string \<Rightarrow> bytes" where
  "unhex (a # b # s) = of_nat (16 * unnibble a + unnibble b) # unhex s"
| "unhex _ = []"

definition example_net :: net_lib where
  "example_net = \<lparr>hostToNetwork16 = swap16, networkToHost16 = swap16, hostToNetwork32 = swap32,
     inet_ntop6 = concat \<circ> map (\<lambda>b. [nibble (unat b div 16), nibble (unat b mod 16)]),
     inet_pton6 = (\<lambda>s. Some (unhex s))\<rparr>"

lemma unnibble_nibble: "n < 16 \<Longrightarrow> unnibble (nibble n) = n"
  by (simp add: unnibble_def nibble_def Let_def)

lemma unhex_hex: "unhex (concat (map (\<lambda>b. [nibble (unat b div 16), nibble (unat b mod 16)]) bs)) = bs"
proof (induction bs)
  case (Cons b bs)
  have "unat b div 16 < 16" using unat_byte [of b] by simp
  with Cons show ?case by (simp add: unnibble_nibble)
qed simp

lemma swap16_inv: "swap16 (swap16 x) = x"
  by (rule bit_word_eqI) (auto simp: swap16_def bit_simps not_le)

lemma store32_swap32: "store32 (swap32 x) = rev (store32 x)"
proof -
  have "ucast (swap32 x) = (ucast (drop_bit 24 x) :: 8 word)"
    "ucast (drop_bit 8 (swap32 x)) = (ucast (drop_bit 16 x) :: 8 word)"
    "ucast (drop_bit 16 (swap32 x)) = (ucast (drop_bit 8 x) :: 8 word)"
    "ucast (drop_bit 24 (swap32 x)) = (ucast x :: 8 word)"
    by (rule bit_word_eqI, auto simp: swap32_def bit_simps)+
  then show ?thesis by (simp add: store32_def)
qed

lemma length_hex: "length (concat (map (\<lambda>b. [nibble (unat b div 16), nibble (unat b mod 16)]) bs)) = 2 * length bs"
  by (induction bs) auto

lemma example_net_laws: "net_laws example_net"
  by (simp add: net_laws_def example_net_def swap16_inv store32_swap32 unhex_hex length_hex inet_consts)

definition example_addr :: bytes where
  "example_addr = [2, 0, 0, 80, 192, 168, 0, 1] @ replicate 20 0"

lemma example_addr_known: "known_family example_addr"
  by (simp add: known_family_def example_addr_def family_def read_at_def load16_def inet_consts)

theorem InetAddress_roundtrip_witness:
  "\<exists>ip. InetAddress_toIp example_net example_addr = Some ip
    \<and> InetAddress_toIpPort example_net example_addr = Some (ip @ CHR '':'' # dec (unat (toPort example_net example_addr)))
    \<and> ip_of (InetAddress_ip example_net ip (toPort example_net example_addr) (family example_addr = AF_INET6)
         (replicate 28 1)) = ip_of example_addr"
  using InetAddress_roundtrip [OF example_net_laws example_addr_known, of "replicate 28 1"]
  by (auto simp: Let_def)

text \<open>Where a colon ends the address: the last one.\<close>

lemma last_colon:
  assumes "xs @ c # ds = ys @ c # es" and "c \<notin> set ds" and "c \<notin> set es"
  shows "xs = ys \<and> ds = es"
proof -
  have "takeWhile (\<lambda>x. x \<noteq> c) (rev (zs @ c # fs)) = rev fs" if "c \<notin> set fs" for zs fs
    using that by (simp add: takeWhile_append1 takeWhile_tail [symmetric] del: takeWhile_tail)
      (metis (mono_tags, lifting) append_Nil2 set_rev takeWhile.simps(2) takeWhile_append2)
  from this [of ds xs] this [of es ys] assms have "rev ds = rev es" by simp
  with assms(1) show ?thesis by simp
qed

text \<open>C21: \<open>isSelfConnect\<close> says yes exactly if the two ends of the socket print as the same address and
  port; it says no if the local end is not known.\<close>

theorem isSelfConnect_iff:
  assumes "net_laws L" and "known_family a" and "known_family b" and "family a = family b"
  shows "isSelfConnect (Inr a) (Inr b) = (InetAddress_toIpPort L a = InetAddress_toIpPort L b)
    \<and> \<not> isSelfConnect (Inl e) (Inr b)"
proof -
  have inj4: "inet_ntop4 x = inet_ntop4 y \<longleftrightarrow> x = y" if "length x = 4" "length y = 4" for x y
    using that inet_pton_ntop4 by (metis option.inject)
  have inj6: "inet_ntop6 L x = inet_ntop6 L y \<longleftrightarrow> x = y" if "length x = 16" "length y = 16" for x y
    using that assms(1) by (metis net_laws_def option.inject)
  have port: "unat (networkToHost16 L p) = unat (networkToHost16 L q) \<longleftrightarrow> p = q" for p q
    using assms(1) by (metis net_laws_def unsigned_word_eqI)
  have len: "length a = 28" "length b = 28" using assms(2,3) by (simp_all add: known_family_def)
  have "InetAddress_toIpPort L a = InetAddress_toIpPort L b
      \<longleftrightarrow> ip_text L a = ip_text L b \<and> dec (unat (toPort L a)) = dec (unat (toPort L b))"
    using last_colon [of "ip_text L a" "CHR '':''" "dec (unat (toPort L a))" "ip_text L b" "dec (unat (toPort L b))"]
      dec_no_special(4)
    by (auto simp: toIpPort_text [OF assms(1,2)] toIpPort_text [OF assms(1,3)])
  also have "\<dots> \<longleftrightarrow> portNetEndian a = portNetEndian b
      \<and> (if family a = AF_INET then sin_addr a = sin_addr b else sin6_addr a = sin6_addr b)"
    using len assms(4) by (auto simp: ip_text_def toPort_def inj4 inj6 port)
  finally have "isSelfConnect (Inr a) (Inr b) = (InetAddress_toIpPort L a = InetAddress_toIpPort L b)"
    using len assms(2,4)
    by (auto simp: isSelfConnect_def getLocalAddr_def getPeerAddr_def write_at_def known_family_def)
  moreover have "family (replicate 28 0) = 0" by (simp add: family_def read_at_def load16_def numeral_eq_Suc)
  then have "\<not> isSelfConnect (Inl e) (Inr b)"
    by (simp add: isSelfConnect_def getLocalAddr_def inet_consts)
  ultimately show ?thesis by blast
qed

theorem isSelfConnect_iff_witness:
  "isSelfConnect (Inr example_addr) (Inr example_addr)"
  using isSelfConnect_iff [OF example_net_laws example_addr_known example_addr_known refl, of 0] by simp

text \<open>The address a server listens on by default prints as \<open>0.0.0.0\<close>, or as \<open>127.0.0.1\<close> for the
  loopback interface only, with its port.\<close>

theorem InetAddress_any_prints:
  assumes "net_laws L" and "length mem = 28"
  shows "InetAddress_toIpPort L (InetAddress_any L port loopbackOnly False mem)
    = Some ((if loopbackOnly then ''127.0.0.1'' else ''0.0.0.0'') @ CHR '':'' # dec (unat port))"
proof -
  let ?a = "InetAddress_any L port loopbackOnly False mem"
  let ?ip = "store32 (hostToNetwork32 L (if loopbackOnly then INADDR_LOOPBACK else INADDR_ANY))"
  define m where "m = write_at 0 (replicate 16 0) mem"
  have m: "length m = 28" using assms(2) by (simp add: m_def)
  have a: "?a = set_port (hostToNetwork16 L port) (write_at 4 ?ip (set_family AF_INET m))"
    by (simp add: InetAddress_any_def Let_def m_def)
  have f: "family ?a = AF_INET" "sin_addr ?a = ?ip" "known_family ?a" "toPort L ?a = port"
    using m assms(1) by (simp_all add: a known_family_def toPort_def net_laws_def)
  have "?ip = rev (store32 (if loopbackOnly then INADDR_LOOPBACK else INADDR_ANY))"
    using assms(1) by (simp add: net_laws_def)
  then have "?ip = (if loopbackOnly then [127, 0, 0, 1] else [0, 0, 0, 0])"
    by (simp add: store32_def INADDR_LOOPBACK_def INADDR_ANY_def)
  then have "ip_text L ?a = (if loopbackOnly then ''127.0.0.1'' else ''0.0.0.0'')"
    using f by (simp add: ip_text_def inet_ntop4_def dec.simps digit_def char_of_def bit_0)
  with toIpPort_text [OF assms(1) f(3)] f(4) show ?thesis by simp
qed

theorem InetAddress_any_prints_witness:
  "InetAddress_toIpPort example_net (InetAddress_any example_net 8888 True False (replicate 28 7))
    = Some (''127.0.0.1'' @ CHR '':'' # dec 8888)"
  using InetAddress_any_prints [OF example_net_laws, of "replicate 28 7" 8888 True] by simp

end
