(* ===== verification/Sockets.thy ===== *)
theory Sockets
  imports EventLoops Addresses
begin

text \<open>
  The functions of \<^verbatim>\<open>SocketOps.c\<close> on sockets, over the process's table of descriptors as POSIX
  describes it: a new descriptor is the lowest that is free, there are at most \<open>fd_limit\<close> of them, and
  \<open>EMFILE\<close> is the error if none is free. \<open>backlog\<close> are the peers whose connections wait to be
  accepted, \<open>busy\<close> the addresses that cannot be bound, \<open>files\<close> the paths that can be opened. None of the
  functions named \<open>OrDie\<close> ends the process: their error branches only hold a comment.
\<close>

subsection \<open>The descriptor table\<close>

record 'cb net_world = "'cb loop_world" +
  fds :: "fd set"
  fd_limit :: nat
  files :: "string set"
  busy :: "bytes set"
  bound :: "fd \<Rightarrow> bytes option"
  listeners :: "fd set"
  backlog :: "bytes list"

definition EBADF :: errno where "EBADF = 9"
definition EAGAIN :: errno where "EAGAIN = 11"
definition EINVAL :: errno where "EINVAL = 22"
definition EMFILE :: errno where "EMFILE = 24"
definition ENOENT :: errno where "ENOENT = 2"
definition EADDRINUSE :: errno where "EADDRINUSE = 98"

lemmas sock_errnos = EBADF_def EAGAIN_def EINVAL_def EMFILE_def ENOENT_def EADDRINUSE_def

definition free_fd :: "('cb, 'z) net_world_scheme \<Rightarrow> fd option" where
  "free_fd w = find (\<lambda>f. f \<notin> fds w) (map int [0..<fd_limit w])"

text \<open>System calls: the new state, and the value or the error number.\<close>

definition sys_socket :: "('cb, 'z) net_world_scheme \<Rightarrow> ('cb, 'z) net_world_scheme \<times> (errno + fd)" where
  "sys_socket w = (case free_fd w of
     None \<Rightarrow> (w, Inl EMFILE) | Some f \<Rightarrow> (w\<lparr>fds := insert f (fds w)\<rparr>, Inr f))"

definition sys_open :: "string \<Rightarrow> ('cb, 'z) net_world_scheme \<Rightarrow> ('cb, 'z) net_world_scheme \<times> (errno + fd)" where
  "sys_open path w = (if path \<in> files w then sys_socket w else (w, Inl ENOENT))"

definition sys_close :: "fd \<Rightarrow> ('cb, 'z) net_world_scheme \<Rightarrow> ('cb, 'z) net_world_scheme \<times> int" where
  "sys_close f w = (if f \<in> fds w
     then (w\<lparr>fds := fds w - {f}, bound := (bound w)(f := None), listeners := listeners w - {f}\<rparr>, 0)
     else (w, -1))"

definition sys_bind :: "fd \<Rightarrow> bytes \<Rightarrow> ('cb, 'z) net_world_scheme \<Rightarrow> ('cb, 'z) net_world_scheme \<times> int" where
  "sys_bind f addr w = (if f \<in> fds w \<and> addr \<notin> busy w then (w\<lparr>bound := (bound w)(f \<mapsto> addr)\<rparr>, 0) else (w, -1))"

definition sys_listen :: "fd \<Rightarrow> ('cb, 'z) net_world_scheme \<Rightarrow> ('cb, 'z) net_world_scheme \<times> int" where
  "sys_listen f w = (if f \<in> fds w then (w\<lparr>listeners := insert f (listeners w)\<rparr>, 0) else (w, -1))"

text \<open>\<open>fault\<close> is an error of the network. The descriptor is reserved before the backlog is looked at.\<close>

definition sys_accept :: "fd \<Rightarrow> errno option \<Rightarrow> ('cb, 'z) net_world_scheme
    \<Rightarrow> ('cb, 'z) net_world_scheme \<times> (errno + fd \<times> bytes)" where
  "sys_accept f fault w =
     (if f \<notin> fds w then (w, Inl EBADF)
      else if f \<notin> listeners w then (w, Inl EINVAL)
      else case fault of Some e \<Rightarrow> (w, Inl e)
      | None \<Rightarrow> (case free_fd w of None \<Rightarrow> (w, Inl EMFILE)
        | Some n \<Rightarrow> (case backlog w of [] \<Rightarrow> (w, Inl EAGAIN)
          | peer # rest \<Rightarrow> (w\<lparr>fds := insert n (fds w), backlog := rest\<rparr>, Inr (n, peer)))))"

definition int_result :: "errno + fd \<Rightarrow> int" where
  "int_result r = (case r of Inl e \<Rightarrow> -1 | Inr f \<Rightarrow> f)"

subsection \<open>\<open>sockets::\<close> functions\<close>

definition createNonblockingOrDie :: "16 word \<Rightarrow> ('cb, 'z) net_world_scheme \<Rightarrow> ('cb, 'z) net_world_scheme \<times> fd" where
  "createNonblockingOrDie sa_family w = (let (w, r) = sys_socket w in (w, int_result r))"

definition bindOrDie :: "fd \<Rightarrow> bytes \<Rightarrow> ('cb, 'z) net_world_scheme \<Rightarrow> ('cb, 'z) net_world_scheme" where
  "bindOrDie sockfd addr w = (let (w, ret) = sys_bind sockfd addr w in w)"

definition listenOrDie :: "fd \<Rightarrow> ('cb, 'z) net_world_scheme \<Rightarrow> ('cb, 'z) net_world_scheme" where
  "listenOrDie sockfd w = (let (w, ret) = sys_listen sockfd w in w)"

text \<open>\<open>accept\<close> gives the descriptor or -1, the peer's address, and \<open>errno\<close>, which its \<open>switch\<close> restores.\<close>

definition sock_accept :: "fd \<Rightarrow> errno option \<Rightarrow> ('cb, 'z) net_world_scheme
    \<Rightarrow> ('cb, 'z) net_world_scheme \<times> fd \<times> bytes \<times> errno" where
  "sock_accept sockfd fault w =
     (case sys_accept sockfd fault w of
        (w, Inr (connfd, peer)) \<Rightarrow> (w, connfd, peer, 0)
      | (w, Inl savedErrno) \<Rightarrow> (w, -1, [], savedErrno))"

text \<open>\<open>r\<close> is what the network answered; a descriptor that is not open is an error of its own.\<close>

definition sock_connect :: "fd \<Rightarrow> errno + unit \<Rightarrow> ('cb, 'z) net_world_scheme \<Rightarrow> errno + unit" where
  "sock_connect sockfd r w = (if sockfd \<in> fds w then r else Inl EBADF)"

definition sock_close :: "fd \<Rightarrow> ('cb, 'z) net_world_scheme \<Rightarrow> ('cb, 'z) net_world_scheme" where
  "sock_close sockfd w = (let (w, ret) = sys_close sockfd w in w)"

lemmas sock_defs = createNonblockingOrDie_def bindOrDie_def listenOrDie_def sock_accept_def sock_connect_def
  sock_close_def sys_socket_def sys_open_def sys_close_def sys_bind_def sys_listen_def sys_accept_def int_result_def

subsection \<open>Lemmas\<close>

lemma free_fd_Some:
  assumes "free_fd w = Some f"
  shows "f \<notin> fds w" "0 \<le> f" "f < int (fd_limit w)" "\<And>g. 0 \<le> g \<Longrightarrow> g < f \<Longrightarrow> g \<in> fds w"
proof -
  from assms obtain i where i: "i < fd_limit w" "f = int i" "int i \<notin> fds w" "\<forall>j<i. int j \<in> fds w"
    by (auto simp: free_fd_def find_Some_iff)
  then show "f \<notin> fds w" "0 \<le> f" "f < int (fd_limit w)" by simp_all
  show "g \<in> fds w" if "0 \<le> g" "g < f" for g
    using i(4) that i(2) zero_le_imp_eq_int by fastforce
qed

lemma free_fd_None: "(free_fd w = None) = (\<forall>f. 0 \<le> f \<longrightarrow> f < int (fd_limit w) \<longrightarrow> f \<in> fds w)"
proof -
  have "(free_fd w = None) = (\<forall>i<fd_limit w. int i \<in> fds w)"
    by (auto simp: free_fd_def find_None_iff)
  also have "\<dots> = (\<forall>f. 0 \<le> f \<longrightarrow> f < int (fd_limit w) \<longrightarrow> f \<in> fds w)"
    by (metis of_nat_0_le_iff of_nat_less_iff zero_le_imp_eq_int)
  finally show ?thesis .
qed

text \<open>The one descriptor that closing \<open>f\<close> frees is found again.\<close>

lemma free_fd_only:
  assumes "free_fd w = None" and "0 \<le> f" and "f < int (fd_limit w)"
    and "fds w' = fds w - {f}" and "fd_limit w' = fd_limit w"
  shows "free_fd w' = Some f"
proof -
  have "free_fd w' \<noteq> None" using assms by (auto simp: free_fd_None)
  then obtain g where g: "free_fd w' = Some g" by blast
  have "g = f" using free_fd_Some [OF g] assms free_fd_None [of w] by auto
  with g show ?thesis by simp
qed

end
