(* ===== verification/Acceptors.thy ===== *)
theory Acceptors
  imports Sockets
begin

text \<open>
  \<^verbatim>\<open>Acceptor.h\<close> and \<^verbatim>\<open>Acceptor.c\<close>: the listening socket of a server, its channel, and the spare
  descriptor that is given up for a moment when the process has run out of descriptors. The callback
  for new connections is a parameter, given the descriptor and the peer's address.
\<close>

subsection \<open>The class\<close>

datatype 'u acceptor_cb = AcceptorRead | AcceptorOther 'u

record 'u acceptor_world = "'u acceptor_cb net_world" +
  acceptSocket :: fd
  acceptChannel :: ptr
  newConnectionCallback :: "'u option"
  listenning :: bool
  idleFd :: fd
  reuseAddr :: bool
  reusePort :: bool

type_synonym 'u acceptor_op = "'u acceptor_world \<Rightarrow> 'u acceptor_world option"

definition Acceptor :: "ptr \<Rightarrow> bytes \<Rightarrow> bool \<Rightarrow> 'u acceptor_op" where
  "Acceptor p listenAddr reuseport w =
     do { let (w, sockfd) = createNonblockingOrDie (family listenAddr) w;
          let w = w\<lparr>acceptSocket := sockfd, acceptChannel := p, newConnectionCallback := None,
                    chans := (chans w)(p \<mapsto> Channel (this w) sockfd), listenning := False\<rparr>;
          let (w, r) = sys_open ''/dev/null'' w;
          let w = w\<lparr>idleFd := int_result r\<rparr>;
          chk (idleFd w \<ge> 0);
          let w = w\<lparr>reuseAddr := True\<rparr>;
          let w = w\<lparr>reusePort := reuseport\<rparr>;
          let w = bindOrDie (acceptSocket w) listenAddr w;
          modify_chan p (\<lambda>ch. ch\<lparr>readCallback := Some AcceptorRead\<rparr>) w }"

definition setNewConnectionCallback :: "'u option \<Rightarrow> 'u acceptor_world \<Rightarrow> 'u acceptor_world" where
  "setNewConnectionCallback cb w = w\<lparr>newConnectionCallback := cb\<rparr>"

text \<open>The destructor, and those of the channel and of the socket, which closes its descriptor.\<close>

definition Acceptor_dtor :: "(ptr \<Rightarrow> 'u acceptor_world \<Rightarrow> bool) \<Rightarrow> 'u acceptor_op" where
  "Acceptor_dtor poller_has w =
     do { w \<leftarrow> disableAll updateChannel (acceptChannel w) w;
          w \<leftarrow> remove_channel removeChannel (acceptChannel w) w;
          let (w, ret) = sys_close (idleFd w) w;
          w \<leftarrow> Channel_dtor True (hasChannel poller_has) (acceptChannel w) w;
          Some (sock_close (acceptSocket w) w) }"

definition listen :: "'u acceptor_op" where
  "listen w =
     do { w \<leftarrow> assertInLoopThread True w;
          let w = w\<lparr>listenning := True\<rparr>;
          let w = listenOrDie (acceptSocket w) w;
          enableReading updateChannel (acceptChannel w) w }"

definition handleRead :: "('u \<Rightarrow> fd \<Rightarrow> bytes \<Rightarrow> 'u acceptor_op) \<Rightarrow> errno option \<Rightarrow> 'u acceptor_op" where
  "handleRead run_user fault w =
     do { w \<leftarrow> assertInLoopThread True w;
          let (w, connfd, peerAddr, errno) = sock_accept (acceptSocket w) fault w;
          if connfd \<ge> 0
          then (case newConnectionCallback w of
                  Some u \<Rightarrow> run_user u connfd peerAddr w
                | None \<Rightarrow> Some (sock_close connfd w))
          else if errno = EMFILE
          then do {
            let (w, ret) = sys_close (idleFd w) w;
            let (w, r) = sys_accept (acceptSocket w) None w;
            let w = w\<lparr>idleFd := (case r of Inl e \<Rightarrow> -1 | Inr (f, peer) \<Rightarrow> f)\<rparr>;
            let (w, ret) = sys_close (idleFd w) w;
            let (w, r) = sys_open ''dev/null'' w;
            Some (w\<lparr>idleFd := int_result r\<rparr>) }
          else Some w }"

subsection \<open>Accepting\<close>

text \<open>The socket is listening.\<close>

definition listening :: "'u acceptor_world \<Rightarrow> bool" where
  "listening w \<longleftrightarrow> acceptSocket w \<in> fds w \<and> acceptSocket w \<in> listeners w"

text \<open>C22: With a free descriptor and a peer waiting, \<open>handleRead\<close> accepts the first peer on the lowest
  free descriptor and hands both to the callback; without a callback it closes the descriptor again.\<close>

theorem accept_dispatch:
  assumes "listening w" and "backlog w = peer # rest" and "free_fd w = Some f"
  shows "handleRead run_user None w =
    (case newConnectionCallback w of
       Some u \<Rightarrow> run_user u f peer (w\<lparr>fds := insert f (fds w), backlog := rest\<rparr>)
     | None \<Rightarrow> Some (w\<lparr>backlog := rest, bound := (bound w)(f := None), listeners := listeners w - {f}\<rparr>))"
proof -
  have f: "0 \<le> f" "f \<notin> fds w" using free_fd_Some [OF assms(3)] by simp_all
  have a: "sock_accept (acceptSocket w) None w = (w\<lparr>fds := insert f (fds w), backlog := rest\<rparr>, f, peer, 0)"
    using assms by (simp add: sock_accept_def sys_accept_def listening_def)
  have c: "sock_close f (w\<lparr>fds := insert f (fds w), backlog := rest\<rparr>)
      = w\<lparr>backlog := rest, bound := (bound w)(f := None), listeners := listeners w - {f}\<rparr>"
    using f(2) by (intro acceptor_world.equality) (simp_all add: sock_close_def sys_close_def)
  show ?thesis using f(1) a c by (simp add: handleRead_def assertInLoopThread_def split: option.splits)
qed

subsection \<open>Out of descriptors\<close>

lemma accept_full:
  "listening w \<Longrightarrow> free_fd w = None \<Longrightarrow> sock_accept (acceptSocket w) None w = (w, -1, [], EMFILE)"
  by (simp add: sock_accept_def sys_accept_def listening_def)

text \<open>The spare descriptor is one of the table's and not the socket.\<close>

definition spare :: "'u acceptor_world \<Rightarrow> bool" where
  "spare w \<longleftrightarrow> idleFd w \<in> fds w \<and> 0 \<le> idleFd w \<and> idleFd w < int (fd_limit w) \<and> idleFd w \<noteq> acceptSocket w"

text \<open>One round of the trick, up to the reopening.\<close>

lemma emfile_round:
  assumes "listening w" and "free_fd w = None" and "spare w" and "backlog w = peer # rest"
  shows "handleRead run_user None w =
    (let v = w\<lparr>fds := fds w - {idleFd w}, backlog := rest, bound := (bound w)(idleFd w := None),
               listeners := listeners w - {idleFd w}\<rparr>;
         (v, r) = sys_open ''dev/null'' v
     in Some (v\<lparr>idleFd := int_result r\<rparr>))"
proof -
  let ?i = "idleFd w"
  let ?w1 = "w\<lparr>fds := fds w - {?i}, bound := (bound w)(?i := None), listeners := listeners w - {?i}\<rparr>"
  have i: "?i \<in> fds w" "0 \<le> ?i" "?i < int (fd_limit w)" "acceptSocket w \<noteq> ?i"
    using assms(3) by (auto simp: spare_def)
  have c1: "sys_close ?i w = (?w1, 0)" using i(1) by (simp add: sys_close_def)
  have "free_fd ?w1 = Some ?i" by (rule free_fd_only [OF assms(2) i(2,3)]) simp_all
  then have a: "sys_accept (acceptSocket w) None ?w1
      = (?w1\<lparr>fds := insert ?i (fds w), backlog := rest\<rparr>, Inr (?i, peer))"
    using assms(1,4) i(1,4) by (simp add: sys_accept_def listening_def insert_absorb)
  let ?w2 = "?w1\<lparr>fds := insert ?i (fds w), backlog := rest, idleFd := ?i\<rparr>"
  let ?v = "w\<lparr>fds := fds w - {?i}, backlog := rest, bound := (bound w)(?i := None), listeners := listeners w - {?i}\<rparr>"
  have "sys_close ?i ?w2 = (?v, 0)"
    by (simp add: sys_close_def)
  with accept_full [OF assms(1,2)] c1 a i(2) show ?thesis
    by (simp add: handleRead_def assertInLoopThread_def Let_def)
qed


text \<open>\<^verbatim>\<open>dev/null\<close> is a relative path. Where it cannot be opened the spare descriptor is gone after
  the first such event; from then on, whenever the table is full, \<open>handleRead\<close> changes nothing: the
  peer stays in the backlog, and level-triggered epoll reports the socket again at once, for ever.\<close>

theorem emfile_relative_path_stuck:
  assumes "listening w" and "free_fd w = None" and "spare w" and "backlog w = peer # rest"
    and "''dev/null'' \<notin> files w"
  shows "(\<exists>w'. handleRead run_user None w = Some w' \<and> idleFd w' = -1 \<and> fds w' = fds w - {idleFd w})
    \<and> (\<forall>v. listening v \<and> free_fd v = None \<and> idleFd v = -1 \<and> -1 \<notin> fds v \<longrightarrow> handleRead run_user None v = Some v)"
proof -
  have "handleRead run_user None v = Some v"
    if v: "listening v" "free_fd v = None" "idleFd v = -1" "-1 \<notin> fds v" for v
  proof -
    have "sys_accept (acceptSocket v) None v = (v, Inl EMFILE)"
      using v(1,2) by (simp add: sys_accept_def listening_def)
    moreover have "\<exists>e. sys_open ''dev/null'' v = (v, Inl e)"
      using v(2) by (simp add: sys_open_def sys_socket_def)
    moreover have eq: "v\<lparr>idleFd := -1\<rparr> = v" using v(3) by (intro acceptor_world.equality) simp_all
    ultimately show ?thesis
      using accept_full [OF v(1,2)] v(3,4)
      by (auto simp: handleRead_def assertInLoopThread_def sys_close_def int_result_def eq)
  qed
  then show ?thesis
    using emfile_round [OF assms(1-4), of run_user] assms(5)
    by (auto simp: sys_open_def int_result_def)
qed

definition example_acceptor :: "nat acceptor_world" where
  "example_acceptor = net_world.extend (loop_world.extend (EventLoop 1 16 0)
       \<lparr>fds = {0, 1, 2, 3}, fd_limit = 4, files = {''/dev/null''}, busy = {}, bound = Map.empty,
        listeners = {2}, backlog = [[1], [2]]\<rparr>)
     \<lparr>acceptSocket = 2, acceptChannel = 8, newConnectionCallback = None, listenning = True, idleFd = 3,
      reuseAddr = True, reusePort = False\<rparr>"

lemma example_acceptor_simps [simp]:
  "fds example_acceptor = {0, 1, 2, 3}" "fd_limit example_acceptor = 4" "files example_acceptor = {''/dev/null''}"
  "backlog example_acceptor = [[1], [2]]" "listeners example_acceptor = {2}" "acceptSocket example_acceptor = 2"
  "idleFd example_acceptor = 3" "newConnectionCallback example_acceptor = None"
  by (simp_all add: example_acceptor_def net_world.defs loop_world.defs)

lemma example_acceptor_ok: "listening example_acceptor" "free_fd example_acceptor = None" "spare example_acceptor"
  by (auto simp: listening_def spare_def free_fd_None)

theorem accept_dispatch_witness:
  "\<exists>w. handleRead (\<lambda>u f p w. None) None (example_acceptor\<lparr>fds := {0, 1, 2}\<rparr>) = Some w \<and> backlog w = [[2]]"
proof -
  let ?w = "example_acceptor\<lparr>fds := {0, 1, 2}\<rparr>"
  have "free_fd ?w = Some 3" by (simp add: free_fd_def upt_rec)
  moreover have "listening ?w" by (simp add: listening_def)
  ultimately show ?thesis using accept_dispatch [of ?w "[1]" "[[2]]" 3 "\<lambda>u f p w. None"] by simp
qed


theorem emfile_relative_path_stuck_witness:
  "\<exists>w. handleRead (\<lambda>u f p w. None) None example_acceptor = Some w \<and> idleFd w = -1 \<and> fds w = {0, 1, 2}"
  using emfile_relative_path_stuck [OF example_acceptor_ok, of "[1]" "[[2]]" "\<lambda>u f p w. None"] by auto

subsection \<open>Construction, listening and destruction\<close>

lemma poller_update_acceptor:
  fixes w w' :: "'u acceptor_world"
  assumes "poller_update w w'"
  shows "acceptSocket w' = acceptSocket w" "acceptChannel w' = acceptChannel w" "idleFd w' = idleFd w"
    "fds w' = fds w" "bound w' = bound w" "listeners w' = listeners w"
proof -
  have w: "w = w'\<lparr>chans := chans w, channels := channels w, interest := interest w, ctl_rets := ctl_rets w\<rparr>"
    using assms by (simp add: poller_update_def)
  show "acceptSocket w' = acceptSocket w" "acceptChannel w' = acceptChannel w" "idleFd w' = idleFd w"
    "fds w' = fds w" "bound w' = bound w" "listeners w' = listeners w"
    by (subst w, simp)+
qed

text \<open>What the constructor makes: two descriptors that were free, and a channel that waits for nothing.\<close>

lemma Acceptor_ok:
  assumes inv: "linv {} w" and fresh: "chans w p = None" and two: "free_fd w = Some f"
    "free_fd (w\<lparr>fds := insert f (fds w)\<rparr>) = Some g" and null: "''/dev/null'' \<in> files w"
  shows "\<exists>v. Acceptor p addr rp w = Some v \<and> linv {} v \<and> acceptChannel v = p \<and> acceptSocket v = f \<and> idleFd v = g
    \<and> fds v = insert g (insert f (fds w)) \<and> bound v f = (if addr \<in> busy w then bound w f else Some addr)
    \<and> listeners v = listeners w \<and> interest v = interest w \<and> handlingEvents v = handlingEvents w
    \<and> chans v = (chans w)(p \<mapsto> (Channel (this w) f)\<lparr>readCallback := Some AcceptorRead\<rparr>)"
proof -
  let ?d = "Channel (this w) f :: 'a acceptor_cb channel"
  let ?w1 = "w\<lparr>fds := insert f (fds w), acceptSocket := f, acceptChannel := p, newConnectionCallback := None,
      chans := (chans w)(p \<mapsto> ?d), listenning := False\<rparr>"
  have fg: "0 \<le> f" "0 \<le> g" "f \<notin> fds w" "g \<notin> insert f (fds w)"
    using free_fd_Some [OF two(1)] free_fd_Some [OF two(2)] by simp_all
  have s: "createNonblockingOrDie (family addr) w = (w\<lparr>fds := insert f (fds w)\<rparr>, f)"
    using two(1) by (simp add: createNonblockingOrDie_def sys_socket_def int_result_def)
  have "free_fd ?w1 = Some g" using two(2) by (simp add: free_fd_def)
  then have o: "sys_open ''/dev/null'' ?w1 = (?w1\<lparr>fds := insert g (insert f (fds w))\<rparr>, Inr g)"
    using null by (simp add: sys_open_def sys_socket_def)
  let ?w2 = "?w1\<lparr>fds := insert g (insert f (fds w)), idleFd := g, reuseAddr := True, reusePort := rp\<rparr>"
  let ?w3 = "bindOrDie f addr ?w2"
  have w3: "chans ?w3 = chans ?w2" "channels ?w3 = channels w" "interest ?w3 = interest w" "ctl_rets ?w3 = ctl_rets w"
    "this ?w3 = this w" "acceptChannel ?w3 = p" "acceptSocket ?w3 = f" "idleFd ?w3 = g" "fds ?w3 = fds ?w2"
    "bound ?w3 f = (if addr \<in> busy w then bound w f else Some addr)" "listeners ?w3 = listeners w"
    "handlingEvents ?w3 = handlingEvents w"
    by (simp_all add: bindOrDie_def sys_bind_def)
  let ?d' = "?d\<lparr>readCallback := Some AcceptorRead\<rparr>"
  let ?v = "?w3\<lparr>chans := (chans ?w3)(p \<mapsto> ?d')\<rparr>"
  have "linv {} (w\<lparr>chans := (chans w)(p \<mapsto> ?d')\<rparr>)"
    by (rule linv_new_channel [OF inv fresh, of ?d' f]) (simp_all add: Channel_def index_defs)
  then have "linv {} ?v"
    using linv_cong [of ?v "w\<lparr>chans := (chans w)(p \<mapsto> ?d')\<rparr>" "{}"] w3 by simp
  moreover have "Acceptor p addr rp w = Some ?v"
    using s o fg(2) w3(1) by (simp add: Acceptor_def int_result_def modify_chan_def)
  ultimately show ?thesis using w3 by (intro exI [of _ ?v]) simp
qed

text \<open>\<open>listen\<close> on a socket whose channel is not registered yet.\<close>

lemma listen_ok:
  fixes v :: "'u acceptor_world"
  assumes inv: "linv {} v" and ch: "chans v p = Some d" "events d = 0" "fd d = f" and own: "fd_owner p v"
    and mem: "acceptChannel v = p" "acceptSocket v = f" "f \<in> fds v"
  shows "\<exists>u i. listen v = Some u \<and> linv {} u \<and> listening u \<and> watched u = (watched v)(f \<mapsto> kReadEvent)
    \<and> chans u = (chans v)(p \<mapsto> d\<lparr>events := kReadEvent, addedToLoop := True, index := i\<rparr>) \<and> fd_owner p u
    \<and> acceptChannel u = p \<and> acceptSocket u = f \<and> idleFd u = idleFd v \<and> fds u = fds v \<and> bound u = bound v
    \<and> handlingEvents u = handlingEvents v"
proof -
  let ?l = "v\<lparr>listenning := True, listeners := insert f (listeners v)\<rparr>"
  have linv: "linv {} ?l" using inv linv_cong [of ?l v "{}"] by simp
  have cl: "chans ?l p = Some d" using ch by simp
  have owl: "fd_owner p ?l" using own by (simp add: fd_owner_def)
  from loop.set_events_ok [OF linv cl owl, of "\<lambda>e. e OR kReadEvent"] ch obtain u i where
    u: "enableReading updateChannel p ?l = Some u" "linv {} u"
      "chans u = (chans ?l)(p \<mapsto> d\<lparr>events := kReadEvent, addedToLoop := True, index := i\<rparr>)"
      "watched u = watch_after f kReadEvent (watched ?l)"
    unfolding set_events_ops by auto
  have pu: "poller_update ?l u" using u(1) poller_update_set_events unfolding set_events_ops by blast
  note fu = poller_update_acceptor [OF pu] poller_update_frame_loop [OF pu]
  have "listen v = Some u"
    using mem u(1) by (simp add: listen_def assertInLoopThread_def listenOrDie_def sys_listen_def)
  moreover have "watched ?l = watched v" by (simp add: watched_def fun_eq_iff)
  then have "watched u = (watched v)(f \<mapsto> kReadEvent)" using u(4) by (simp add: watch_read)
  moreover have "listening u" using fu mem by (simp add: listening_def)
  moreover have "fd_owner p u" by (rule fd_owner_update [where c' = "d\<lparr>events := kReadEvent, addedToLoop := True, index := i\<rparr>", OF owl cl]) (simp_all add: u(3))
  ultimately show ?thesis using u(2,3) fu mem by (intro exI [of _ u] exI [of _ i]) simp
qed

text \<open>The destructor ends the watching and closes both descriptors.\<close>

lemma Acceptor_dtor_ok:
  fixes u :: "'u acceptor_world"
  assumes inv: "linv {} u" and ch: "chans u p = Some c0" "fd c0 = f" "\<not> eventHandling c0" and own: "fd_owner p u"
    and idle: "\<not> handlingEvents u" and mem: "acceptChannel u = p" "acceptSocket u = f" "idleFd u = g" "{f, g} \<subseteq> fds u" "f \<noteq> g"
    and has: "\<And>p (w :: 'u acceptor_world). poller_has p w = (\<exists>ch. chans w p = Some ch \<and> channels w (fd ch) = Some p)"
  shows "\<exists>x. Acceptor_dtor poller_has u = Some x \<and> watched x = (watched u)(f := None) \<and> fds x = fds u - {f, g}
    \<and> chans x = (chans u)(p := None)"
proof -
  from retire_ok [OF inv ch(1) own idle ch(3)] obtain x y c where
    y: "disableAll updateChannel p u = Some x" "remove_channel removeChannel p x = Some y" "linv {} y"
      "poller_update u y" "chans y = (chans u)(p \<mapsto> c)" "\<not> addedToLoop c" "\<not> eventHandling c"
      "watched y = (watched u)(f := None)" using ch(2) by auto
  note fy = poller_update_acceptor [OF y(4)]
  have "poller_update u x" using y(1) poller_update_set_events unfolding set_events_ops by blast
  note fx = poller_update_acceptor [OF this]
  let ?z = "y\<lparr>fds := fds y - {g}, bound := (bound y)(g := None), listeners := listeners y - {g}\<rparr>"
  have cz: "sys_close g y = (?z, 0)" using fy mem by (simp add: sys_close_def)
  have "linv {} ?z" using y(3) linv_cong [of ?z y "{}"] by simp
  from deleted_ok [where p = p and poller_has = poller_has, OF this _ y(6,7)] has y(5) have
    d: "Channel_dtor True (hasChannel poller_has) p ?z = Some (?z\<lparr>chans := (chans ?z)(p := None)\<rparr>)" by auto
  let ?e = "sock_close f (?z\<lparr>chans := (chans ?z)(p := None)\<rparr>)"
  have "Acceptor_dtor poller_has u = Some ?e"
    using y(1,2) cz d fx fy mem by (simp add: Acceptor_dtor_def)
  moreover have "fds ?e = fds u - {f, g}"
    using fy mem by (auto simp: sock_close_def sys_close_def)
  moreover have "chans ?e = (chans u)(p := None)"
    using y(5) by (auto simp: sock_close_def sys_close_def)
  moreover have "watched ?e = (watched u)(f := None)"
    using y(8) watched_cong [of ?e y] by (simp add: sock_close_def sys_close_def watched_def fun_eq_iff)
  ultimately show ?thesis by blast
qed

lemma unwatched:
  assumes inv: "linv {} w" and other: "\<forall>q c. chans w q = Some c \<longrightarrow> fd c \<in> fds w" and f: "f \<notin> fds w"
  shows "(watched w)(f := None) = watched w"
proof -
  have "interest w f = None"
  proof (rule ccontr)
    assume "interest w f \<noteq> None"
    then obtain e q where "interest w f = Some (e, q)" by auto
    with pinv_interest [of "{}" w f e q] inv other f show False by (auto simp: linv_def)
  qed
  then show ?thesis by (simp add: watched_def fun_eq_iff)
qed

text \<open>C24: A new acceptor that listens has its socket watched for reading and nothing else changed for the
  poller; it listens even if its address is in use, since \<open>bindOrDie\<close> goes on. Its destructor fails
  no assertion, ends the watching and closes both descriptors, so that exactly those that were open
  before are open again.\<close>

theorem Acceptor_lifecycle:
  assumes inv: "linv {} w" and fresh: "chans w p = None" and two: "free_fd w = Some f"
    "free_fd (w\<lparr>fds := insert f (fds w)\<rparr>) = Some g" and null: "''/dev/null'' \<in> files w"
    and other: "\<forall>q c. chans w q = Some c \<longrightarrow> fd c \<in> fds w" and idle: "\<not> handlingEvents w"
    and has: "\<And>p (w :: 'u acceptor_world). poller_has p w = (\<exists>ch. chans w p = Some ch \<and> channels w (fd ch) = Some p)"
  shows "\<exists>v u. Acceptor p addr rp w = Some v \<and> listen v = Some (u :: 'u acceptor_world) \<and> listening u
    \<and> watched u = (watched w)(f \<mapsto> kReadEvent) \<and> bound u f = (if addr \<in> busy w then bound w f else Some addr)
    \<and> (\<exists>x. Acceptor_dtor poller_has u = Some x \<and> watched x = watched w \<and> fds x = fds w \<and> chans x = chans w)"
proof -
  let ?d = "(Channel (this w) f :: 'u acceptor_cb channel)\<lparr>readCallback := Some AcceptorRead\<rparr>"
  have fg: "f \<notin> fds w" "g \<notin> insert f (fds w)"
    using free_fd_Some [OF two(1)] free_fd_Some [OF two(2)] by simp_all
  from Acceptor_ok [OF inv fresh two null, of addr rp] obtain v where
    v: "Acceptor p addr rp w = Some v" "linv {} v" "acceptChannel v = p" "acceptSocket v = f" "idleFd v = g"
      "fds v = insert g (insert f (fds w))" "bound v f = (if addr \<in> busy w then bound w f else Some addr)"
      "interest v = interest w" "handlingEvents v = handlingEvents w" "chans v = (chans w)(p \<mapsto> ?d)" by blast
  have cv: "chans v p = Some ?d" "events ?d = 0" "fd ?d = f" "f \<in> fds v" using v(6,10) by (simp_all add: Channel_def)
  have own: "fd_owner p v" using v(10) fg(1) other by (auto simp: fd_owner_def Channel_def split: if_splits)
  have wv: "watched v = watched w" using v(8) by (simp add: watched_def fun_eq_iff)
  from listen_ok [OF v(2) cv(1-3) own v(3,4) cv(4)] obtain u i where
    u: "listen v = Some u" "linv {} u" "listening u" "watched u = (watched v)(f \<mapsto> kReadEvent)"
      "chans u = (chans v)(p \<mapsto> ?d\<lparr>events := kReadEvent, addedToLoop := True, index := i\<rparr>)" "fd_owner p u"
      "acceptChannel u = p" "acceptSocket u = f" "idleFd u = g" "fds u = fds v" "bound u = bound v"
      "handlingEvents u = handlingEvents v" using v(5) by auto
  have cu: "chans u p = Some (?d\<lparr>events := kReadEvent, addedToLoop := True, index := i\<rparr>)" using u(5) by simp
  have idleu: "\<not> handlingEvents u" "{f, g} \<subseteq> fds u" "f \<noteq> g" using u(10,12) v(6,9) idle fg by auto
  from Acceptor_dtor_ok [where poller_has = poller_has, OF u(2) cu _ _ u(6) idleu(1) u(7-9) idleu(2,3) has] obtain x where
    x: "Acceptor_dtor poller_has u = Some x" "watched x = (watched u)(f := None)" "fds x = fds u - {f, g}"
      "chans x = (chans u)(p := None)" by (auto simp: Channel_def)
  have "watched x = watched w" using x(2) u(4) wv unwatched [OF inv other fg(1)] by simp
  moreover have "fds x = fds w" using x(3) u(10) v(6) fg by auto
  moreover have "chans x = chans w" using x(4) u(5) v(10) fresh by auto
  ultimately show ?thesis using v(1,7) u(1,3,4,11) wv x(1) by auto
qed

theorem Acceptor_lifecycle_witness:
  "\<exists>v u x. Acceptor 8 [2] False (example_acceptor\<lparr>fds := {0, 1}, files := {''/dev/null''}, busy := {[2]}\<rparr>) = Some v
    \<and> listen v = Some u \<and> listening u \<and> bound u 2 = None \<and> watched u = [2 \<mapsto> kReadEvent]
    \<and> Acceptor_dtor (\<lambda>p w. \<exists>ch. chans w p = Some ch \<and> channels w (fd ch) = Some p) u = Some x \<and> fds x = {0, 1}"
proof -
  let ?w = "example_acceptor\<lparr>fds := {0, 1}, files := {''/dev/null''}, busy := {[2]}\<rparr>"
  have w: "chans ?w = Map.empty" "linv {} ?w" "watched ?w = Map.empty" "\<not> handlingEvents ?w" "bound ?w = Map.empty"
    by (simp_all add: example_acceptor_def net_world.defs loop_world.defs EventLoop_def poll_world.defs EPollPoller_def
        linv_def pinv_def watched_def fun_eq_iff)
  have f: "free_fd ?w = Some 2" "free_fd (?w\<lparr>fds := insert 2 (fds ?w)\<rparr>) = Some 3"
    by (simp_all add: free_fd_def upt_rec)
  from Acceptor_lifecycle [OF w(2) _ f, of 8 "\<lambda>p w. \<exists>ch. chans w p = Some ch \<and> channels w (fd ch) = Some p" "[2]" False] w
  show ?thesis by auto
qed

end
