(* ===== verification/Connectors.thy ===== *)
theory Connectors
  imports Sockets
begin

text \<open>
  \<^verbatim>\<open>Connector.h\<close> and \<^verbatim>\<open>Connector.c\<close>: the state machine that makes a connection to a server, tries again
  after a growing delay, and hands the connected descriptor over. What the kernel answers during one
  call, the clock, and the addresses of new objects are the record \<open>env\<close>; the callback for the new
  connection is the parameter \<open>new_connection\<close>.
\<close>

subsection \<open>The class\<close>

datatype States = Disconnected | Connecting | Connected

text \<open>What the connector binds into channels, functors and timers.\<close>

datatype 'u connector_cb = ConnectorWrite | ConnectorError | StartInLoop | StopInLoop | ResetChannel
  | ConnectorOther 'u

record 'u connector_world = "'u connector_cb net_world" +
  serverAddr :: bytes
  connect_flag :: bool
  cstate :: States
  cchannel :: "ptr option"
  retryDelayMs :: int

type_synonym ('u, 'z) connector_op = "('u, 'z) connector_world_scheme \<Rightarrow> ('u, 'z) connector_world_scheme option"

record env =
  connect_result :: "errno + unit"
  so_error :: "errno + int"
  sockname :: "errno + bytes"
  peername :: "errno + bytes"
  retry_now :: timestamp
  retry_clock :: timestamp
  timer_mem :: ptr
  channel_mem :: ptr

definition kMaxRetryDelayMs :: int where "kMaxRetryDelayMs = 30 * 1000"
definition kInitRetryDelayMs :: int where "kInitRetryDelayMs = 500"

definition EISCONN :: errno where "EISCONN = 106"
definition EINPROGRESS :: errno where "EINPROGRESS = 115"
definition EADDRNOTAVAIL :: errno where "EADDRNOTAVAIL = 99"
definition ECONNREFUSED :: errno where "ECONNREFUSED = 111"
definition ENETUNREACH :: errno where "ENETUNREACH = 101"

lemmas connect_errnos = EISCONN_def EINPROGRESS_def EADDRNOTAVAIL_def ECONNREFUSED_def ENETUNREACH_def
  EINTR_def sock_errnos

definition Connector :: "bytes \<Rightarrow> ('u, 'z) connector_world_scheme \<Rightarrow> ('u, 'z) connector_world_scheme" where
  "Connector server w = w\<lparr>serverAddr := server, connect_flag := False, cstate := Disconnected, cchannel := None,
     retryDelayMs := kInitRetryDelayMs\<rparr>"

definition Connector_dtor :: "('u, 'z) connector_op" where
  "Connector_dtor w = do { chk (cchannel w = None); Some w }"

definition setState :: "States \<Rightarrow> ('u, 'z) connector_world_scheme \<Rightarrow> ('u, 'z) connector_world_scheme" where
  "setState s w = w\<lparr>cstate := s\<rparr>"

definition retry :: "env \<Rightarrow> fd \<Rightarrow> ('u, 'z) connector_op" where
  "retry e sockfd w =
     do { let w = sock_close sockfd w;
          let w = setState Disconnected w;
          if connect_flag w
          then do {
            (w, tid) \<leftarrow> runAfter (\<lambda>cb w. None) True (retry_now e) (retry_clock e) (timer_mem e)
                          (ddiv (of_int (retryDelayMs w)) 1000) StartInLoop w;
            Some (w\<lparr>retryDelayMs := min (retryDelayMs w * 2) kMaxRetryDelayMs\<rparr>) }
          else Some w }"

definition connecting :: "env \<Rightarrow> fd \<Rightarrow> ('u, 'z) connector_op" where
  "connecting e sockfd w =
     do { let w = setState Connecting w;
          chk (cchannel w = None);
          let p = channel_mem e;
          let w = w\<lparr>cchannel := Some p, chans := (chans w)(p \<mapsto> Channel (this w) sockfd)\<rparr>;
          w \<leftarrow> modify_chan p (\<lambda>ch. ch\<lparr>writeCallback := Some ConnectorWrite\<rparr>) w;
          w \<leftarrow> modify_chan p (\<lambda>ch. ch\<lparr>errorCallback := Some ConnectorError\<rparr>) w;
          enableWriting updateChannel p w }"

definition removeAndResetChannel :: "('u, 'z) connector_world_scheme \<Rightarrow> (('u, 'z) connector_world_scheme \<times> fd) option" where
  "removeAndResetChannel w =
     do { p \<leftarrow> cchannel w;
          w \<leftarrow> disableAll updateChannel p w;
          w \<leftarrow> remove_channel removeChannel p w;
          ch \<leftarrow> chans w p;
          let sockfd = fd ch;
          Some (queueInLoop True (Functor ResetChannel) w, sockfd) }"

text \<open>\<open>channel_.reset()\<close> deletes the channel, if there is one.\<close>

definition resetChannel :: "(ptr \<Rightarrow> ('u, 'z) connector_world_scheme \<Rightarrow> bool) \<Rightarrow> ('u, 'z) connector_op" where
  "resetChannel poller_has w =
     (case cchannel w of
        None \<Rightarrow> Some w
      | Some p \<Rightarrow> Channel_dtor True (hasChannel poller_has) p (w\<lparr>cchannel := None\<rparr>))"

definition connect :: "env \<Rightarrow> ('u, 'z) connector_op" where
  "connect e w =
     do { let (w, sockfd) = createNonblockingOrDie (family (serverAddr w)) w;
          let ret = sock_connect sockfd (connect_result e) w;
          let savedErrno = (case ret of Inr _ \<Rightarrow> 0 | Inl errno \<Rightarrow> errno);
          if savedErrno \<in> {0, EINPROGRESS, EINTR, EISCONN} then connecting e sockfd w
          else if savedErrno \<in> {EAGAIN, EADDRINUSE, EADDRNOTAVAIL, ECONNREFUSED, ENETUNREACH} then retry e sockfd w
          else Some (sock_close sockfd w) }"

definition startInLoop :: "env \<Rightarrow> ('u, 'z) connector_op" where
  "startInLoop e w =
     do { w \<leftarrow> assertInLoopThread True w;
          chk (cstate w = Disconnected);
          if connect_flag w then connect e w else Some w }"

definition stopInLoop :: "env \<Rightarrow> ('u, 'z) connector_op" where
  "stopInLoop e w =
     do { w \<leftarrow> assertInLoopThread True w;
          if cstate w = Connecting
          then do { let w = setState Disconnected w;
                    (w, sockfd) \<leftarrow> removeAndResetChannel w;
                    retry e sockfd w }
          else Some w }"

definition handleWrite :: "(fd \<Rightarrow> ('u, 'z) connector_op) \<Rightarrow> env \<Rightarrow> ('u, 'z) connector_op" where
  "handleWrite new_connection e w =
     (if cstate w = Connecting
      then do { (w, sockfd) \<leftarrow> removeAndResetChannel w;
                let err = getSocketError (so_error e);
                if err \<noteq> 0 then retry e sockfd w
                else if isSelfConnect (sockname e) (peername e) then retry e sockfd w
                else do { let w = setState Connected w;
                          if connect_flag w then new_connection sockfd w
                          else Some (sock_close sockfd w) } }
      else do { chk (cstate w = Disconnected); Some w })"

definition handleError :: "env \<Rightarrow> ('u, 'z) connector_op" where
  "handleError e w =
     (if cstate w = Connecting
      then do { (w, sockfd) \<leftarrow> removeAndResetChannel w;
                let err = getSocketError (so_error e);
                retry e sockfd w }
      else Some w)"

text \<open>Calling what was bound.\<close>

fun connector_call :: "(fd \<Rightarrow> ('u, 'z) connector_op) \<Rightarrow> (ptr \<Rightarrow> ('u, 'z) connector_world_scheme \<Rightarrow> bool)
    \<Rightarrow> env \<Rightarrow> 'u connector_cb \<Rightarrow> ('u, 'z) connector_op" where
  "connector_call new_connection poller_has e ConnectorWrite w = handleWrite new_connection e w"
| "connector_call new_connection poller_has e ConnectorError w = handleError e w"
| "connector_call new_connection poller_has e StartInLoop w = startInLoop e w"
| "connector_call new_connection poller_has e StopInLoop w = stopInLoop e w"
| "connector_call new_connection poller_has e ResetChannel w = resetChannel poller_has w"
| "connector_call new_connection poller_has e (ConnectorOther u) w = Some w"

subsection \<open>The calls of its owner\<close>

definition start :: "bool \<Rightarrow> env \<Rightarrow> ('u, 'z) connector_op" where
  "start in_loop e w =
     (let w = w\<lparr>connect_flag := True\<rparr>
      in runInLoop (\<lambda>cb. startInLoop e) in_loop (Timestamp 0) (Functor StartInLoop) w)"

definition stop :: "bool \<Rightarrow> ('u, 'z) connector_world_scheme \<Rightarrow> ('u, 'z) connector_world_scheme" where
  "stop in_loop w = (let w = w\<lparr>connect_flag := False\<rparr> in queueInLoop in_loop (Functor StopInLoop) w)"

definition Connector_restart :: "env \<Rightarrow> ('u, 'z) connector_op" where
  "Connector_restart e w =
     do { w \<leftarrow> assertInLoopThread True w;
          let w = setState Disconnected w;
          let w = w\<lparr>retryDelayMs := kInitRetryDelayMs\<rparr>;
          let w = w\<lparr>connect_flag := True\<rparr>;
          startInLoop e w }"

subsection \<open>The delays\<close>

text \<open>The delay before the \<open>k\<close>-th retry, in milliseconds.\<close>

definition backoff :: "nat \<Rightarrow> int" where
  "backoff k = min (500 * 2 ^ k) kMaxRetryDelayMs"

definition backoffs :: "int list" where
  "backoffs = [500, 1000, 2000, 4000, 8000, 16000, 30000]"

lemma backoff_large: "6 \<le> k \<Longrightarrow> backoff k = 30000"
proof -
  assume "6 \<le> k"
  then have "(2::int) ^ 6 \<le> 2 ^ k" by (intro power_increasing) auto
  then show ?thesis by (simp add: backoff_def kMaxRetryDelayMs_def)
qed

lemma backoff_in: "backoff k \<in> set backoffs"
proof (cases "6 \<le> k")
  case False
  then have "k = 0 \<or> k = 1 \<or> k = 2 \<or> k = 3 \<or> k = 4 \<or> k = 5" by linarith
  then show ?thesis by (elim disjE) (simp_all add: backoff_def backoffs_def kMaxRetryDelayMs_def)
qed (simp add: backoff_large backoffs_def)

lemma backoff_Suc: "min (backoff k * 2) kMaxRetryDelayMs = backoff (Suc k)"
  by (auto simp: backoff_def kMaxRetryDelayMs_def min_def)

text \<open>A delay in milliseconds divided by 1000.0 is exact, and so is its conversion to microseconds.\<close>

lemma ddiv_thousand:
  "ddiv 500 1000 = 1 / 2" "ddiv 1000 1000 = 1" "ddiv 2000 1000 = 2" "ddiv 4000 1000 = 4" "ddiv 8000 1000 = 8"
  "ddiv 16000 1000 = 16" "ddiv 30000 1000 = 30"
  using dround_of_int [of 1] dround_of_int [of 2] dround_of_int [of 4] dround_of_int [of 8] dround_of_int [of 16]
    dround_of_int [of 30] by (simp_all add: ddiv_def dround_half)
lemma dmul_million_of:
  "dmul (1 / 2) 1000000 = 500000" "dmul 1 1000000 = 1000000" "dmul 2 1000000 = 2000000" "dmul 4 1000000 = 4000000" "dmul 8 1000000 = 8000000"
  "dmul 16 1000000 = 16000000" "dmul 30 1000000 = 30000000"
  using dround_of_int [of 500000] dround_of_int [of 1000000]  dround_of_int [of 2000000] dround_of_int [of 4000000] dround_of_int [of 8000000] dround_of_int [of 16000000]
    dround_of_int [of 30000000] by (simp_all add: dmul_def)

lemma delays_exact:
  "list_all (\<lambda>d. double_to_i64 (dmul (ddiv (of_int d) 1000) (of_int kMicroSecondsPerSecond)) = Some (d * 1000)) backoffs"
  by (simp add: backoffs_def ddiv_thousand dmul_million_of double_to_i64_def kMicroSecondsPerSecond_def int64_defs)

lemma addTime_backoff:
  assumes "\<bar>microSecondsSinceEpoch t\<bar> < 2 ^ 61"
  shows "addTime t (ddiv (of_int (backoff k)) 1000) = Some (Timestamp (microSecondsSinceEpoch t + backoff k * 1000))"
proof -
  have "0 \<le> backoff k" "backoff k \<le> 30000" by (simp_all add: backoff_def kMaxRetryDelayMs_def)
  then have "in_int64 (microSecondsSinceEpoch t + backoff k * 1000)"
    using assms unfolding int64_defs abs_less_iff by simp
  with delays_exact backoff_in [of k] show ?thesis by (simp add: addTime_def list_all_iff)
qed

subsection \<open>The retry timer\<close>

text \<open>The timers of the queue that will start the connector again.\<close>

definition retry_timers :: "'u connector_cb timer_queue \<Rightarrow> ptr set" where
  "retry_timers q = {p. \<exists>t. heap q p = Some t \<and> callback t = StartInLoop}"

lemma finite_retry_timers: "tq_inv D q \<Longrightarrow> finite D \<Longrightarrow> finite (retry_timers q)"
proof -
  assume "tq_inv D q" "finite D"
  then have "finite (dom (heap q))" by (simp add: tq_inv_heap [of D] ptrs_def)
  moreover have "retry_timers q \<subseteq> dom (heap q)" by (auto simp: retry_timers_def)
  ultimately show ?thesis by (rule rev_finite_subset)
qed

text \<open>What the environment guarantees of the memory and the clock of one call.\<close>

definition env_ok :: "env \<Rightarrow> ('u, 'z) connector_world_scheme \<Rightarrow> bool" where
  "env_ok e w \<longleftrightarrow> heap (timerQueue w) (timer_mem e) = None \<and> timer_mem e < UINTPTR_MAX
     \<and> \<bar>microSecondsSinceEpoch (retry_now e)\<bar> < 2 ^ 61 \<and> sane_time (retry_clock e)
     \<and> sint (s_numCreated (timerQueue w)) < INT64_MAX \<and> chans w (channel_mem e) = None"

lemma sched_of_addTimer:
  assumes "tq_inv {} q" and "client_ok (AddTimer p cb due 0 clk) q"
  obtains q1 tid q2 where "new_Timer p cb due 0 q = (q1, tid)" "addTimerInLoop p clk q1 = Some q2" "tq_inv {} q2"
    "sched q2 = (sched q)(sint (s_numCreated q) + 1 \<mapsto> (cb, due, 0))"
    "\<exists>t. heap q2 = (heap q)(p \<mapsto> t) \<and> callback t = cb"
proof -
  obtain q1 tid where q1: "new_Timer p cb due 0 q = (q1, tid)" by fastforce
  then obtain t where t: "heap q1 = (heap q)(p \<mapsto> t)" "callback t = cb"
    by (auto simp: new_Timer_def Timer_def incrementAndGet_eq Let_def split: prod.splits)
  have inv1: "tq_inv {p} q1" using tq_inv_new(1) [OF assms q1] by simp
  have "sane_time clk" using assms(2) by simp
  from addTimerInLoop_ok [OF inv1 _ _ this, of p t] t obtain q2 where
    q2: "addTimerInLoop p clk q1 = Some q2" "tq_inv {} q2" "heap q2 = heap q1" by auto
  have "do_action (AddTimer p cb due 0 clk) q = Some q2" using q1 q2(1) by simp
  from sched_add [OF assms this] q1 q2 t that show ?thesis by auto
qed

text \<open>Arming the retry: only the timer queue changes, by one timer due after the delay.\<close>

lemma run_retry_timer:
  assumes inv: "tq_inv {} (timerQueue w)" and env: "env_ok e w" and d: "retryDelayMs w = backoff k"
  shows "\<exists>q tid. runAfter (\<lambda>cb w. None) True (retry_now e) (retry_clock e) (timer_mem e)
        (ddiv (of_int (retryDelayMs w)) 1000) StartInLoop w = Some (w\<lparr>timerQueue := q\<rparr>, tid)
    \<and> tq_inv {} q \<and> retry_timers q = insert (timer_mem e) (retry_timers (timerQueue w))
    \<and> timer_mem e \<notin> retry_timers (timerQueue w)
    \<and> sched q = (sched (timerQueue w))(sint (s_numCreated (timerQueue w)) + 1 \<mapsto>
        (StartInLoop, Timestamp (microSecondsSinceEpoch (retry_now e) + backoff k * 1000), 0))"
proof -
  let ?due = "Timestamp (microSecondsSinceEpoch (retry_now e) + backoff k * 1000)"
  have b: "0 \<le> backoff k" "backoff k \<le> 30000" by (simp_all add: backoff_def kMaxRetryDelayMs_def)
  have "sane_time ?due" using env b by (simp add: env_ok_def sane_time_def abs_less_iff)
  then have ok: "client_ok (AddTimer (timer_mem e) StartInLoop ?due 0 (retry_clock e)) (timerQueue w)"
    using env by (simp add: env_ok_def sane_interval_def dmul_million)
  from sched_of_addTimer [OF inv ok] obtain q1 tid q2 t where
    q: "new_Timer (timer_mem e) StartInLoop ?due 0 (timerQueue w) = (q1, tid)"
      "addTimerInLoop (timer_mem e) (retry_clock e) q1 = Some q2" "tq_inv {} q2"
      "sched q2 = (sched (timerQueue w))(sint (s_numCreated (timerQueue w)) + 1 \<mapsto> (StartInLoop, ?due, 0))"
      "heap q2 = (heap (timerQueue w))(timer_mem e \<mapsto> t)" "callback t = StartInLoop"
    by metis
  have "addTime (retry_now e) (ddiv (of_int (retryDelayMs w)) 1000) = Some ?due"
    using env d by (simp add: addTime_backoff env_ok_def)
  then have "runAfter (\<lambda>cb w. None) True (retry_now e) (retry_clock e) (timer_mem e)
        (ddiv (of_int (retryDelayMs w)) 1000) StartInLoop w = Some (w\<lparr>timerQueue := q2\<rparr>, tid)"
    using q(1,2) by (simp add: runAfter_def runAt_def addTimer_def runInLoop_def)
  moreover have "timer_mem e \<notin> retry_timers (timerQueue w)"
    using env by (simp add: env_ok_def retry_timers_def)
  moreover have "retry_timers q2 = insert (timer_mem e) (retry_timers (timerQueue w))"
    using q(5,6) env by (auto simp: retry_timers_def env_ok_def)
  ultimately show ?thesis using q(3,4) by blast
qed

subsection \<open>The invariant\<close>

definition starts :: "('u, 'z) connector_world_scheme \<Rightarrow> nat" where
  "starts w = count_list (pendingFunctors w) (Functor StartInLoop) + card (retry_timers (timerQueue w))"

definition resets :: "('u, 'z) connector_world_scheme \<Rightarrow> nat" where
  "resets w = count_list (pendingFunctors w) (Functor ResetChannel)"

text \<open>A queued start never overtakes the deletion of the previous channel.\<close>

fun reset_first :: "'u connector_cb pending_functor list \<Rightarrow> bool" where
  "reset_first [] = True"
| "reset_first (f # fs) = ((f = Functor StartInLoop \<longrightarrow> Functor ResetChannel \<notin> set fs) \<and> reset_first fs)"

lemma reset_first_snoc [simp]:
  "reset_first (fs @ [f]) = (reset_first fs \<and> (f = Functor ResetChannel \<longrightarrow> Functor StartInLoop \<notin> set fs))"
  by (induction fs) auto

definition kbase :: "('u, 'z) connector_world_scheme \<Rightarrow> bool" where
  "kbase w \<longleftrightarrow> linv {} w \<and> tq_inv {} (timerQueue w) \<and> (\<exists>k. retryDelayMs w = backoff k) \<and> (\<forall>f \<in> fds w. 0 \<le> f)
     \<and> (\<forall>q c. chans w q = Some c \<longrightarrow> addedToLoop c \<longrightarrow> fd c \<in> fds w)"

definition current_ok :: "('u, 'z) connector_world_scheme \<Rightarrow> 'u connector_cb channel \<Rightarrow> bool" where
  "current_ok w ch \<longleftrightarrow> \<not> tied ch \<and> closeCallback ch = None \<and> readCallback ch = None
     \<and> writeCallback ch = Some ConnectorWrite \<and> errorCallback ch = Some ConnectorError
     \<and> (\<not> handlingEvents w \<longrightarrow> \<not> eventHandling ch)
     \<and> addedToLoop ch = (cstate w = Connecting) \<and> (cstate w = Connecting \<longrightarrow> events ch = kWriteEvent)
     \<and> resets w = (if cstate w = Connecting then 0 else 1)"

definition kchan :: "('u, 'z) connector_world_scheme \<Rightarrow> bool" where
  "kchan w \<longleftrightarrow> (case cchannel w of
       None \<Rightarrow> cstate w \<noteq> Connecting \<and> resets w = 0
     | Some p \<Rightarrow> (\<exists>ch. chans w p = Some ch \<and> current_ok w ch))"

definition kstart :: "('u, 'z) connector_world_scheme \<Rightarrow> bool" where
  "kstart w \<longleftrightarrow> starts w \<le> 1 \<and> (0 < starts w \<longrightarrow> cstate w = Disconnected) \<and> reset_first (pendingFunctors w)"

definition kinv :: "('u, 'z) connector_world_scheme \<Rightarrow> bool" where
  "kinv w \<longleftrightarrow> kbase w \<and> kchan w \<and> kstart w"

text \<open>The descriptor the connector is responsible for.\<close>

definition owned :: "('u, 'z) connector_world_scheme \<Rightarrow> fd set" where
  "owned w = (if cstate w = Connecting then {fd ch | ch p. cchannel w = Some p \<and> chans w p = Some ch} else {})"

definition others :: "('u, 'z) connector_world_scheme \<Rightarrow> fd set" where
  "others w = fds w - owned w"

text \<open>What the poller's operations and the queueing of functors leave alone.\<close>

definition kframe :: "('u, 'z) connector_world_scheme \<Rightarrow> ('u, 'z) connector_world_scheme \<Rightarrow> bool" where
  "kframe w w' \<longleftrightarrow> cstate w' = cstate w \<and> cchannel w' = cchannel w \<and> connect_flag w' = connect_flag w
     \<and> retryDelayMs w' = retryDelayMs w \<and> fds w' = fds w \<and> fd_limit w' = fd_limit w \<and> timerQueue w' = timerQueue w
     \<and> handlingEvents w' = handlingEvents w \<and> currentActiveChannel w' = currentActiveChannel w
     \<and> activeChannels w' = activeChannels w \<and> serverAddr w' = serverAddr w \<and> this w' = this w
     \<and> connector_world.more w' = connector_world.more w"

lemma kframe_trans: "kframe u v \<Longrightarrow> kframe v w \<Longrightarrow> kframe u w"
  by (simp add: kframe_def)

lemma poller_update_kframe:
  assumes "poller_update w w'"
  shows "kframe w w'" "pendingFunctors w' = pendingFunctors w"
proof -
  have w: "w = w'\<lparr>chans := chans w, channels := channels w, interest := interest w, ctl_rets := ctl_rets w\<rparr>"
    using assms by (simp add: poller_update_def)
  show "kframe w w'" "pendingFunctors w' = pendingFunctors w"
    unfolding kframe_def by (subst w, simp)+
qed

lemma queue_kframe: "kframe w (queueInLoop b f w)" "pendingFunctors (queueInLoop b f w) = pendingFunctors w @ [f]"
  "chans (queueInLoop b f w) = chans w" "interest (queueInLoop b f w) = interest w"
  by (simp_all add: kframe_def queue_defs)

lemma linv_queue: "linv {} (queueInLoop b f w) = linv {} w"
  by (rule linv_cong) (simp_all add: queue_defs)

lemma sock_close_eq: "\<exists>b l. sock_close f w = w\<lparr>fds := fds w - {f}, bound := b, listeners := l\<rparr>"
  by (intro exI [of _ "if f \<in> fds w then (bound w)(f := None) else bound w"]
      exI [of _ "if f \<in> fds w then listeners w - {f} else listeners w"])
    (simp add: sock_close_def sys_close_def)

subsection \<open>Operations\<close>

lemma removeAndReset_ok:
  assumes inv: "linv {} w" and p: "cchannel w = Some p" "chans w p = Some ch" "addedToLoop ch" and rem: "removable p w"
  shows "\<exists>w' i. removeAndResetChannel w = Some (w', fd ch) \<and> linv {} w' \<and> kframe w w'
    \<and> pendingFunctors w' = pendingFunctors w @ [Functor ResetChannel]
    \<and> chans w' = (chans w)(p \<mapsto> ch\<lparr>events := kNoneEvent, addedToLoop := False, index := i\<rparr>)
    \<and> watched w' = (watched w)(fd ch := None)"
proof -
  from take_out_ok [OF inv p(2) fd_owner_added [OF inv p(2,3)] rem] obtain u v i where
    v: "disableAll updateChannel p w = Some u" "remove_channel removeChannel p u = Some v" "linv {} v"
      "poller_update w v" "chans v = (chans w)(p \<mapsto> ch\<lparr>events := kNoneEvent, addedToLoop := False, index := i\<rparr>)"
      "watched v = (watched w)(fd ch := None)" by blast
  let ?w = "queueInLoop True (Functor ResetChannel) v"
  have "removeAndResetChannel w = Some (?w, fd ch)"
    using p(1) v by (simp add: removeAndResetChannel_def Let_def)
  moreover have "kframe w ?w"
    using poller_update_kframe(1) [OF v(4)] queue_kframe(1) kframe_trans by blast
  moreover have "watched ?w = watched v" by (rule watched_cong) (simp add: queue_kframe)
  ultimately show ?thesis
    using v poller_update_kframe(2) [OF v(4)]
    by (intro exI [of _ ?w] exI [of _ i]) (simp add: queue_kframe linv_queue)
qed

text \<open>\<open>retry\<close>: the descriptor is closed, and a start comes later if connecting is still wanted.\<close>

lemma retry_ok:
  assumes "tq_inv {} (timerQueue w)" and "env_ok e w" and "retryDelayMs w = backoff k"
  shows "\<exists>b l q d. retry e f w = Some (w\<lparr>fds := fds w - {f}, bound := b, listeners := l, cstate := Disconnected,
        timerQueue := q, retryDelayMs := d\<rparr>)
    \<and> tq_inv {} q
    \<and> (if connect_flag w
       then d = backoff (Suc k) \<and> retry_timers q = insert (timer_mem e) (retry_timers (timerQueue w))
          \<and> timer_mem e \<notin> retry_timers (timerQueue w)
          \<and> sched q = (sched (timerQueue w))(sint (s_numCreated (timerQueue w)) + 1 \<mapsto>
              (StartInLoop, Timestamp (microSecondsSinceEpoch (retry_now e) + backoff k * 1000), 0))
       else d = backoff k \<and> q = timerQueue w)"
proof -
  obtain b l where c: "sock_close f w = w\<lparr>fds := fds w - {f}, bound := b, listeners := l\<rparr>"
    using sock_close_eq by blast
  let ?v = "w\<lparr>fds := fds w - {f}, bound := b, listeners := l, cstate := Disconnected\<rparr>"
  have env: "env_ok e ?v" using assms(2) by (simp add: env_ok_def)
  have r: "retry e f w = (if connect_flag ?v
      then do { (w, tid) \<leftarrow> runAfter (\<lambda>cb w. None) True (retry_now e) (retry_clock e) (timer_mem e)
                  (ddiv (of_int (retryDelayMs ?v)) 1000) StartInLoop ?v;
                Some (w\<lparr>retryDelayMs := min (retryDelayMs w * 2) kMaxRetryDelayMs\<rparr>) }
      else Some ?v)"
    by (simp add: retry_def c setState_def Let_def)
  show ?thesis
  proof (cases "connect_flag w")
    case True
    from run_retry_timer [of ?v e k] assms env obtain q tid where
      q: "runAfter (\<lambda>cb w. None) True (retry_now e) (retry_clock e) (timer_mem e)
          (ddiv (of_int (retryDelayMs ?v)) 1000) StartInLoop ?v = Some (?v\<lparr>timerQueue := q\<rparr>, tid)"
        "tq_inv {} q" "retry_timers q = insert (timer_mem e) (retry_timers (timerQueue w))"
        "timer_mem e \<notin> retry_timers (timerQueue w)"
        "sched q = (sched (timerQueue w))(sint (s_numCreated (timerQueue w)) + 1 \<mapsto>
          (StartInLoop, Timestamp (microSecondsSinceEpoch (retry_now e) + backoff k * 1000), 0))"
      by auto
    then show ?thesis
      using True assms(3)
      by (intro exI [of _ b] exI [of _ l] exI [of _ q] exI [of _ "backoff (Suc k)"]) (simp add: r backoff_Suc)
  next
    case False
    have "?v = w\<lparr>fds := fds w - {f}, bound := b, listeners := l, cstate := Disconnected,
        timerQueue := timerQueue w, retryDelayMs := backoff k\<rparr>"
      by (simp add: assms(3) [symmetric])
    with False r assms(1) show ?thesis
      by (intro exI [of _ b] exI [of _ l] exI [of _ "timerQueue w"] exI [of _ "backoff k"]) simp
  qed
qed

text \<open>\<open>connecting\<close>: a new channel waits for the connection.\<close>

lemma connecting_ok:
  assumes inv: "linv {} w" and none: "cchannel w = None" and fresh: "chans w (channel_mem e) = None"
    and own: "\<forall>q c. chans w q = Some c \<longrightarrow> addedToLoop c \<longrightarrow> fd c \<noteq> f"
  shows "\<exists>w' i. connecting e f w = Some w' \<and> linv {} w' \<and> pendingFunctors w' = pendingFunctors w
    \<and> kframe (w\<lparr>cstate := Connecting, cchannel := Some (channel_mem e)\<rparr>) w'
    \<and> watched w' = (watched w)(f \<mapsto> kWriteEvent)
    \<and> chans w' = (chans w)(channel_mem e \<mapsto> (Channel (this w) f)\<lparr>writeCallback := Some ConnectorWrite,
        errorCallback := Some ConnectorError, events := kWriteEvent, addedToLoop := True, index := i\<rparr>)"
proof -
  let ?p = "channel_mem e"
  let ?d = "(Channel (this w) f :: 'a connector_cb channel)\<lparr>writeCallback := Some ConnectorWrite,
      errorCallback := Some ConnectorError\<rparr>"
  let ?u = "w\<lparr>cstate := Connecting, cchannel := Some ?p\<rparr>"
  let ?w = "?u\<lparr>chans := (chans w)(?p \<mapsto> ?d)\<rparr>"
  have d: "fd ?d = f" "events ?d = 0" "index ?d = kNew" "\<not> addedToLoop ?d" "ownerLoop ?d = this w"
    by (simp_all add: Channel_def index_defs)
  have "linv {} (w\<lparr>chans := (chans w)(?p \<mapsto> ?d)\<rparr>)" by (rule linv_new_channel [OF inv fresh d])
  then have linv: "linv {} ?w" using linv_cong [of ?w "w\<lparr>chans := (chans w)(?p \<mapsto> ?d)\<rparr>" "{}"] by simp
  have cp: "chans ?w ?p = Some ?d" by simp
  have owner: "fd_owner ?p ?w" using own d(1) by (auto simp: fd_owner_def split: if_splits)
  from loop.set_events_ok [OF linv cp owner, of "\<lambda>e. e OR kWriteEvent"] obtain w' i where
    w': "enableWriting updateChannel ?p ?w = Some w'" "linv {} w'"
      "chans w' = (chans ?w)(?p \<mapsto> ?d\<lparr>events := kWriteEvent, addedToLoop := True, index := i\<rparr>)"
      "watched w' = watch_after f kWriteEvent (watched ?w)"
    unfolding set_events_ops d(2) by (auto simp: d(1))
  have pu: "poller_update ?w w'" using w'(1) poller_update_set_events unfolding set_events_ops by blast
  have "kframe ?u ?w" by (simp add: kframe_def)
  with poller_update_kframe(1) [OF pu] have kf: "kframe ?u w'" using kframe_trans by blast
  have "connecting e f w = Some w'"
    using none w'(1) by (simp add: connecting_def setState_def Let_def modify_chan_def)
  moreover have "watched ?w = watched w" by (rule watched_cong) simp
  then have "watched w' = (watched w)(f \<mapsto> kWriteEvent)" using w'(4) by (simp add: watch_after_def event_defs)
  moreover have "pendingFunctors w' = pendingFunctors w" using poller_update_kframe(2) [OF pu] by simp
  ultimately show ?thesis using w'(2,3) kf by (intro exI [of _ w'] exI [of _ i]) simp
qed

subsection \<open>Operations keep the invariant\<close>

lemma kframe_same:
  assumes "kframe w w'"
  shows "cstate w' = cstate w" "cchannel w' = cchannel w" "connect_flag w' = connect_flag w"
    "retryDelayMs w' = retryDelayMs w" "fds w' = fds w" "timerQueue w' = timerQueue w"
    "handlingEvents w' = handlingEvents w" "fd_limit w' = fd_limit w" "serverAddr w' = serverAddr w"
    "connector_world.more w' = connector_world.more w"
  using assms by (simp_all add: kframe_def)

lemma kinv_connecting:
  assumes "kinv w" and "cstate w = Connecting"
  obtains p ch k where "linv {} w" "tq_inv {} (timerQueue w)" "retryDelayMs w = backoff k" "cchannel w = Some p"
    "chans w p = Some ch" "current_ok w ch" "addedToLoop ch" "fd ch \<in> fds w" "owned w = {fd ch}" "resets w = 0" "starts w = 0"
  using assms by (auto simp: kinv_def kbase_def kchan_def kstart_def owned_def current_ok_def split: option.splits)

lemma starts_0:
  assumes "tq_inv {} (timerQueue w)"
  shows "starts w = 0 \<longleftrightarrow> Functor StartInLoop \<notin> set (pendingFunctors w) \<and> retry_timers (timerQueue w) = {}"
  using finite_retry_timers [OF assms] by (simp add: starts_def count_list_0_iff)

text \<open>A connector that has just given up its channel: \<open>f\<close> is its descriptor, which nobody watches.\<close>

definition loose :: "fd \<Rightarrow> ('u, 'z) connector_world_scheme \<Rightarrow> bool" where
  "loose f w \<longleftrightarrow> kbase w \<and> (\<forall>s. s \<noteq> Connecting \<longrightarrow> kchan (w\<lparr>cstate := s\<rparr>)) \<and> starts w = 0
     \<and> reset_first (pendingFunctors w) \<and> f \<in> fds w \<and> (\<forall>q c. chans w q = Some c \<longrightarrow> addedToLoop c \<longrightarrow> fd c \<noteq> f)"

definition cur_revents :: "('u, 'z) connector_world_scheme \<Rightarrow> 32 word option" where
  "cur_revents w = (case cchannel w of None \<Rightarrow> None | Some p \<Rightarrow> map_option revents (chans w p))"

lemma removeAndReset_loose:
  assumes inv: "kinv w" and st: "cstate w = Connecting" and rem: "\<And>p. cchannel w = Some p \<Longrightarrow> removable p w"
  shows "\<exists>w1 f. removeAndResetChannel (w\<lparr>cstate := s\<rparr>) = Some (w1, f) \<and> loose f w1 \<and> owned w = {f}
    \<and> kframe (w\<lparr>cstate := s\<rparr>) w1 \<and> watched w1 = (watched w)(f := None)
    \<and> dom (chans w1) = dom (chans w) \<and> cur_revents w1 = cur_revents w"
proof -
  let ?u = "w\<lparr>cstate := s\<rparr>"
  obtain p ch k where c: "linv {} w" "tq_inv {} (timerQueue w)" "retryDelayMs w = backoff k" "cchannel w = Some p"
      "chans w p = Some ch" "current_ok w ch" "addedToLoop ch" "fd ch \<in> fds w" "owned w = {fd ch}" "resets w = 0" "starts w = 0"
    using kinv_connecting [OF inv st] by metis
  have linv: "linv {} ?u" using c(1) linv_cong [of ?u w] by simp
  have rem': "removable p ?u" using rem [OF c(4)] by (simp add: removable_def)
  have pu: "cchannel ?u = Some p" "chans ?u p = Some ch" using c(4,5) by simp_all
  from removeAndReset_ok [OF linv pu c(7) rem'] obtain w1 i where
    w1: "removeAndResetChannel ?u = Some (w1, fd ch)" "linv {} w1" "kframe ?u w1"
      "pendingFunctors w1 = pendingFunctors w @ [Functor ResetChannel]"
      "chans w1 = (chans w)(p \<mapsto> ch\<lparr>events := kNoneEvent, addedToLoop := False, index := i\<rparr>)"
      "watched w1 = (watched ?u)(fd ch := None)" by auto
  note kf = kframe_same [OF w1(3)]
  have wt: "watched ?u = watched w" by (rule watched_cong) simp
  have base: "kbase w1"
    using inv w1(2,5) kf by (auto simp: kinv_def kbase_def split: if_splits)
  have "kchan (w1\<lparr>cstate := s'\<rparr>)" if "s' \<noteq> Connecting" for s'
    using that c(4,6,10) w1(4,5) kf by (simp add: kchan_def current_ok_def resets_def)
  moreover have "starts w1 = 0" using c(11) w1(4) kf by (simp add: starts_def)
  moreover have "reset_first (pendingFunctors w1)"
    using inv w1(4) starts_0 [OF c(2)] c(11) by (simp add: kinv_def kstart_def)
  moreover have "fd d \<noteq> fd ch" if "chans w1 q = Some d" "addedToLoop d" for q d
  proof
    assume eq: "fd d = fd ch"
    have "q \<noteq> p" using that w1(5) by auto
    moreover have "chans w q = Some d" using that(1) w1(5) \<open>q \<noteq> p\<close> by simp
    ultimately show False
      using fd_owner_added [OF c(1,5,7)] c(5) that(2) eq by (auto simp: fd_owner_def)
  qed
  ultimately have "loose (fd ch) w1" using base c(8) kf by (simp add: loose_def)
  moreover have "dom (chans w1) = dom (chans w)" using w1(5) c(5) by auto
  ultimately show ?thesis
    using w1 c(4,5,9) wt kf by (intro exI [of _ w1] exI [of _ "fd ch"]) (simp add: cur_revents_def)
qed

lemma kchan_cong:
  fixes w w' :: "('u, 'z) connector_world_scheme"
  assumes "cstate w' = cstate w" "cchannel w' = cchannel w" "chans w' = chans w"
    "pendingFunctors w' = pendingFunctors w" "handlingEvents w' = handlingEvents w"
  shows "kchan w' = kchan w"
  using assms by (simp add: kchan_def current_ok_def resets_def cong: option.case_cong)

lemma kstart_cong:
  fixes w w' :: "('u, 'z) connector_world_scheme"
  assumes "cstate w' = cstate w" "pendingFunctors w' = pendingFunctors w" "timerQueue w' = timerQueue w"
  shows "kstart w' = kstart w"
  using assms by (simp add: kstart_def starts_def)

lemma kbase_update:
  fixes w w' :: "('u, 'z) connector_world_scheme"
  assumes "kbase w" and "chans w' = chans w" "channels w' = channels w" "interest w' = interest w"
    "ctl_rets w' = ctl_rets w" "this w' = this w" and "tq_inv {} (timerQueue w')" and "retryDelayMs w' = backoff k"
    and "\<forall>q c. chans w q = Some c \<longrightarrow> addedToLoop c \<longrightarrow> fd c \<in> fds w'" and "\<forall>f \<in> fds w'. 0 \<le> f"
  shows "kbase w'"
  using assms linv_cong [OF assms(2-6)] by (auto simp: kbase_def)

lemma retry_kinv:
  assumes l: "loose f w" and env: "env_ok e w"
  shows "\<exists>w'. retry e f w = Some w' \<and> kinv w' \<and> others w' = fds w - {f} \<and> cstate w' = Disconnected
    \<and> cchannel w' = cchannel w \<and> handlingEvents w' = handlingEvents w \<and> cur_revents w' = cur_revents w
    \<and> connector_world.more w' = connector_world.more w"
proof -
  from l have base: "kbase w" and st: "starts w = 0" and rf: "reset_first (pendingFunctors w)"
    and chan: "kchan (w\<lparr>cstate := Disconnected\<rparr>)" by (simp_all add: loose_def)
  then obtain k where k: "tq_inv {} (timerQueue w)" "retryDelayMs w = backoff k" by (auto simp: kbase_def)
  from retry_ok [OF k(1) env k(2), of f] obtain b l q d where
    r: "retry e f w = Some (w\<lparr>fds := fds w - {f}, bound := b, listeners := l, cstate := Disconnected,
        timerQueue := q, retryDelayMs := d\<rparr>)" "tq_inv {} q"
      "if connect_flag w then d = backoff (Suc k) \<and> retry_timers q = insert (timer_mem e) (retry_timers (timerQueue w))
       else d = backoff k \<and> q = timerQueue w"
    by (smt (verit))
  let ?w = "w\<lparr>fds := fds w - {f}, bound := b, listeners := l, cstate := Disconnected,
        timerQueue := q, retryDelayMs := d\<rparr>"
  obtain j where "d = backoff j" using r(3) by (auto split: if_splits)
  then have "kbase ?w"
    using base l r(2) by (intro kbase_update [OF base, where k = j]) (auto simp: kbase_def loose_def)
  moreover have "kchan ?w" using chan kchan_cong [of ?w "w\<lparr>cstate := Disconnected\<rparr>"] by simp
  moreover have "starts ?w \<le> 1"
    using st starts_0 [OF k(1)] r(3) by (auto simp: starts_def count_list_0_iff split: if_splits)
  then have "kstart ?w" using rf by (simp add: kstart_def)
  ultimately have "kinv ?w" by (simp add: kinv_def)
  then show ?thesis using r(1) by (simp add: others_def owned_def cur_revents_def cong: option.case_cong)
qed

lemma close_loose:
  assumes l: "loose f w" and s: "cstate w \<noteq> Connecting"
  shows "kinv (sock_close f w) \<and> others (sock_close f w) = fds w - {f} \<and> cchannel (sock_close f w) = cchannel w
    \<and> handlingEvents (sock_close f w) = handlingEvents w \<and> cur_revents (sock_close f w) = cur_revents w
    \<and> cstate (sock_close f w) = cstate w \<and> connector_world.more (sock_close f w) = connector_world.more w"
proof -
  obtain b m where c: "sock_close f w = w\<lparr>fds := fds w - {f}, bound := b, listeners := m\<rparr>" using sock_close_eq by blast
  let ?w = "w\<lparr>fds := fds w - {f}, bound := b, listeners := m\<rparr>"
  from l obtain k where base: "kbase w" "retryDelayMs w = backoff k" "tq_inv {} (timerQueue w)"
    by (auto simp: loose_def kbase_def)
  have "kbase ?w"
    using base l by (intro kbase_update [OF base(1), where k = k]) (auto simp: kbase_def loose_def)
  moreover have "kchan (w\<lparr>cstate := cstate w\<rparr>)" using l s unfolding loose_def by blast
  then have "kchan ?w" using kchan_cong [of ?w "w\<lparr>cstate := cstate w\<rparr>"] by simp
  moreover have "kstart ?w" using l by (simp add: loose_def kstart_def starts_def)
  ultimately show ?thesis using s by (simp add: c kinv_def others_def owned_def cur_revents_def cong: option.case_cong)
qed

text \<open>\<open>connect\<close>: a new socket, which starts to connect, is tried again later, or is closed.\<close>

lemma free_fd_unwatched:
  assumes base: "kbase w" and f: "f \<notin> fds w"
  shows "\<forall>q c. chans w q = Some c \<longrightarrow> addedToLoop c \<longrightarrow> fd c \<noteq> f"
  using assms by (auto simp: kbase_def)

lemma connecting_kinv:
  assumes base: "kbase w" and none: "cchannel w = None" "starts w = 0" "resets w = 0" and rf: "reset_first (pendingFunctors w)"
    and f: "f \<in> fds w" "\<forall>q c. chans w q = Some c \<longrightarrow> addedToLoop c \<longrightarrow> fd c \<noteq> f"
    and env: "env_ok e w"
  shows "\<exists>w'. connecting e f w = Some w' \<and> kinv w' \<and> others w' = fds w - {f}
    \<and> handlingEvents w' = handlingEvents w \<and> connector_world.more w' = connector_world.more w"
proof -
  have "linv {} w" using base by (simp add: kbase_def)
  from connecting_ok [OF this none(1) _ f(2), of e] env obtain w' i where
    w': "connecting e f w = Some w'" "linv {} w'" "pendingFunctors w' = pendingFunctors w"
      "kframe (w\<lparr>cstate := Connecting, cchannel := Some (channel_mem e)\<rparr>) w'"
      "chans w' = (chans w)(channel_mem e \<mapsto> (Channel (this w) f)\<lparr>writeCallback := Some ConnectorWrite,
        errorCallback := Some ConnectorError, events := kWriteEvent, addedToLoop := True, index := i\<rparr>)"
    by (auto simp: env_ok_def)
  note kf = kframe_same [OF w'(4)]
  have "kbase w'" using w'(2,5) base kf f(1) by (auto simp: kbase_def Channel_def split: if_splits)
  moreover have "kchan w'" using w'(3,5) kf none by (simp add: kchan_def current_ok_def resets_def Channel_def)
  moreover have "kstart w'" using w'(3) kf none rf by (simp add: kstart_def starts_def)
  moreover have "others w' = fds w - {f}" using w'(5) kf by (auto simp: others_def owned_def Channel_def)
  ultimately show ?thesis using w'(1) kf by (simp add: kinv_def)
qed

lemma connect_kinv:
  assumes inv: "kinv w" and st: "cstate w = Disconnected" and none: "starts w = 0" "resets w = 0" and env: "env_ok e w"
  shows "\<exists>w'. connect e w = Some w' \<and> kinv w' \<and> others w' = others w
    \<and> handlingEvents w' = handlingEvents w \<and> connector_world.more w' = connector_world.more w"
proof -
  obtain k where k: "tq_inv {} (timerQueue w)" "retryDelayMs w = backoff k" and base: "kbase w"
    using inv by (auto simp: kinv_def kbase_def)
  have cc: "cchannel w = None"
    using inv st none by (auto simp: kinv_def kchan_def current_ok_def split: option.splits)
  have rf: "reset_first (pendingFunctors w)" using inv by (simp add: kinv_def kstart_def)
  have ow: "others w = fds w" using st by (simp add: others_def owned_def)
  show ?thesis
  proof (cases "free_fd w")
    case None
    have m1: "-1 \<notin> fds w" using base by (auto simp: kbase_def)
    have "connect e w = Some w"
      using None m1
      by (simp add: connect_def createNonblockingOrDie_def sys_socket_def int_result_def sock_connect_def
          sock_close_def sys_close_def connect_errnos)
    then show ?thesis using inv by simp
  next
    case (Some f)
    note f = free_fd_Some [OF Some]
    let ?u = "w\<lparr>fds := insert f (fds w)\<rparr>"
    have s: "createNonblockingOrDie (family (serverAddr w)) w = (?u, f)"
      using Some by (simp add: createNonblockingOrDie_def sys_socket_def int_result_def)
    have env': "env_ok e ?u" using env by (simp add: env_ok_def)
    have base': "kbase ?u"
      using base f(2) k by (intro kbase_update [OF base, where k = k]) (auto simp: kbase_def)
    have un: "\<forall>q c. chans ?u q = Some c \<longrightarrow> addedToLoop c \<longrightarrow> fd c \<noteq> f"
      using free_fd_unwatched [OF base f(1)] by simp
    have l: "loose f ?u"
      using base' un rf none cc by (simp add: loose_def kchan_def resets_def starts_def)
    let ?err = "case connect_result e of Inl errno \<Rightarrow> errno | Inr _ \<Rightarrow> 0"
    have c: "connect e w = (if ?err \<in> {0, EINPROGRESS, EINTR, EISCONN} then connecting e f ?u
        else if ?err \<in> {EAGAIN, EADDRINUSE, EADDRNOTAVAIL, ECONNREFUSED, ENETUNREACH} then retry e f ?u
        else Some (sock_close f ?u))"
      by (simp add: connect_def s sock_connect_def)
    have "starts ?u = 0" "resets ?u = 0" using none by (simp_all add: starts_def resets_def)
    from connecting_kinv [OF base' _ this _ _ un env'] cc rf f(1)
    have "\<exists>w'. connecting e f ?u = Some w' \<and> kinv w' \<and> others w' = others w
      \<and> handlingEvents w' = handlingEvents w \<and> connector_world.more w' = connector_world.more w"
      by (auto simp: ow)
    moreover have "\<exists>w'. retry e f ?u = Some w' \<and> kinv w' \<and> others w' = others w
      \<and> handlingEvents w' = handlingEvents w \<and> connector_world.more w' = connector_world.more w"
      using retry_kinv [OF l env'] f(1) by (auto simp: ow)
    moreover have "kinv (sock_close f ?u) \<and> others (sock_close f ?u) = others w
      \<and> handlingEvents (sock_close f ?u) = handlingEvents w \<and> connector_world.more (sock_close f ?u) = connector_world.more w"
      using close_loose [OF l] st f(1) by (simp add: ow)
    ultimately show ?thesis unfolding c by auto
  qed
qed

lemma startInLoop_kinv:
  assumes "kinv w" and "cstate w = Disconnected" and "starts w = 0" "resets w = 0" and "env_ok e w"
  shows "\<exists>w'. startInLoop e w = Some w' \<and> kinv w' \<and> others w' = others w
    \<and> handlingEvents w' = handlingEvents w \<and> connector_world.more w' = connector_world.more w"
  using connect_kinv [OF assms] assms(1,2) by (simp add: startInLoop_def assertInLoopThread_def)

lemma stopInLoop_kinv:
  assumes inv: "kinv w" and env: "env_ok e w" and idle: "\<not> handlingEvents w"
  shows "\<exists>w'. stopInLoop e w = Some w' \<and> kinv w' \<and> others w' = others w
    \<and> handlingEvents w' = handlingEvents w \<and> connector_world.more w' = connector_world.more w"
proof (cases "cstate w = Connecting")
  case True
  have "removable p w" for p using idle by (simp add: removable_def)
  from removeAndReset_loose [OF inv True this, of Disconnected] obtain w1 f where
    w1: "removeAndResetChannel (w\<lparr>cstate := Disconnected\<rparr>) = Some (w1, f)" "loose f w1" "owned w = {f}"
      "kframe (w\<lparr>cstate := Disconnected\<rparr>) w1" "dom (chans w1) = dom (chans w)" by blast
  note kf = kframe_same [OF w1(4)]
  have "env_ok e w1" using env kf w1(5) by (auto simp: env_ok_def domIff)
  from retry_kinv [OF w1(2) this] obtain w' where
    "retry e f w1 = Some w'" "kinv w'" "others w' = fds w1 - {f}" "handlingEvents w' = handlingEvents w1"
    "connector_world.more w' = connector_world.more w1" by blast
  with True w1(1,3) kf show ?thesis
    by (simp add: stopInLoop_def assertInLoopThread_def setState_def others_def)
qed (use inv in \<open>simp add: stopInLoop_def assertInLoopThread_def\<close>)

lemma kinv_pop_base:
  assumes inv: "kinv w" and fs: "pendingFunctors w = f # fs" and f: "f \<noteq> Functor ResetChannel"
  shows "kinv (w\<lparr>pendingFunctors := fs\<rparr>)"
proof -
  let ?w = "w\<lparr>pendingFunctors := fs\<rparr>"
  have "kbase ?w" using inv linv_cong [of ?w w "{}"] by (auto simp: kinv_def kbase_def)
  moreover have "resets ?w = resets w" using fs f by (simp add: resets_def)
  then have "kchan ?w" using inv by (auto simp: kinv_def kchan_def current_ok_def split: option.splits)
  moreover have "kstart ?w"
    using inv fs by (auto simp: kinv_def kstart_def starts_def split: if_splits)
  ultimately show ?thesis by (simp add: kinv_def)
qed

lemma kinv_head_start:
  assumes inv: "kinv w" and fs: "pendingFunctors w = Functor StartInLoop # fs"
  shows "cstate w = Disconnected" "starts (w\<lparr>pendingFunctors := fs\<rparr>) = 0" "resets (w\<lparr>pendingFunctors := fs\<rparr>) = 0"
  using inv fs by (auto simp: kinv_def kstart_def starts_def resets_def count_list_0_iff)

lemma resetChannel_kinv:
  assumes inv: "kinv w" and fs: "pendingFunctors w = Functor ResetChannel # fs" and idle: "\<not> handlingEvents w"
    and has: "\<And>p w. poller_has p w = (\<exists>ch. chans w p = Some ch \<and> channels w (fd ch) = Some p)"
  shows "\<exists>w'. resetChannel poller_has (w\<lparr>pendingFunctors := fs\<rparr>) = Some w' \<and> kinv w' \<and> others w' = others w
    \<and> handlingEvents w' = handlingEvents w \<and> connector_world.more w' = connector_world.more w \<and> cchannel w' = None"
proof -
  let ?w = "w\<lparr>pendingFunctors := fs\<rparr>"
  have "0 < resets w" using fs by (simp add: resets_def)
  then obtain p ch where p: "cchannel w = Some p" "chans w p = Some ch" "current_ok w ch"
    using inv by (auto simp: kinv_def kchan_def split: option.splits)
  then have ch: "cstate w \<noteq> Connecting" "\<not> addedToLoop ch" "\<not> eventHandling ch" "resets w = 1"
    using fs idle by (auto simp: current_ok_def resets_def split: if_splits)
  let ?u = "?w\<lparr>cchannel := None\<rparr>"
  have base: "kbase w" using inv by (simp add: kinv_def)
  then have linv: "linv {} ?u" using linv_cong [of ?u w] by (simp add: kbase_def)
  have cu: "chans ?u p = Some ch" using p(2) by simp
  let ?v = "?u\<lparr>chans := (chans ?u)(p := None)\<rparr>"
  from deleted_ok [where poller_has = poller_has, OF linv cu ch(2,3) has] have
    v: "Channel_dtor True (hasChannel poller_has) p ?u = Some ?v" "linv {} ?v" by auto
  have "kbase ?v" using base v(2) by (auto simp: kbase_def split: if_splits)
  moreover have "kchan ?v" using ch(1,4) fs by (simp add: kchan_def resets_def)
  moreover have "kstart ?v" using inv fs by (auto simp: kinv_def kstart_def starts_def split: if_splits)
  ultimately have "kinv ?v" by (simp add: kinv_def)
  moreover have "others ?v = others w" using ch(1) by (simp add: others_def owned_def)
  ultimately show ?thesis using v(1) p(1) by (simp add: resetChannel_def)
qed

subsection \<open>What the connector leaves to its client\<close>

text \<open>The client's functors that wait in the loop, in their order, and the client's state.\<close>

fun client_functor_of :: "'u connector_cb pending_functor \<Rightarrow> 'u list" where
  "client_functor_of (Functor (ConnectorOther u)) = [u]"
| "client_functor_of f = []"

definition client_functors :: "('u, 'z) connector_world_scheme \<Rightarrow> 'u list" where
  "client_functors w = concat (map client_functor_of (pendingFunctors w))"

definition cframe :: "('u, 'z) connector_world_scheme \<Rightarrow> ('u, 'z) connector_world_scheme \<Rightarrow> bool" where
  "cframe w w' \<longleftrightarrow> connector_world.more w' = connector_world.more w \<and> client_functors w' = client_functors w"

lemma cframe_refl [simp]: "cframe w w"
  by (simp add: cframe_def)

lemma cframe_trans: "cframe u v \<Longrightarrow> cframe v w \<Longrightarrow> cframe u w"
  by (simp add: cframe_def)

lemma cframe_eq: "connector_world.more w' = connector_world.more w \<Longrightarrow> pendingFunctors w' = pendingFunctors w \<Longrightarrow> cframe w w'"
  by (simp add: cframe_def client_functors_def)

lemma cframe_setState [simp]:
  "cframe (setState s w) w' = cframe w w'" "cframe w (setState s w') = cframe w w'"
  "cframe (w\<lparr>cstate := s\<rparr>) w' = cframe w w'"
  by (simp_all add: cframe_def client_functors_def setState_def)

lemma cframe_queue: "client_functor_of f = [] \<Longrightarrow> cframe w (queueInLoop b f w)"
  by (simp add: cframe_def client_functors_def queue_defs)

lemma cframe_poller:
  fixes w w' :: "('u, 'z) connector_world_scheme"
  shows "poller_update w w' \<Longrightarrow> cframe w w'"
  by (intro cframe_eq) (simp_all add: poller_update_kframe(2) kframe_same(10) [OF poller_update_kframe(1)])

lemma cframe_chan [frames]:
  fixes w w' :: "('u, 'z) connector_world_scheme"
  shows "modify_chan p g w = Some w' \<Longrightarrow> cframe w w'"
    and "disableAll updateChannel p w = Some w' \<Longrightarrow> cframe w w'"
    and "enableWriting updateChannel p w = Some w' \<Longrightarrow> cframe w w'"
    and "removeChannel p w = Some w' \<Longrightarrow> cframe w w'"
  unfolding set_events_ops
  by (blast intro: cframe_poller dest: poller_update_modify poller_update_set_events poller_update_remove)+

lemma cframe_remove [frames]: "remove_channel removeChannel p w = Some w' \<Longrightarrow> cframe w w'"
  by (auto simp: remove_channel_def bind_eq_Some_conv dest!: cframe_chan intro: cframe_trans)

lemma cframe_close: "cframe w (sock_close f w)"
proof -
  obtain b l where "sock_close f w = w\<lparr>fds := fds w - {f}, bound := b, listeners := l\<rparr>" using sock_close_eq by blast
  then show ?thesis by (intro cframe_eq) simp_all
qed

lemma cframe_retry [frames]:
  fixes w w' :: "('a, 'b) connector_world_scheme"
  assumes r: "retry e f w = Some w'"
  shows "cframe w w'"
proof -
  have "cframe w (setState Disconnected (sock_close f w))"
    by (simp add: cframe_close)
  moreover have "cframe u v" if a: "runAfter (\<lambda>cb w. None) True now clock p d StartInLoop u = Some (v, tid)"
    for u v :: "('a, 'b) connector_world_scheme" and now clock p d tid
  proof -
    obtain due where "runAt (\<lambda>cb w. None) True clock p due StartInLoop u = Some (v, tid)"
      using a by (auto simp: runAfter_def bind_eq_Some_conv)
    moreover obtain q tid' where "new_Timer p StartInLoop due 0 (timerQueue u) = (q, tid')" by fastforce
    ultimately show ?thesis
      by (intro cframe_eq) (auto simp: runAt_def addTimer_def runInLoop_def bind_eq_Some_conv)
  qed
  then have "cframe (setState Disconnected (sock_close f w)) w'"
    using r unfolding retry_def Let_def
    by (cases "connect_flag (setState Disconnected (sock_close f w))")
      (fastforce simp: bind_eq_Some_conv simp del: cframe_setState intro: cframe_trans [OF _ cframe_eq], simp)
  ultimately show ?thesis by (rule cframe_trans)
qed

lemma cframe_reset [frames]:
  assumes "removeAndResetChannel w = Some (w', f)"
  shows "cframe w w'"
proof -
  obtain p u v where u: "disableAll updateChannel p w = Some u" "remove_channel removeChannel p u = Some v"
      "w' = queueInLoop True (Functor ResetChannel) v"
    using assms by (auto simp: removeAndResetChannel_def bind_eq_Some_conv Let_def)
  show ?thesis
    unfolding u(3) by (rule cframe_trans [OF cframe_trans [OF cframe_chan(2) [OF u(1)] cframe_remove [OF u(2)]] cframe_queue]) simp
qed

lemma cframe_connecting [frames]:
  assumes "connecting e f w = Some w'"
  shows "cframe w w'"
proof -
  let ?v = "(setState Connecting w)\<lparr>cchannel := Some (channel_mem e),
      chans := (chans w)(channel_mem e \<mapsto> Channel (this w) f)\<rparr>"
  obtain u v where u: "modify_chan (channel_mem e) (\<lambda>ch. ch\<lparr>writeCallback := Some ConnectorWrite\<rparr>) ?v = Some u"
      "modify_chan (channel_mem e) (\<lambda>ch. ch\<lparr>errorCallback := Some ConnectorError\<rparr>) u = Some v"
      "enableWriting updateChannel (channel_mem e) v = Some w'"
    using assms by (auto simp: connecting_def setState_def bind_eq_Some_conv Let_def)
  have "cframe w ?v" by (simp add: cframe_eq setState_def)
  with u show ?thesis by (blast intro: cframe_trans dest: frames)
qed

lemma cframe_connect [frames]:
  assumes "startInLoop e w = Some w'"
  shows "cframe w w'"
proof -
  obtain u f where s: "createNonblockingOrDie (family (serverAddr w)) w = (u, f)" by fastforce
  then have "cframe w u"
    by (intro cframe_eq) (auto simp: sock_defs split: option.splits)
  moreover have "w' = w \<or> connecting e f u = Some w' \<or> retry e f u = Some w' \<or> w' = sock_close f u"
    using assms s by (auto simp: startInLoop_def assertInLoopThread_def connect_def Let_def bind_eq_Some_conv split: if_splits)
  ultimately show ?thesis
    using cframe_connecting cframe_retry cframe_close cframe_trans cframe_refl by metis
qed

lemma cframe_stopInLoop [frames]:
  assumes "stopInLoop e w = Some w'"
  shows "cframe w w'"
proof (cases "cstate w = Connecting")
  case True
  then obtain u f where u: "removeAndResetChannel (setState Disconnected w) = Some (u, f)" "retry e f u = Some w'"
    using assms by (auto simp: stopInLoop_def assertInLoopThread_def bind_eq_Some_conv)
  from cframe_trans [OF cframe_reset [OF u(1)] cframe_retry [OF u(2)]] show ?thesis by simp
qed (use assms in \<open>simp add: stopInLoop_def assertInLoopThread_def\<close>)

lemma cframe_handleError [frames]:
  assumes "handleError e w = Some w'"
  shows "cframe w w'"
proof (cases "cstate w = Connecting")
  case True
  then obtain u f where u: "removeAndResetChannel w = Some (u, f)" "retry e f u = Some w'"
    using assms by (auto simp: handleError_def bind_eq_Some_conv)
  from cframe_trans [OF cframe_reset [OF u(1)] cframe_retry [OF u(2)]] show ?thesis .
qed (use assms in \<open>simp add: handleError_def\<close>)

lemma cframe_resetChannel [frames]: "resetChannel has w = Some w' \<Longrightarrow> cframe w w'"
  by (intro cframe_eq) (auto simp: resetChannel_def Channel_dtor_def bind_eq_Some_conv split: option.splits)

text \<open>During an event the callback for the new connection is called at most once.\<close>

definition hands :: "(fd \<Rightarrow> ('u, 'z) connector_op) \<Rightarrow> ('u, 'z) connector_world_scheme \<Rightarrow> ('u, 'z) connector_world_scheme \<Rightarrow> bool" where
  "hands new_connection w w' \<longleftrightarrow> cframe w w'
     \<or> (\<exists>f u u'. cframe w u \<and> new_connection f u = Some u' \<and> cframe u' w' \<and> cstate w' = Connected)"

lemma hands_frame:
  "cframe w w' \<Longrightarrow> hands new_connection w w'"
  "cframe v w \<Longrightarrow> hands new_connection w w' \<Longrightarrow> hands new_connection v w'"
  "hands new_connection w w' \<Longrightarrow> cframe w' v \<Longrightarrow> cstate v = cstate w' \<Longrightarrow> hands new_connection w v"
  unfolding hands_def by (blast, blast intro: cframe_trans, metis cframe_trans)

lemma hands_new: "cframe w u \<Longrightarrow> new_connection f u = Some w' \<Longrightarrow> cstate w' = Connected \<Longrightarrow> hands new_connection w w'"
  unfolding hands_def using cframe_refl by blast

subsection \<open>The contract of the callback for new connections\<close>

text \<open>
  It leaves the connector connected, with the channel it has still to delete. From then on the
  client is responsible for the descriptor: \<open>taken\<close> are the descriptors it has been given. The
  client may ask for something (\<open>can_take\<close>) before it is called.
\<close>

definition balanced :: "('z \<Rightarrow> fd set) \<Rightarrow> ('u, 'z) connector_world_scheme \<Rightarrow> bool" where
  "balanced taken w \<longleftrightarrow> others w = taken (connector_world.more w)"

locale connector_client =
  fixes new_connection :: "fd \<Rightarrow> ('u, 'z) connector_op"
    and taken :: "'z \<Rightarrow> fd set"
    and can_take :: "'z \<Rightarrow> bool"
  assumes new_ok: "kinv w \<Longrightarrow> cstate w = Connected \<Longrightarrow> f \<in> fds w \<Longrightarrow> can_take (connector_world.more w) \<Longrightarrow>
    \<exists>w'. new_connection f w = Some w' \<and> kinv w' \<and> cstate w' = Connected \<and> cchannel w' = cchannel w
      \<and> cur_revents w' = cur_revents w \<and> handlingEvents w' = handlingEvents w \<and> fds w' = fds w
      \<and> taken (connector_world.more w') = insert f (taken (connector_world.more w))"
begin

lemma handleWrite_kinv:
  assumes inv: "kinv w" and env: "cstate w = Connecting \<Longrightarrow> env_ok e w" and st: "cstate w \<noteq> Connected"
    and can: "can_take (connector_world.more w)"
    and rem: "\<And>p. cchannel w = Some p \<Longrightarrow> removable p w"
  shows "\<exists>w'. handleWrite new_connection e w = Some w' \<and> kinv w' \<and> cstate w' \<noteq> Connecting
    \<and> (balanced taken w \<longrightarrow> balanced taken w') \<and> cchannel w' = cchannel w \<and> cur_revents w' = cur_revents w \<and> handlingEvents w' = handlingEvents w
    \<and> hands new_connection w w'
    \<and> (cstate w = Connecting \<longrightarrow> getSocketError (so_error e) = 0 \<longrightarrow> \<not> isSelfConnect (sockname e) (peername e)
      \<longrightarrow> cstate w' = Connected)"
proof (cases "cstate w = Connecting")
  case True
  from removeAndReset_loose [OF inv True rem, of "cstate w"] obtain w1 f where
    w1: "removeAndResetChannel w = Some (w1, f)" "loose f w1" "kframe w w1" "dom (chans w1) = dom (chans w)"
      "cur_revents w1 = cur_revents w" "owned w = {f}" by auto
  note kf = kframe_same [OF w1(3)]
  have "env_ok e w1" using env [OF True] kf w1(4) by (auto simp: env_ok_def domIff)
  from retry_kinv [OF w1(2) this] obtain w' where
    r: "retry e f w1 = Some w'" "kinv w'" "cstate w' = Disconnected" "cchannel w' = cchannel w1"
      "handlingEvents w' = handlingEvents w1" "cur_revents w' = cur_revents w1" "others w' = fds w1 - {f}"
      "connector_world.more w' = connector_world.more w1" by blast
  have rb: "balanced taken w'" if "balanced taken w"
    using that r(7,8) kf w1(6) by (simp add: balanced_def others_def)
  let ?c = "setState Connected w1"
  have cl: "loose f ?c"
    using w1(2) linv_cong [of ?c w1 "{}"] by (simp add: loose_def setState_def kbase_def starts_def)
  have cc: "cstate ?c = Connected" "cchannel ?c = cchannel w" "handlingEvents ?c = handlingEvents w"
      "cur_revents ?c = cur_revents w" "f \<in> fds ?c"
    using kf w1(2,5) by (simp_all add: setState_def cur_revents_def loose_def cong: option.case_cong)
  have "kchan ?c" using w1(2) unfolding loose_def setState_def by blast
  then have kc: "kinv ?c" using cl unfolding kinv_def loose_def kstart_def by simp
  obtain u where u: "new_connection f ?c = Some u" "kinv u" "cstate u = Connected" "cchannel u = cchannel ?c"
      "cur_revents u = cur_revents ?c" "handlingEvents u = handlingEvents ?c" "fds u = fds ?c"
      "taken (connector_world.more u) = insert f (taken (connector_world.more ?c))"
    using new_ok [OF kc cc(1,5)] can kf by (auto simp: setState_def)
  have ub: "balanced taken u" if "balanced taken w"
    using that u(3,7,8) kf w1(6) cc(5) by (auto simp: balanced_def others_def owned_def setState_def)
  have d: "kinv (sock_close f ?c)" "cchannel (sock_close f ?c) = cchannel ?c"
      "handlingEvents (sock_close f ?c) = handlingEvents ?c" "cur_revents (sock_close f ?c) = cur_revents ?c"
      "cstate (sock_close f ?c) = Connected" "others (sock_close f ?c) = fds ?c - {f}"
      "connector_world.more (sock_close f ?c) = connector_world.more ?c"
    using close_loose [OF cl] cc(1) by auto
  have db: "balanced taken (sock_close f ?c)" if "balanced taken w"
    using that d(6,7) kf w1(6) by (simp add: balanced_def others_def setState_def)
  note fr = cframe_reset [OF w1(1)]
  have fc: "cframe w ?c" using fr by simp
  have rh: "hands new_connection w w'" by (rule hands_frame(1) [OF cframe_trans [OF fr cframe_retry [OF r(1)]]])
  have uh: "hands new_connection w u" using hands_new [OF fc, of new_connection f u] u(1,3) by simp
  have dh: "hands new_connection w (sock_close f ?c)" by (rule hands_frame(1) [OF cframe_trans [OF fc cframe_close]])
  show ?thesis
    using True w1(1) r(1-6) u(1-6) d(1-5) cc kf w1(5) rb ub db rh uh dh by (simp add: handleWrite_def Let_def)
next
  case False
  then have "cstate w = Disconnected" using st by (cases "cstate w") auto
  then show ?thesis using inv by (simp add: handleWrite_def hands_def)
qed

lemma handleError_kinv:
  assumes inv: "kinv w" and env: "env_ok e w" and rem: "\<And>p. cchannel w = Some p \<Longrightarrow> removable p w"
    and st: "cstate w = Connecting"
  shows "\<exists>w'. handleError e w = Some w' \<and> kinv w' \<and> cstate w' = Disconnected
    \<and> (balanced taken w \<longrightarrow> balanced taken w')
    \<and> cchannel w' = cchannel w \<and> cur_revents w' = cur_revents w \<and> handlingEvents w' = handlingEvents w"
proof -
  from removeAndReset_loose [OF inv st rem, of "cstate w"] obtain w1 f where
    w1: "removeAndResetChannel w = Some (w1, f)" "loose f w1" "kframe w w1" "dom (chans w1) = dom (chans w)"
      "cur_revents w1 = cur_revents w" "owned w = {f}" by auto
  note kf = kframe_same [OF w1(3)]
  have "env_ok e w1" using env kf w1(4) by (auto simp: env_ok_def domIff)
  from retry_kinv [OF w1(2) this] obtain w' where
    r: "retry e f w1 = Some w'" "kinv w'" "cstate w' = Disconnected" "cchannel w' = cchannel w1"
      "handlingEvents w' = handlingEvents w1" "cur_revents w' = cur_revents w1" "others w' = fds w1 - {f}"
      "connector_world.more w' = connector_world.more w1" by blast
  have "balanced taken w'" if "balanced taken w"
    using that r(7,8) kf w1(6) by (simp add: balanced_def others_def)
  with r(1-6) st w1(1,5) kf show ?thesis by (simp add: handleError_def Let_def)
qed

end

subsection \<open>Events on the connector's channel\<close>

text \<open>The loop has found the channel active with \<open>r\<close> and calls \<open>handleEvent\<close>.\<close>

definition connector_event :: "(fd \<Rightarrow> ('u, 'z) connector_op) \<Rightarrow> (ptr \<Rightarrow> ('u, 'z) connector_world_scheme \<Rightarrow> bool)
    \<Rightarrow> 32 word \<Rightarrow> timestamp \<Rightarrow> env \<Rightarrow> ('u, 'z) connector_op" where
  "connector_event new_connection poller_has r t e w =
     do { p \<leftarrow> cchannel w;
          w \<leftarrow> modify_chan p (\<lambda>ch. ch\<lparr>revents := r\<rparr>) w;
          let w = w\<lparr>handlingEvents := True, currentActiveChannel := Some p\<rparr>;
          w \<leftarrow> handleEvent (\<lambda>cb t. connector_call new_connection poller_has e cb) (\<lambda>p w. None) t p w;
          Some (w\<lparr>currentActiveChannel := None, handlingEvents := False\<rparr>) }"

lemma kinv_current:
  assumes "kinv w" and "cchannel w = Some p"
  obtains ch where "chans w p = Some ch" "current_ok w ch"
  using assms by (auto simp: kinv_def kchan_def)

lemma call_if_skip: "chans w p = Some ch \<Longrightarrow> cbsel ch = None \<Longrightarrow> call_if run_cb cond cbsel t p w = Some w"
  by (simp add: call_if_def)

text \<open>Changes of the current channel that the poller does not see, and of the loop's own flags.\<close>

lemma kinv_touch:
  assumes inv: "kinv w" and p: "cchannel w = Some p" "chans w p = Some ch"
    and same: "fd d = fd ch" "events d = events ch" "index d = index ch" "addedToLoop d = addedToLoop ch"
      "ownerLoop d = ownerLoop ch" "tied d = tied ch" "closeCallback d = closeCallback ch"
      "readCallback d = readCallback ch" "writeCallback d = writeCallback ch" "errorCallback d = errorCallback ch"
    and h: "\<not> h \<longrightarrow> \<not> eventHandling d"
  shows "kinv (w\<lparr>chans := (chans w)(p \<mapsto> d), handlingEvents := h, currentActiveChannel := a\<rparr>)"
    and "balanced taken (w\<lparr>chans := (chans w)(p \<mapsto> d), handlingEvents := h, currentActiveChannel := a\<rparr>) = balanced taken w"
proof -
  let ?w = "w\<lparr>chans := (chans w)(p \<mapsto> d), handlingEvents := h, currentActiveChannel := a\<rparr>"
  have base: "kbase w" using inv by (simp add: kinv_def)
  have "linv {} (w\<lparr>chans := (chans w)(p \<mapsto> d)\<rparr>)"
    using base by (intro linv_touch [OF _ p(2) same(1-5)]) (simp add: kbase_def)
  then have "linv {} ?w" using linv_cong [of ?w "w\<lparr>chans := (chans w)(p \<mapsto> d)\<rparr>" "{}"] by simp
  then have "kbase ?w" using base p(2) same by (auto simp: kbase_def split: if_splits)
  moreover have "current_ok w ch" using kinv_current [OF inv p(1)] p(2) by force
  then have "kchan ?w" using p same h by (simp add: kchan_def current_ok_def resets_def)
  moreover have "kstart ?w" using inv kstart_cong [of ?w w] by (simp add: kinv_def)
  ultimately show "kinv ?w" by (simp add: kinv_def)
  show "balanced taken ?w = balanced taken w" using p same by (auto simp: balanced_def others_def owned_def)
qed

context connector_client
begin

lemma kinv_selectors:
  assumes "kinv v" and "cchannel v = Some p" and "cur_revents v = Some r"
  obtains c where "chans v p = Some c" "current_ok v c" "revents c = r" "closeCallback c = None" "readCallback c = None"
    "writeCallback c = Some ConnectorWrite" "errorCallback c = Some ConnectorError"
proof -
  from kinv_current [OF assms(1,2)] obtain c where "chans v p = Some c" "current_ok v c" .
  then show ?thesis using that assms(2,3) by (simp add: current_ok_def cur_revents_def)
qed

text \<open>The two callbacks of the connector's channel, in the order in which an event calls them.\<close>

lemma error_phase:
  assumes inv: "kinv u" and st: "cstate u = Connecting" and env: "env_ok e u" and p: "cchannel u = Some p"
    and r: "cur_revents u = Some r" and h: "handlingEvents u" and rem: "removable p u"
  shows "\<exists>v. call_if (\<lambda>cb t. connector_call new_connection poller_has e cb) is_error errorCallback t p u = Some v \<and> kinv v
    \<and> cchannel v = Some p \<and> cur_revents v = Some r \<and> (v = u \<or> cstate v = Disconnected)
    \<and> (balanced taken u \<longrightarrow> balanced taken v) \<and> cframe u v"
proof -
  from kinv_selectors [OF inv p r] obtain c where
    c: "chans u p = Some c" "revents c = r" "errorCallback c = Some ConnectorError" by blast
  have "\<And>q. cchannel u = Some q \<Longrightarrow> removable q u" using p rem by simp
  from handleError_kinv [OF inv env this st] obtain y where
    y: "handleError e u = Some y" "kinv y" "cstate y = Disconnected" "cchannel y = Some p" "cur_revents y = Some r"
      "balanced taken u \<longrightarrow> balanced taken y" using p r by auto
  show ?thesis
  proof (cases "is_error r")
    case True
    with c y cframe_handleError [OF y(1)] show ?thesis by (simp add: call_if_def)
  next
    case False
    with c inv p r show ?thesis by (simp add: call_if_def)
  qed
qed

lemma write_phase:
  assumes inv: "kinv v" and p: "cchannel v = Some p" and r: "cur_revents v = Some r"
    and rem: "cstate v = Connecting \<Longrightarrow> removable p v" and st: "cstate v \<noteq> Connected" and env: "cstate v = Connecting \<Longrightarrow> env_ok e v" and can: "can_take (connector_world.more v)"
  shows "\<exists>x. call_if (\<lambda>cb t. connector_call new_connection poller_has e cb) is_write writeCallback t p v = Some x \<and> kinv x
    \<and> cchannel x = Some p \<and> (balanced taken v \<longrightarrow> balanced taken x) \<and> hands new_connection v x"
proof -
  from kinv_selectors [OF inv p r] obtain c where
    c: "chans v p = Some c" "revents c = r" "writeCallback c = Some ConnectorWrite" by blast
  have "\<exists>x. handleWrite new_connection e v = Some x \<and> kinv x \<and> cchannel x = Some p
      \<and> (balanced taken v \<longrightarrow> balanced taken x) \<and> hands new_connection v x"
  proof (cases "cstate v = Connecting")
    case True
    then have "\<And>q. cchannel v = Some q \<Longrightarrow> removable q v" using p rem by simp
    from handleWrite_kinv [OF inv env st can this] show ?thesis using p by auto
  next
    case False
    then have "cstate v = Disconnected" using st by (cases "cstate v") auto
    then show ?thesis using inv p by (simp add: handleWrite_def hands_def)
  qed
  then obtain x where
    x: "handleWrite new_connection e v = Some x" "kinv x" "cchannel x = Some p" "balanced taken v \<longrightarrow> balanced taken x"
      "hands new_connection v x" by blast
  show ?thesis
  proof (cases "is_write r")
    case True
    with c x show ?thesis by (simp add: call_if_def)
  next
    case False
    with c inv p hands_frame(1) [OF cframe_refl] show ?thesis by (simp add: call_if_def)
  qed
qed

text \<open>The whole event, from its two callbacks.\<close>

lemma event_eq:
  assumes inv: "kinv w" and p: "cchannel w = Some p" and ch: "chans w p = Some ch"
    and u: "u = w\<lparr>chans := (chans w)(p \<mapsto> ch\<lparr>revents := r, eventHandling := True\<rparr>), handlingEvents := True,
      currentActiveChannel := Some p\<rparr>"
    and v: "call_if (\<lambda>cb t. connector_call new_connection poller_has e cb) is_error errorCallback t p u = Some v"
      "kinv v" "cchannel v = Some p" "cur_revents v = Some r"
    and x: "call_if (\<lambda>cb t. connector_call new_connection poller_has e cb) is_write writeCallback t p v = Some x" "chans x p = Some c"
  shows "connector_event new_connection poller_has r t e w = Some (x\<lparr>chans := (chans x)(p \<mapsto> c\<lparr>eventHandling := False\<rparr>),
    handlingEvents := False, currentActiveChannel := None\<rparr>)"
proof -
  let ?call = "\<lambda>cb (t :: timestamp). connector_call new_connection poller_has e cb"
  from kinv_current [OF inv p] ch have ok: "current_ok w ch" by auto
  have ku: "kinv u" unfolding u by (rule kinv_touch(1) [OF inv p ch]) simp_all
  have cu: "cchannel u = Some p" "cur_revents u = Some r" using p by (simp_all add: u cur_revents_def)
  let ?x = "x\<lparr>chans := (chans x)(p \<mapsto> c\<lparr>eventHandling := False\<rparr>)\<rparr>"
  obtain cu0 cv where cu0: "chans u p = Some cu0" "closeCallback cu0 = None" and cv: "chans v p = Some cv" "readCallback cv = None"
    using kinv_selectors [OF ku cu] kinv_selectors [OF v(2-4)] by metis
  have s1: "modify_chan p (\<lambda>ch. ch\<lparr>eventHandling := True\<rparr>) (w\<lparr>chans := (chans w)(p \<mapsto> ch\<lparr>revents := r\<rparr>),
      handlingEvents := True, currentActiveChannel := Some p\<rparr>) = Some u"
    by (simp add: modify_chan_def u)
  have s2: "call_if ?call is_close closeCallback t p u = Some u" by (rule call_if_skip [where ch = cu0]) (rule cu0)+
  have s3: "call_if ?call is_read readCallback t p v = Some v" by (rule call_if_skip [where ch = cv]) (rule cv)+
  have s4: "modify_chan p (\<lambda>ch. ch\<lparr>eventHandling := False\<rparr>) x = Some ?x" by (simp add: modify_chan_def x(2))
  have "handleEventWithGuard ?call t p (w\<lparr>chans := (chans w)(p \<mapsto> ch\<lparr>revents := r\<rparr>), handlingEvents := True,
      currentActiveChannel := Some p\<rparr>) = Some ?x"
    unfolding handleEventWithGuard_def s1 bind.bind_lunit s2 v(1) s3 x(1) s4 ..
  then show ?thesis using p ch ok by (simp add: connector_event_def handleEvent_def current_ok_def)
qed

lemma connector_event_kinv:
  assumes inv: "kinv w" and st: "cstate w = Connecting" and env: "env_ok e w" and idle: "\<not> handlingEvents w"
    and can: "can_take (connector_world.more w)"
  shows "\<exists>w'. connector_event new_connection poller_has r t e w = Some w' \<and> kinv w' \<and> \<not> handlingEvents w'
    \<and> (balanced taken w \<longrightarrow> balanced taken w') \<and> hands new_connection w w'"
proof -
  let ?call = "\<lambda>cb (t :: timestamp). connector_call new_connection poller_has e cb"
  obtain p where p: "cchannel w = Some p"
    using inv st by (auto simp: kinv_def kchan_def split: option.splits)
  from kinv_current [OF inv p] obtain ch where ch: "chans w p = Some ch" "current_ok w ch" .
  let ?u = "w\<lparr>chans := (chans w)(p \<mapsto> ch\<lparr>revents := r, eventHandling := True\<rparr>), handlingEvents := True,
    currentActiveChannel := Some p\<rparr>"
  have u: "kinv ?u" by (rule kinv_touch(1) [OF inv p ch(1)]) simp_all
  have bu: "balanced taken ?u = balanced taken w" by (rule kinv_touch(2) [OF inv p ch(1)]) simp_all
  have cu: "cchannel ?u = Some p" "cur_revents ?u = Some r" "cstate ?u = Connecting" "handlingEvents ?u" "removable p ?u"
    using p st by (simp_all add: cur_revents_def removable_def)
  have envu: "env_ok e ?u" using env ch(1) by (auto simp: env_ok_def)
  from error_phase [OF u cu(3) envu cu(1,2,4,5), of poller_has t] obtain v where
    v: "call_if ?call is_error errorCallback t p ?u = Some v" "kinv v" "cchannel v = Some p" "cur_revents v = Some r"
      "v = ?u \<or> cstate v = Disconnected" "balanced taken ?u \<longrightarrow> balanced taken v" "cframe ?u v" by blast
  have vs: "cstate v = Connecting \<Longrightarrow> removable p v" "cstate v \<noteq> Connected" "cstate v = Connecting \<Longrightarrow> env_ok e v" "can_take (connector_world.more v)"
    using v(5,7) cu(3,5) envu can by (auto simp: cframe_def)
  from write_phase [OF v(2-4) vs, of poller_has t] obtain x where
    x: "call_if ?call is_write writeCallback t p v = Some x" "kinv x" "cchannel x = Some p"
      "balanced taken v \<longrightarrow> balanced taken x" "hands new_connection v x" by blast
  from kinv_current [OF x(2,3)] obtain c where c: "chans x p = Some c" "current_ok x c" .
  let ?w = "x\<lparr>chans := (chans x)(p \<mapsto> c\<lparr>eventHandling := False\<rparr>), handlingEvents := False, currentActiveChannel := None\<rparr>"
  have "connector_event new_connection poller_has r t e w = Some ?w"
    by (rule event_eq [OF inv p ch(1) refl v(1-4) x(1) c(1)])
  moreover have "kinv ?w" by (rule kinv_touch(1) [OF x(2,3) c(1)]) simp_all
  moreover have "balanced taken ?w = balanced taken x" by (rule kinv_touch(2) [OF x(2,3) c(1)]) simp_all
  then have "balanced taken w \<longrightarrow> balanced taken ?w" using bu v(6) x(4) by blast
  moreover have c: "cframe w ?u" "cframe x ?w" by (rule cframe_eq; simp)+
  have "hands new_connection w ?w"
    by (rule hands_frame(3) [OF hands_frame(2) [OF cframe_trans [OF c(1) v(7)] x(5)] c(2)]) simp
  ultimately show ?thesis by auto
qed

text \<open>The event that says that the connection is made: its descriptor is handed over.\<close>

lemma connected_event:
  assumes inv: "kinv w" and st: "cstate w = Connecting" and flag: "connect_flag w" and env: "env_ok e w"
    and idle: "\<not> handlingEvents w" and can: "can_take (connector_world.more w)"
    and r: "is_write r" "\<not> is_error r" and good: "getSocketError (so_error e) = 0" "\<not> isSelfConnect (sockname e) (peername e)"
  shows "\<exists>w' u v. connector_event new_connection poller_has r t e w = Some w' \<and> cstate w' = Connected
    \<and> cframe w u \<and> (\<exists>f. owned w = {f} \<and> new_connection f u = Some v) \<and> cframe v w'"
proof -
  let ?call = "\<lambda>cb (t :: timestamp). connector_call new_connection poller_has e cb"
  obtain p where p: "cchannel w = Some p"
    using inv st by (auto simp: kinv_def kchan_def split: option.splits)
  from kinv_current [OF inv p] obtain ch where ch: "chans w p = Some ch" "current_ok w ch" .
  let ?u = "w\<lparr>chans := (chans w)(p \<mapsto> ch\<lparr>revents := r, eventHandling := True\<rparr>), handlingEvents := True,
    currentActiveChannel := Some p\<rparr>"
  have u: "kinv ?u" by (rule kinv_touch(1) [OF inv p ch(1)]) simp_all
  have cu: "cchannel ?u = Some p" "cur_revents ?u = Some r" "cstate ?u = Connecting" "owned ?u = owned w"
    using p st ch(1) by (auto simp: cur_revents_def owned_def)
  have rem: "removable q ?u" if "cchannel ?u = Some q" for q using that p by (simp add: removable_def)
  from removeAndReset_loose [OF u cu(3) rem, of "cstate ?u"] obtain w1 f where
    w1: "removeAndResetChannel ?u = Some (w1, f)" "kframe ?u w1" "owned ?u = {f}" by auto
  have "connect_flag w1" using kframe_same(3) [OF w1(2)] flag by simp
  then have hw: "handleWrite new_connection e ?u = new_connection f (setState Connected w1)"
    using w1(1) cu(3) good by (simp add: handleWrite_def Let_def setState_def)
  from kinv_selectors [OF u cu(1,2)] obtain cu0 where
    cu0: "chans ?u p = Some cu0" "revents cu0 = r" "writeCallback cu0 = Some ConnectorWrite" by blast
  have v: "call_if ?call is_error errorCallback t p ?u = Some ?u" using cu0 r(2) by (simp add: call_if_def)
  have env': "env_ok e ?u" using env ch(1) by (auto simp: env_ok_def)
  from handleWrite_kinv [OF u env' _ _ rem] cu(1,3) can good obtain x where
    x: "handleWrite new_connection e ?u = Some x" "kinv x" "cchannel x = Some p" "cstate x = Connected" by auto
  then have xc: "call_if ?call is_write writeCallback t p ?u = Some x" using cu0 r(1) by (simp add: call_if_def)
  from kinv_current [OF x(2,3)] obtain c where c: "chans x p = Some c" "current_ok x c" .
  let ?w = "x\<lparr>chans := (chans x)(p \<mapsto> c\<lparr>eventHandling := False\<rparr>), handlingEvents := False, currentActiveChannel := None\<rparr>"
  have "connector_event new_connection poller_has r t e w = Some ?w"
    by (rule event_eq [OF inv p ch(1) refl v u cu(1,2) xc c(1)])
  moreover have "cframe w (setState Connected w1)"
    using cframe_trans [OF cframe_eq cframe_reset [OF w1(1)], of w] by simp
  moreover have "new_connection f (setState Connected w1) = Some x" using hw x(1) by simp
  moreover have "cframe x ?w" by (rule cframe_eq) simp_all
  moreover have "cstate ?w = Connected" using x(4) by simp
  moreover have "owned w = {f}" using w1(3) cu(4) by simp
  ultimately show ?thesis by blast
qed
end

subsection \<open>The connector as a machine\<close>

text \<open>
  What happens to a connector between two turns of its loop: calls of the owner, from the loop's
  thread or another, functors that the loop takes from its queue, the retry timer (the timer queue
  has taken it out and \<open>q\<close> is what is left), any other change of the timer queue, and events on the
  connector's channel.
\<close>

datatype 'u connector_act =
    Start bool env
  | Stop bool
  | Restart env
  | RunFunctor env
  | Fire "'u connector_cb timer_queue" env
  | OtherTimers "'u connector_cb timer_queue"
  | Event "32 word" timestamp env

fun connector_step :: "(fd \<Rightarrow> ('u, 'z) connector_op) \<Rightarrow> (ptr \<Rightarrow> ('u, 'z) connector_world_scheme \<Rightarrow> bool)
    \<Rightarrow> 'u connector_act \<Rightarrow> ('u, 'z) connector_op" where
  "connector_step new_connection poller_has (Start in_loop e) w = start in_loop e w"
| "connector_step new_connection poller_has (Stop in_loop) w = Some (stop in_loop w)"
| "connector_step new_connection poller_has (Restart e) w = Connector_restart e w"
| "connector_step new_connection poller_has (RunFunctor e) w =
     (case pendingFunctors w of
        [] \<Rightarrow> Some w
      | f # fs \<Rightarrow>
          (let w = w\<lparr>pendingFunctors := fs\<rparr>
           in case f of Functor cb \<Rightarrow> connector_call new_connection poller_has e cb w | _ \<Rightarrow> Some w))"
| "connector_step new_connection poller_has (Fire q e) w = startInLoop e (w\<lparr>timerQueue := q\<rparr>)"
| "connector_step new_connection poller_has (OtherTimers q) w = Some (w\<lparr>timerQueue := q\<rparr>)"
| "connector_step new_connection poller_has (Event r t e) w = connector_event new_connection poller_has r t e w"

text \<open>
  The protocol. \<open>start\<close> is called while the connector is disconnected and no start is queued or waiting
  for its timer; \<open>restart\<close> after the connection that was made has gone. In the loop's thread they also
  find the last channel deleted. Events come only while the channel is watched.
\<close>

definition startable :: "('u, 'z) connector_world_scheme \<Rightarrow> bool" where
  "startable w \<longleftrightarrow> Functor StartInLoop \<notin> set (pendingFunctors w) \<and> retry_timers (timerQueue w) = {}"

fun connector_act_ok :: "'u connector_act \<Rightarrow> ('u, 'z) connector_world_scheme \<Rightarrow> bool" where
  "connector_act_ok (Start in_loop e) w =
     (cstate w = Disconnected \<and> startable w \<and> (in_loop \<longrightarrow> resets w = 0 \<and> env_ok e w))"
| "connector_act_ok (Stop in_loop) w = True"
| "connector_act_ok (Restart e) w = (cstate w \<noteq> Connecting \<and> startable w \<and> resets w = 0 \<and> env_ok e w)"
| "connector_act_ok (RunFunctor e) w =
     (env_ok e w \<and> pendingFunctors w \<noteq> [] \<and> hd (pendingFunctors w) \<notin> {Functor ConnectorWrite, Functor ConnectorError})"
| "connector_act_ok (Fire q e) w =
     (tq_inv {} q \<and> (\<exists>p \<in> retry_timers (timerQueue w). retry_timers q = retry_timers (timerQueue w) - {p})
      \<and> resets w = 0 \<and> env_ok e (w\<lparr>timerQueue := q\<rparr>))"
| "connector_act_ok (OtherTimers q) w = (tq_inv {} q \<and> retry_timers q = retry_timers (timerQueue w))"
| "connector_act_ok (Event r t e) w = (cstate w = Connecting \<and> env_ok e w)"

text \<open>What \<open>Poller::hasChannel\<close> answers.\<close>

definition has_law :: "(ptr \<Rightarrow> ('u, 'z) connector_world_scheme \<Rightarrow> bool) \<Rightarrow> bool" where
  "has_law poller_has \<longleftrightarrow> (\<forall>p w. poller_has p w = (\<exists>ch. chans w p = Some ch \<and> channels w (fd ch) = Some p))"

lemma startable_0: "kinv w \<Longrightarrow> startable w \<Longrightarrow> starts w = 0"
  using starts_0 by (auto simp: startable_def kinv_def kbase_def)

lemma kinv_timers:
  fixes w :: "('u, 'z) connector_world_scheme"
  assumes inv: "kinv w" and q: "tq_inv {} q" "retry_timers q \<subseteq> retry_timers (timerQueue w)"
  shows "kinv (w\<lparr>timerQueue := q\<rparr>)" "balanced taken (w\<lparr>timerQueue := q\<rparr>) = balanced taken w"
    "starts (w\<lparr>timerQueue := q\<rparr>) \<le> starts w"
proof -
  let ?w = "w\<lparr>timerQueue := q\<rparr>"
  have base: "kbase w" using inv by (simp add: kinv_def)
  then have fin: "finite (retry_timers (timerQueue w))" using finite_retry_timers by (auto simp: kbase_def)
  show s: "starts ?w \<le> starts w" using card_mono [OF fin q(2)] by (simp add: starts_def)
  obtain k where "retryDelayMs w = backoff k" using base by (auto simp: kbase_def)
  then have "kbase ?w" using base q(1) by (intro kbase_update [OF base, where k = k]) (auto simp: kbase_def)
  moreover have "kchan ?w" using inv kchan_cong [of ?w w] by (simp add: kinv_def)
  moreover have "kstart ?w" using inv s by (auto simp: kinv_def kstart_def)
  ultimately show "kinv ?w" by (simp add: kinv_def)
  show "balanced taken ?w = balanced taken w" by (simp add: balanced_def others_def owned_def)
qed

lemma kinv_flags:
  fixes w :: "('u, 'z) connector_world_scheme"
  assumes inv: "kinv w" and d: "d = backoff k"
  shows "kinv (w\<lparr>connect_flag := b\<rparr>)" "balanced taken (w\<lparr>connect_flag := b\<rparr>) = balanced taken w"
    "cstate w \<noteq> Connecting \<Longrightarrow> starts w = 0 \<Longrightarrow>
      kinv (w\<lparr>cstate := Disconnected, retryDelayMs := d, connect_flag := b\<rparr>)
      \<and> balanced taken (w\<lparr>cstate := Disconnected, retryDelayMs := d, connect_flag := b\<rparr>) = balanced taken w"
proof -
  let ?w = "w\<lparr>connect_flag := b\<rparr>"
  obtain j where base: "kbase w" "retryDelayMs w = backoff j" using inv by (auto simp: kinv_def kbase_def)
  have "kbase ?w" using base by (intro kbase_update [OF base(1), where k = j]) (auto simp: kbase_def)
  moreover have "kchan ?w" using inv kchan_cong [of ?w w] by (simp add: kinv_def)
  moreover have "kstart ?w" using inv kstart_cong [of ?w w] by (simp add: kinv_def)
  ultimately show "kinv ?w" by (simp add: kinv_def)
  show "balanced taken ?w = balanced taken w" by (simp add: balanced_def others_def owned_def)
  assume s: "cstate w \<noteq> Connecting" "starts w = 0"
  let ?v = "w\<lparr>cstate := Disconnected, retryDelayMs := d, connect_flag := b\<rparr>"
  have "kbase ?v" using base d by (intro kbase_update [OF base(1), where k = k]) (auto simp: kbase_def)
  moreover have "kchan ?v"
    using inv s(1) by (auto simp: kinv_def kchan_def current_ok_def resets_def split: option.splits)
  moreover have "kstart ?v" using inv s(2) by (simp add: kinv_def kstart_def starts_def)
  ultimately have "kinv ?v" by (simp add: kinv_def)
  then show "kinv ?v \<and> balanced taken ?v = balanced taken w"
    using s(1) by (simp add: balanced_def others_def owned_def)
qed

text \<open>Queueing a functor of the connector.\<close>

lemma kinv_queue:
  fixes w :: "('u, 'z) connector_world_scheme"
  assumes inv: "kinv w" and f: "f \<noteq> Functor ResetChannel"
    and start: "f = Functor StartInLoop \<Longrightarrow> starts w = 0 \<and> cstate w = Disconnected"
  shows "kinv (queueInLoop b f w)" "balanced taken (queueInLoop b f w) = balanced taken w"
proof -
  let ?w = "queueInLoop b f w"
  note kf = kframe_same [OF queue_kframe(1) [of w b f]]
  have "kbase ?w" using inv linv_queue [of b f w] kf queue_kframe(3) [of b f w] by (auto simp: kinv_def kbase_def)
  moreover have "resets ?w = resets w" using f queue_kframe(2) [of b f w] by (auto simp: resets_def)
  then have "kchan ?w"
    using inv kf queue_kframe(3) [of b f w]
    by (simp add: kinv_def kchan_def current_ok_def cong: option.case_cong)
  moreover have "kstart ?w"
  proof (cases "f = Functor StartInLoop")
    case True
    with inv start kf queue_kframe(2) [of b f w] f show ?thesis
      by (simp add: kinv_def kstart_def starts_def)
  next
    case False
    then have "starts ?w = starts w" using kf queue_kframe(2) [of b f w] by (simp add: starts_def)
    with inv kf queue_kframe(2) [of b f w] f show ?thesis by (simp add: kinv_def kstart_def)
  qed
  ultimately show "kinv ?w" by (simp add: kinv_def)
  show "balanced taken ?w = balanced taken w"
    using kf queue_kframe(3) [of b f w] by (simp add: balanced_def others_def owned_def)
qed

lemma balanced_frame:
  fixes w w' :: "('u, 'z) connector_world_scheme"
  shows "others w' = others w \<Longrightarrow> connector_world.more w' = connector_world.more w \<Longrightarrow> balanced taken w' = balanced taken w"
  by (simp add: balanced_def)

lemma queue_handling: "handlingEvents (queueInLoop b f w) = handlingEvents w"
  by (simp add: queue_defs)

context connector_client
begin

definition act_ok :: "'u connector_act \<Rightarrow> ('u, 'z) connector_world_scheme \<Rightarrow> bool" where
  "act_ok a w \<longleftrightarrow> connector_act_ok a w \<and> ((\<exists>r t e. a = Event r t e) \<longrightarrow> can_take (connector_world.more w))"

definition machine_inv :: "(ptr \<Rightarrow> ('u, 'z) connector_world_scheme \<Rightarrow> bool) \<Rightarrow> ('u, 'z) connector_world_scheme \<Rightarrow> bool" where
  "machine_inv poller_has w \<longleftrightarrow> has_law poller_has \<and> kinv w \<and> \<not> handlingEvents w"

lemma start_machine:
  assumes inv: "kinv w" and idle: "\<not> handlingEvents w" and ok: "connector_act_ok (Start in_loop e) w"
  shows "\<exists>w'. start in_loop e w = Some w' \<and> kinv w' \<and> \<not> handlingEvents w' \<and> (balanced taken w \<longrightarrow> balanced taken w')"
proof -
  let ?w = "w\<lparr>connect_flag := True\<rparr>"
  note w = kinv_flags(1,2) [OF inv refl, where b = True]
  have s: "starts ?w = 0" "cstate ?w = Disconnected" "resets ?w = resets w"
    using startable_0 [OF inv] ok by (simp_all add: starts_def resets_def)
  show ?thesis
  proof (cases in_loop)
    case True
    have "env_ok e ?w" using ok True by (simp add: env_ok_def)
    with startInLoop_kinv [OF w(1) s(2,1)] s(3) ok True obtain w' where
      "startInLoop e ?w = Some w'" "kinv w'" "others w' = others ?w" "handlingEvents w' = handlingEvents ?w"
      "connector_world.more w' = connector_world.more ?w" by auto
    with True idle w(2) balanced_frame [of w' ?w] show ?thesis by (simp add: start_def runInLoop_def)
  next
    case False
    let ?v = "queueInLoop False (Functor StartInLoop) ?w"
    have "kinv ?v" "balanced taken ?v = balanced taken ?w" by (rule kinv_queue [OF w(1)]; simp add: s)+
    moreover have "handlingEvents ?v = handlingEvents w" by (simp add: queue_handling)
    ultimately show ?thesis using False idle w(2) by (simp add: start_def runInLoop_def)
  qed
qed

lemma functor_machine:
  assumes law: "has_law poller_has" and inv: "kinv w" and idle: "\<not> handlingEvents w"
    and ok: "connector_act_ok (RunFunctor e) w"
  shows "\<exists>w'. connector_step new_connection poller_has (RunFunctor e) w = Some w' \<and> kinv w' \<and> \<not> handlingEvents w'
    \<and> (balanced taken w \<longrightarrow> balanced taken w')"
proof -
  obtain f fs where fs: "pendingFunctors w = f # fs" using ok by (auto simp: neq_Nil_conv)
  let ?w = "w\<lparr>pendingFunctors := fs\<rparr>"
  have env: "env_ok e ?w" using ok by (simp add: env_ok_def)
  have idle': "\<not> handlingEvents ?w" using idle by simp
  have bal: "balanced taken ?w = balanced taken w" by (simp add: balanced_def others_def owned_def)
  show ?thesis
  proof (cases "f = Functor ResetChannel")
    case True
    with resetChannel_kinv [OF inv _ idle, of fs poller_has] fs law obtain w' where
      "resetChannel poller_has ?w = Some w'" "kinv w'" "others w' = others w" "handlingEvents w' = handlingEvents w"
      "connector_world.more w' = connector_world.more w" by (auto simp: has_law_def)
    with True fs idle balanced_frame [of w' w] show ?thesis by simp
  next
    case False
    note pop = kinv_pop_base [OF inv fs False]
    consider "f = Functor StartInLoop" | "f = Functor StopInLoop" | "\<And>nc. connector_step nc poller_has (RunFunctor e) w = Some ?w"
    proof (cases f)
      case (Functor cb)
      with fs ok False that show ?thesis by (cases cb) auto
    qed (use fs that in auto)
    then show ?thesis
    proof cases
      case 1
      have h: "cstate ?w = Disconnected" "starts ?w = 0" "resets ?w = 0" using kinv_head_start [OF inv] fs 1 by auto
      from startInLoop_kinv [OF pop h env] obtain w' where
        "startInLoop e ?w = Some w'" "kinv w'" "others w' = others ?w" "handlingEvents w' = handlingEvents ?w"
        "connector_world.more w' = connector_world.more ?w" by blast
      with 1 fs idle bal balanced_frame [of w' ?w] show ?thesis by simp
    next
      case 2
      from stopInLoop_kinv [OF pop env idle'] obtain w' where
        "stopInLoop e ?w = Some w'" "kinv w'" "others w' = others ?w" "handlingEvents w' = handlingEvents ?w"
        "connector_world.more w' = connector_world.more ?w" by blast
      with 2 fs idle bal balanced_frame [of w' ?w] show ?thesis by simp
    next
      case 3
      with pop bal idle show ?thesis by simp
    qed
  qed
qed

lemma fire_machine:
  assumes inv: "kinv w" and idle: "\<not> handlingEvents w" and ok: "connector_act_ok (Fire q e) w"
  shows "\<exists>w'. startInLoop e (w\<lparr>timerQueue := q\<rparr>) = Some w' \<and> kinv w' \<and> \<not> handlingEvents w'
    \<and> (balanced taken w \<longrightarrow> balanced taken w')"
proof -
  let ?w = "w\<lparr>timerQueue := q\<rparr>"
  obtain p where p: "p \<in> retry_timers (timerQueue w)" "retry_timers q = retry_timers (timerQueue w) - {p}"
    and q: "tq_inv {} q" "resets w = 0" "env_ok e ?w" using ok by auto
  note w = kinv_timers(1) [OF inv q(1)] kinv_timers(2) [OF inv q(1), where taken = taken]
  have fin: "finite (retry_timers (timerQueue w))"
    using inv finite_retry_timers by (auto simp: kinv_def kbase_def)
  have "1 \<le> card (retry_timers (timerQueue w))" using card_mono [OF fin, of "{p}"] p(1) by simp
  moreover have st: "starts w \<le> 1" "0 < starts w \<longrightarrow> cstate w = Disconnected" using inv by (simp_all add: kinv_def kstart_def)
  moreover have "card (retry_timers q) = card (retry_timers (timerQueue w)) - 1" using p fin by simp
  ultimately have s: "starts ?w = 0" "cstate ?w = Disconnected" by (auto simp: starts_def)
  have "kinv ?w" "balanced taken ?w = balanced taken w" using w(1,2) p(2) by auto
  moreover have "resets ?w = 0" using q(2) by (simp add: resets_def)
  ultimately obtain w' where
    "startInLoop e ?w = Some w'" "kinv w'" "others w' = others ?w" "handlingEvents w' = handlingEvents ?w"
    "connector_world.more w' = connector_world.more ?w" using startInLoop_kinv [OF _ s(2,1) _ q(3)] by blast
  with idle \<open>balanced taken ?w = balanced taken w\<close> balanced_frame [of w' ?w] show ?thesis by simp
qed

lemma restart_machine:
  assumes inv: "kinv w" and idle: "\<not> handlingEvents w" and ok: "connector_act_ok (Restart e) w"
  shows "\<exists>w'. Connector_restart e w = Some w' \<and> kinv w' \<and> \<not> handlingEvents w' \<and> (balanced taken w \<longrightarrow> balanced taken w')"
proof -
  let ?w = "w\<lparr>cstate := Disconnected, retryDelayMs := kInitRetryDelayMs, connect_flag := True\<rparr>"
  have "kInitRetryDelayMs = backoff 0" by (simp add: kInitRetryDelayMs_def backoff_def kMaxRetryDelayMs_def)
  from kinv_flags(3) [OF inv this, of True taken] startable_0 [OF inv] ok
  have w: "kinv ?w" "balanced taken ?w = balanced taken w" by auto
  have s: "cstate ?w = Disconnected" "starts ?w = 0" "resets ?w = 0" "env_ok e ?w"
    using ok startable_0 [OF inv] by (simp_all add: starts_def resets_def env_ok_def)
  from startInLoop_kinv [OF w(1) s] obtain w' where
    "startInLoop e ?w = Some w'" "kinv w'" "others w' = others ?w" "handlingEvents w' = handlingEvents ?w"
    "connector_world.more w' = connector_world.more ?w" by blast
  with idle w(2) balanced_frame [of w' ?w] show ?thesis
    by (simp add: Connector_restart_def assertInLoopThread_def setState_def Let_def)
qed

lemma connector_step_ok:
  assumes inv: "machine_inv poller_has w" and act: "act_ok a w"
  shows "\<exists>w'. connector_step new_connection poller_has a w = Some w' \<and> machine_inv poller_has w'
    \<and> (balanced taken w \<longrightarrow> balanced taken w')"
proof -
  have i: "has_law poller_has" "kinv w" "\<not> handlingEvents w" using inv by (simp_all add: machine_inv_def)
  have ok: "connector_act_ok a w" using act by (simp add: act_ok_def)
  have "\<exists>w'. connector_step new_connection poller_has a w = Some w' \<and> kinv w' \<and> \<not> handlingEvents w'
    \<and> (balanced taken w \<longrightarrow> balanced taken w')"
  proof (cases a)
    case (Start in_loop e)
    with start_machine [OF i(2,3)] ok show ?thesis by simp
  next
    case (Stop in_loop)
    let ?w = "queueInLoop in_loop (Functor StopInLoop) (w\<lparr>connect_flag := False\<rparr>)"
    note w = kinv_flags(1,2) [OF i(2) refl, where b = False]
    have "kinv ?w" "balanced taken ?w = balanced taken (w\<lparr>connect_flag := False\<rparr>)" by (rule kinv_queue [OF w(1)]; simp)+
    with Stop i(3) w(2) show ?thesis by (simp add: stop_def Let_def queue_handling)
  next
    case (Restart e)
    with restart_machine [OF i(2,3)] ok show ?thesis by simp
  next
    case (RunFunctor e)
    with functor_machine [OF i] ok show ?thesis by simp
  next
    case (Fire q e)
    with fire_machine [OF i(2,3)] ok show ?thesis by simp
  next
    case (OtherTimers q)
    with kinv_timers [OF i(2), of q] i(3) ok show ?thesis by simp
  next
    case (Event r t e)
    with ok act have "cstate w = Connecting" "env_ok e w" "can_take (connector_world.more w)" by (auto simp: act_ok_def)
    from connector_event_kinv [OF i(2) this(1,2) i(3) this(3), of poller_has r t] Event show ?thesis by auto
  qed
  with i(1) show ?thesis by (auto simp: machine_inv_def)
qed

end

sublocale connector_client \<subseteq> machine: safe_machine_with "connector_step new_connection poller_has" act_ok
    "machine_inv poller_has" "balanced taken" for poller_has
  using connector_step_ok by unfold_locales (blast, fastforce)

subsection \<open>Properties\<close>

text \<open>
  A client that only notes which descriptors it is given; its state, the rest of the world, starts as
  the descriptors that were open before.
\<close>

definition hand_over :: "fd \<Rightarrow> ('u, fd set) connector_op" where
  "hand_over f w = Some (connector_world.more_update (insert f) w)"

lemma kinv_cong:
  fixes w w' :: "('u, 'z) connector_world_scheme"
  assumes "cstate w' = cstate w" "cchannel w' = cchannel w" "chans w' = chans w" "channels w' = channels w"
    "interest w' = interest w" "ctl_rets w' = ctl_rets w" "this w' = this w" "pendingFunctors w' = pendingFunctors w"
    "handlingEvents w' = handlingEvents w" "timerQueue w' = timerQueue w" "retryDelayMs w' = retryDelayMs w" "fds w' = fds w"
  shows "kinv w' = kinv w"
  unfolding kinv_def kchan_cong [OF assms(1-3,8,9)] kstart_cong [OF assms(1,8,10)]
  by (simp add: kbase_def linv_cong [OF assms(3-7)] assms)

interpretation recorder: connector_client hand_over "\<lambda>fs. fs" "\<lambda>fs. True"
proof
  fix f and w :: "('u, fd set) connector_world_scheme"
  assume w: "kinv w" "cstate w = Connected" "f \<in> fds w"
  let ?w = "connector_world.more_update (insert f) w"
  have "kinv ?w" using w(1) kinv_cong [of ?w w] by simp
  with w(2) show "\<exists>w'. hand_over f w = Some w' \<and> kinv w' \<and> cstate w' = Connected \<and> cchannel w' = cchannel w
      \<and> cur_revents w' = cur_revents w \<and> handlingEvents w' = handlingEvents w \<and> fds w' = fds w
      \<and> connector_world.more w' = insert f (connector_world.more w)"
    by (simp add: hand_over_def cur_revents_def cong: option.case_cong)
qed

lemma recorder_act_ok: "recorder.act_ok = connector_act_ok"
  by (simp add: recorder.act_ok_def fun_eq_iff)

text \<open>The loop in which a connector may be made.\<close>

definition connector_ready :: "('u, 'z) connector_world_scheme \<Rightarrow> bool" where
  "connector_ready w \<longleftrightarrow> linv {} w \<and> tq_inv {} (timerQueue w) \<and> startable w \<and> resets w = 0 \<and> \<not> handlingEvents w
     \<and> (\<forall>f \<in> fds w. 0 \<le> f) \<and> (\<forall>q c. chans w q = Some c \<longrightarrow> addedToLoop c \<longrightarrow> fd c \<in> fds w)"

lemma reset_first_none: "Functor StartInLoop \<notin> set fs \<Longrightarrow> reset_first fs"
  by (induction fs) auto

lemma Connector_kinv:
  fixes w :: "('u, 'z) connector_world_scheme"
  assumes r: "connector_ready w"
  shows "kinv (Connector server w)" "others (Connector server w) = fds w" "\<not> handlingEvents (Connector server w)"
proof -
  let ?w = "Connector server w"
  have b: "kInitRetryDelayMs = backoff 0" by (simp add: kInitRetryDelayMs_def backoff_def kMaxRetryDelayMs_def)
  have "linv {} ?w" using r linv_cong [of ?w w "{}"] by (simp add: connector_ready_def Connector_def)
  then have "kbase ?w" using r b unfolding kbase_def connector_ready_def by (auto simp: Connector_def)
  moreover have "kchan ?w" using r by (simp add: kchan_def connector_ready_def Connector_def resets_def)
  moreover have "kstart ?w"
    using r starts_0 [of ?w] reset_first_none [of "pendingFunctors w"] by (simp add: kstart_def connector_ready_def Connector_def startable_def)
  ultimately show "kinv ?w" by (simp add: kinv_def)
  show "others ?w = fds w" "\<not> handlingEvents ?w"
    using r by (simp_all add: others_def owned_def connector_ready_def Connector_def)
qed

text \<open>A run of a new connector.\<close>

definition connector_run :: "(ptr \<Rightarrow> ('u, fd set) connector_world_scheme \<Rightarrow> bool) \<Rightarrow> 'u connector_act list \<Rightarrow> bytes
    \<Rightarrow> ('u, fd set) connector_op" where
  "connector_run poller_has acts server w = run (connector_step hand_over poller_has) acts (Connector server w)"

definition connector_run_ok :: "(ptr \<Rightarrow> ('u, fd set) connector_world_scheme \<Rightarrow> bool) \<Rightarrow> 'u connector_act list \<Rightarrow> bytes
    \<Rightarrow> ('u, fd set) connector_world_scheme \<Rightarrow> bool" where
  "connector_run_ok poller_has acts server w =
     run_ok (connector_step hand_over poller_has) connector_act_ok acts (Connector server w)"

lemma connector_run_kinv:
  assumes "has_law poller_has" and "connector_ready w" and "connector_run_ok poller_has acts server w"
  shows "\<exists>w'. connector_run poller_has acts server w = Some w' \<and> kinv w'
    \<and> (connector_world.more w = fds w \<longrightarrow> others w' = connector_world.more w')"
proof -
  have i: "recorder.machine_inv poller_has (Connector server w)"
    using assms(1) Connector_kinv [OF assms(2)] by (simp add: recorder.machine_inv_def)
  from recorder.machine.run_safe [OF i] assms(3) obtain w' where
    w': "connector_run poller_has acts server w = Some w'" "recorder.machine_inv poller_has w'"
    unfolding connector_run_def connector_run_ok_def recorder_act_ok by blast
  have "others w' = connector_world.more w'" if "connector_world.more w = fds w"
  proof -
    have "balanced (\<lambda>fs. fs) (Connector server w)"
      using that Connector_kinv(2) [OF assms(2)] by (simp add: balanced_def Connector_def)
    from recorder.machine.run_also [OF i this] assms(3) w'(1) show ?thesis
      unfolding connector_run_def connector_run_ok_def recorder_act_ok by (simp add: balanced_def)
  qed
  with w' show ?thesis by (auto simp: recorder.machine_inv_def)
qed

lemma current_watched:
  assumes "linv {} w" and "chans w p = Some ch" and "addedToLoop ch" and "events ch \<noteq> kNoneEvent"
  shows "watched w (fd ch) = Some (events ch)"
proof -
  have "chan_ok w p ch" using assms(1,2) pinv_chan by (auto simp: linv_def)
  with assms(3,4) show ?thesis by (auto simp: chan_ok_def watched_def)
qed

text \<open>C25: Calls, functors, timers and events in any order that keeps to the protocol never make a connector
  fail an assertion, use a channel after its deletion or give the poller a channel it does not know.
  While it is connecting, its channel is watched for writing, and only then does it have one that is.\<close>

theorem connector_safe:
  fixes w :: "('u, fd set) connector_world_scheme"
  assumes "has_law poller_has" and "connector_ready w" and "connector_run_ok poller_has acts server w"
  shows "\<exists>w'. connector_run poller_has acts server w = Some w' \<and>
    (case cchannel w' of
       None \<Rightarrow> cstate w' \<noteq> Connecting
     | Some p \<Rightarrow> \<exists>ch. chans w' p = Some ch \<and>
         (if cstate w' = Connecting then watched w' (fd ch) = Some kWriteEvent
          else \<not> addedToLoop ch \<and> Functor ResetChannel \<in> set (pendingFunctors w')))"
proof -
  from connector_run_kinv [OF assms] obtain w' where w': "connector_run poller_has acts server w = Some w'" "kinv w'" by blast
  show ?thesis
  proof (cases "cchannel w'")
    case None
    with w' show ?thesis by (simp add: kinv_def kchan_def)
  next
    case (Some p)
    from kinv_current [OF w'(2) this] obtain ch where ch: "chans w' p = Some ch" "current_ok w' ch" .
    have "watched w' (fd ch) = Some kWriteEvent" if "cstate w' = Connecting"
      using current_watched [OF _ ch(1)] that ch(2) w'(2)
      by (simp add: current_ok_def kinv_def kbase_def event_defs)
    moreover have "\<not> addedToLoop ch \<and> Functor ResetChannel \<in> set (pendingFunctors w')" if "cstate w' \<noteq> Connecting"
      using that ch(2) by (auto simp: current_ok_def resets_def intro: ccontr)
    ultimately show ?thesis using w'(1) Some ch(1) by auto
  qed
qed

text \<open>C26: In such a run every descriptor the connector opens is, at any time, the one it is connecting with,
  handed to its client, or closed again; and it connects with one at a time.\<close>

theorem connector_no_leak:
  fixes w :: "('u, fd set) connector_world_scheme"
  assumes "has_law poller_has" and "connector_ready w" and "connector_run_ok poller_has acts server w"
    and "connector_world.more w = fds w"
  shows "\<exists>w'. connector_run poller_has acts server w = Some w' \<and>
    (if cstate w' = Connecting then \<exists>f. f \<in> fds w' \<and> connector_world.more w' = fds w' - {f}
     else connector_world.more w' = fds w')"
proof -
  from connector_run_kinv [OF assms(1-3)] assms(4) obtain w' where
    w': "connector_run poller_has acts server w = Some w'" "kinv w'" "others w' = connector_world.more w'" by blast
  have "\<exists>f. f \<in> fds w' \<and> connector_world.more w' = fds w' - {f}" if "cstate w' = Connecting"
    using kinv_connecting [OF w'(2) that] w'(3) by (metis others_def)
  moreover have "connector_world.more w' = fds w'" if "cstate w' \<noteq> Connecting"
    using that w'(3) by (simp add: others_def owned_def)
  ultimately show ?thesis using w'(1) by auto
qed

text \<open>C27: The retry after \<open>k\<close> failures in a row closes the descriptor and arms one timer, due exactly
  \<open>min (500 * 2^k) 30000\<close> milliseconds from now in spite of the floating point division, and the next
  delay is that of \<open>k + 1\<close>.\<close>

theorem retry_backoff:
  assumes "tq_inv {} (timerQueue w)" and "env_ok e w" and "connect_flag w"
    and "retryDelayMs w = min (500 * 2 ^ k) 30000"
  shows "\<exists>w'. retry e f w = Some w' \<and> fds w' = fds w - {f} \<and> cstate w' = Disconnected
    \<and> sched (timerQueue w') = (sched (timerQueue w))(sint (s_numCreated (timerQueue w)) + 1 \<mapsto>
        (StartInLoop, Timestamp (microSecondsSinceEpoch (retry_now e) + min (500 * 2 ^ k) 30000 * 1000), 0))
    \<and> retryDelayMs w' = min (500 * 2 ^ (k + 1)) 30000"
proof -
  have b: "backoff j = min (500 * 2 ^ j) 30000" for j by (simp add: backoff_def kMaxRetryDelayMs_def)
  have "retryDelayMs w = backoff k" using assms(4) b by simp
  from retry_ok [OF assms(1,2) this, of f] assms(3) b show ?thesis by (auto simp del: power_Suc)
qed

text \<open>C28: \<open>startInLoop\<close> on every answer of \<open>connect\<close>: it watches the new socket, or arms one retry, or
  closes the socket and gives up; with no descriptor free it gives up at once, silently and for good.\<close>

theorem connect_outcome:
  fixes w :: "('u, 'z) connector_world_scheme"
  assumes inv: "kinv w" and st: "cstate w = Disconnected" "startable w" "resets w = 0" "connect_flag w" and env: "env_ok e w"
    and err: "err = (case connect_result e of Inr _ \<Rightarrow> 0 | Inl errno \<Rightarrow> errno)"
  shows "\<exists>w'. startInLoop e w = Some w' \<and>
    (case free_fd w of
       None \<Rightarrow> w' = w
     | Some f \<Rightarrow>
         if err \<in> {0, EINPROGRESS, EINTR, EISCONN}
         then cstate w' = Connecting \<and> fds w' = insert f (fds w) \<and> watched w' = (watched w)(f \<mapsto> kWriteEvent)
         else cstate w' = Disconnected \<and> fds w' = fds w \<and>
           card (retry_timers (timerQueue w')) =
             (if err \<in> {EAGAIN, EADDRINUSE, EADDRNOTAVAIL, ECONNREFUSED, ENETUNREACH} then 1 else 0))"
proof -
  obtain k where k: "tq_inv {} (timerQueue w)" "retryDelayMs w = backoff k" and base: "kbase w"
    using inv by (auto simp: kinv_def kbase_def)
  have cc: "cchannel w = None"
    using inv st by (auto simp: kinv_def kchan_def current_ok_def split: option.splits)
  have none: "retry_timers (timerQueue w) = {}" using st by (simp add: startable_def)
  have s: "startInLoop e w = connect e w" using st by (simp add: startInLoop_def assertInLoopThread_def)
  show ?thesis
  proof (cases "free_fd w")
    case None
    have "-1 \<notin> fds w" using base by (auto simp: kbase_def)
    with None s show ?thesis
      by (simp add: connect_def createNonblockingOrDie_def sys_socket_def int_result_def sock_connect_def
          sock_close_def sys_close_def connect_errnos)
  next
    case (Some f)
    note f = free_fd_Some [OF Some]
    let ?u = "w\<lparr>fds := insert f (fds w)\<rparr>"
    have c: "connect e w = (if err \<in> {0, EINPROGRESS, EINTR, EISCONN} then connecting e f ?u
        else if err \<in> {EAGAIN, EADDRINUSE, EADDRNOTAVAIL, ECONNREFUSED, ENETUNREACH} then retry e f ?u
        else Some (sock_close f ?u))"
      using Some by (simp add: connect_def createNonblockingOrDie_def sys_socket_def int_result_def sock_connect_def err)
    have linv: "linv {} ?u" using base linv_cong [of ?u w] by (simp add: kbase_def)
    have un: "\<forall>q c. chans ?u q = Some c \<longrightarrow> addedToLoop c \<longrightarrow> fd c \<noteq> f" using free_fd_unwatched [OF base f(1)] by simp
    have wu: "watched ?u = watched w" by (rule watched_cong) simp
    from connecting_ok [OF linv _ _ un, of e] cc env obtain w1 where
      w1: "connecting e f ?u = Some w1" "kframe (?u\<lparr>cstate := Connecting, cchannel := Some (channel_mem e)\<rparr>) w1"
        "watched w1 = (watched w)(f \<mapsto> kWriteEvent)" unfolding wu by (auto simp: env_ok_def)
    have env': "env_ok e ?u" using env by (simp add: env_ok_def)
    have ku: "tq_inv {} (timerQueue ?u)" "retryDelayMs ?u = backoff k" using k by simp_all
    from retry_ok [OF ku(1) env' ku(2), of f] st(4) none f(1) obtain w2 where
      w2: "retry e f ?u = Some w2" "cstate w2 = Disconnected" "fds w2 = fds w" "retry_timers (timerQueue w2) = {timer_mem e}"
      by auto
    obtain b l where w3: "sock_close f ?u = ?u\<lparr>fds := fds ?u - {f}, bound := b, listeners := l\<rparr>"
      using sock_close_eq by blast
    show ?thesis
      using Some s c w1(1,3) kframe_same(1,5) [OF w1(2)] w2 w3 st(1) none f(1) by simp
  qed
qed

subsection \<open>Examples\<close>

definition example_loop :: "nat connector_cb net_world" where
  "example_loop = loop_world.extend (EventLoop 1 16 0)
     \<lparr>fds = {0, 1, 2}, fd_limit = 4, files = {}, busy = {}, bound = Map.empty, listeners = {}, backlog = []\<rparr>"

definition example_connector :: "(nat, fd set) connector_world_scheme" where
  "example_connector = connector_world.extend
     (net_world.extend example_loop (connector_world.fields [2] False Disconnected None 500)) {0, 1, 2}"

definition example_env :: "errno + unit \<Rightarrow> env" where
  "example_env r = \<lparr>connect_result = r, so_error = Inr 0, sockname = Inl 0, peername = Inl 0, retry_now = Timestamp 5,
     retry_clock = Timestamp 6, timer_mem = 5, channel_mem = 9\<rparr>"

definition plain_has :: "ptr \<Rightarrow> (nat, fd set) connector_world_scheme \<Rightarrow> bool" where
  "plain_has p w = (\<exists>ch. chans w p = Some ch \<and> channels w (fd ch) = Some p)"

lemma plain_has_law: "has_law plain_has"
  by (simp add: has_law_def plain_has_def)

lemmas example_connector_defs = example_connector_def example_loop_def net_world.defs loop_world.defs connector_world.defs

lemma example_connector_simps [simp]:
  "fds example_connector = {0, 1, 2}" "fd_limit example_connector = 4" "chans example_connector = Map.empty"
  "timerQueue example_connector = TimerQueue 0" "pendingFunctors example_connector = []" "\<not> handlingEvents example_connector"
  "connector_world.more example_connector = {0, 1, 2}" "cstate example_connector = Disconnected"
  "retryDelayMs example_connector = 500" "cchannel example_connector = None"
  by (simp_all add: example_connector_defs EventLoop_def poll_world.defs EPollPoller_def)

lemma no_retry_timers [simp]: "retry_timers (TimerQueue n) = {}"
  by (simp add: retry_timers_def TimerQueue_def)

lemma example_connector_ready: "connector_ready example_connector"
  using tq_inv_TimerQueue
  by (simp add: connector_ready_def startable_def resets_def linv_def pinv_def)
    (simp add: example_connector_defs EventLoop_def poll_world.defs EPollPoller_def)

lemma example_env_ok: "timerQueue w = TimerQueue 0 \<Longrightarrow> chans w = Map.empty \<Longrightarrow> env_ok (example_env r) w"
  by (simp add: env_ok_def example_env_def TimerQueue_def sane_time_def UINTPTR_MAX_def INT64_MAX_def)

definition example_acts :: "nat connector_act list" where
  "example_acts = [Start True (example_env (Inl EINPROGRESS)), Stop False, Stop True]"

lemma example_acts_ok: "connector_run_ok poller_has example_acts server example_connector"
  using example_env_ok [of "Connector server example_connector" "Inl EINPROGRESS"]
  by (auto simp: connector_run_ok_def example_acts_def startable_def resets_def Connector_def split: option.splits)

theorem connector_safe_witness:
  "\<exists>w'. connector_run plain_has example_acts [2] example_connector = Some w' \<and>
    (case cchannel w' of
       None \<Rightarrow> cstate w' \<noteq> Connecting
     | Some p \<Rightarrow> \<exists>ch. chans w' p = Some ch \<and>
         (if cstate w' = Connecting then watched w' (fd ch) = Some kWriteEvent
          else \<not> addedToLoop ch \<and> Functor ResetChannel \<in> set (pendingFunctors w')))"
  by (rule connector_safe [OF plain_has_law example_connector_ready example_acts_ok])

theorem connector_no_leak_witness:
  "\<exists>w'. connector_run plain_has example_acts [2] example_connector = Some w' \<and>
    (if cstate w' = Connecting then \<exists>f. f \<in> fds w' \<and> connector_world.more w' = fds w' - {f}
     else connector_world.more w' = fds w')"
  by (rule connector_no_leak [OF plain_has_law example_connector_ready example_acts_ok]) simp

theorem retry_backoff_witness:
  "\<exists>w'. retry (example_env (Inr ())) 2 (example_connector\<lparr>connect_flag := True\<rparr>) = Some w' \<and> fds w' = {0, 1}
    \<and> sched (timerQueue w') = (sched (TimerQueue 0))(1 \<mapsto> (StartInLoop, Timestamp 500005, 0)) \<and> retryDelayMs w' = 1000"
proof -
  let ?w = "example_connector\<lparr>connect_flag := True\<rparr>"
  have "tq_inv {} (timerQueue ?w)" using tq_inv_TimerQueue by simp
  moreover have "env_ok (example_env (Inr ())) ?w" by (rule example_env_ok) simp_all
  moreover have "{0, 1, 2} - {2} = {0, 1 :: int}" by auto
  ultimately show ?thesis
    using retry_backoff [of ?w "example_env (Inr ())" 0 2] by (auto simp: example_env_def TimerQueue_def)
qed

theorem connect_outcome_witness:
  "\<exists>w'. startInLoop (example_env (Inl ECONNREFUSED)) (example_connector\<lparr>connect_flag := True\<rparr>) = Some w'
    \<and> cstate w' = Disconnected \<and> fds w' = {0, 1, 2} \<and> card (retry_timers (timerQueue w')) = 1"
proof -
  let ?w = "example_connector\<lparr>connect_flag := True\<rparr>" and ?e = "example_env (Inl ECONNREFUSED)"
  have "Connector [] example_connector = example_connector\<lparr>serverAddr := [], connect_flag := False\<rparr>"
    by (simp add: Connector_def kInitRetryDelayMs_def example_connector_defs)
  then have "kinv (example_connector\<lparr>serverAddr := [], connect_flag := False\<rparr>)"
    using Connector_kinv(1) [OF example_connector_ready, of "[]"] by simp
  then have "kinv ?w" using kinv_cong [of ?w "example_connector\<lparr>serverAddr := [], connect_flag := False\<rparr>"] by simp
  moreover have "env_ok ?e ?w" by (rule example_env_ok) simp_all
  moreover have "free_fd ?w = Some 3" by (simp add: free_fd_def upt_rec)
  ultimately show ?thesis
    using connect_outcome [of ?w ?e ECONNREFUSED]
    by (simp add: startable_def resets_def example_env_def connect_errnos)
qed

end
