(* ===== verification/Descriptors.thy ===== *)
theory Descriptors
  imports Sockets
begin

text \<open>
  Flags of descriptors: \<open>setNonBlockAndCloseOnExec\<close> of \<^verbatim>\<open>SocketOps.c\<close>, which the library uses where the
  kernel has no \<open>accept4\<close>, against the flags given to \<open>socket\<close> and \<open>accept4\<close> elsewhere; and the descriptor
  \<open>createEventfd\<close> of \<^verbatim>\<open>EventLoop.c\<close>. \<open>fcntl\<close> is as Linux documents it: \<open>F_SETFL\<close> changes the bits of
  \<open>SETFL_MASK\<close> only, \<open>F_SETFD\<close> the bit \<open>FD_CLOEXEC\<close>, and both fail on a descriptor that is not open.
\<close>

unbundle bit_operations_syntax

definition O_RDWR :: "32 word" where "O_RDWR = 2"
definition O_NONBLOCK :: "32 word" where "O_NONBLOCK = 0x800"
definition SETFL_MASK :: "32 word" where "SETFL_MASK = 0x46C00"
definition FD_CLOEXEC :: "32 word" where "FD_CLOEXEC = 1"

lemmas fd_flag_defs = O_RDWR_def O_NONBLOCK_def SETFL_MASK_def FD_CLOEXEC_def

text \<open>The status flags and the descriptor flags of the open descriptors.\<close>

type_synonym fd_flags = "fd \<Rightarrow> (32 word \<times> 32 word) option"

definition F_GETFL :: "fd \<Rightarrow> fd_flags \<Rightarrow> 32 word" where
  "F_GETFL f t = (case t f of None \<Rightarrow> -1 | Some (fl, d) \<Rightarrow> fl)"

definition F_SETFL :: "fd \<Rightarrow> 32 word \<Rightarrow> fd_flags \<Rightarrow> fd_flags" where
  "F_SETFL f v t = (case t f of None \<Rightarrow> t
     | Some (fl, d) \<Rightarrow> t(f \<mapsto> (fl AND NOT SETFL_MASK OR v AND SETFL_MASK, d)))"

definition F_GETFD :: "fd \<Rightarrow> fd_flags \<Rightarrow> 32 word" where
  "F_GETFD f t = (case t f of None \<Rightarrow> -1 | Some (fl, d) \<Rightarrow> d)"

definition F_SETFD :: "fd \<Rightarrow> 32 word \<Rightarrow> fd_flags \<Rightarrow> fd_flags" where
  "F_SETFD f v t = (case t f of None \<Rightarrow> t | Some (fl, d) \<Rightarrow> t(f \<mapsto> (fl, v AND FD_CLOEXEC)))"

definition setNonBlockAndCloseOnExec :: "fd \<Rightarrow> fd_flags \<Rightarrow> fd_flags" where
  "setNonBlockAndCloseOnExec sockfd t =
     (let flags = F_GETFL sockfd t;
          flags = flags OR O_NONBLOCK;
          t = F_SETFL sockfd flags t;
          flags = F_GETFD sockfd t;
          flags = flags OR FD_CLOEXEC
      in F_SETFD sockfd flags t)"

text \<open>The two variants of the flags of a new socket, by the macro \<open>VALGRIND\<close>; \<open>f\<close> is what the kernel returned.\<close>

definition new_socket_flags :: "bool \<Rightarrow> fd \<Rightarrow> fd_flags \<Rightarrow> fd_flags" where
  "new_socket_flags valgrind f t =
     (if valgrind then setNonBlockAndCloseOnExec f (if 0 \<le> f then t(f \<mapsto> (O_RDWR, 0)) else t)
      else if 0 \<le> f then t(f \<mapsto> (O_RDWR OR O_NONBLOCK, FD_CLOEXEC)) else t)"

text \<open>The call adds the two bits, changes no other flag and no other descriptor, and does nothing to a
  descriptor that is not open.\<close>

lemma setNonBlock_exact:
  "setNonBlockAndCloseOnExec f t = (case t f of None \<Rightarrow> t | Some (fl, d) \<Rightarrow> t(f \<mapsto> (fl OR O_NONBLOCK, FD_CLOEXEC)))"
proof (cases "t f")
  case (Some x)
  obtain fl d where x: "x = (fl, d)" by fastforce
  have "fl AND NOT SETFL_MASK OR (fl OR O_NONBLOCK) AND SETFL_MASK = fl OR O_NONBLOCK"
  proof (rule bit_word_eqI)
    fix n :: nat assume "n < LENGTH(32)"
    moreover have "O_NONBLOCK AND SETFL_MASK = O_NONBLOCK" by (simp add: fd_flag_defs)
    then have "bit O_NONBLOCK n \<longrightarrow> bit SETFL_MASK n" by (metis bit_and_iff)
    ultimately show "bit (fl AND NOT SETFL_MASK OR (fl OR O_NONBLOCK) AND SETFL_MASK) n = bit (fl OR O_NONBLOCK) n"
      by (auto simp: bit_simps)
  qed
  moreover have "(d OR FD_CLOEXEC) AND FD_CLOEXEC = FD_CLOEXEC" by (simp add: bit.conj_disj_distrib2)
  ultimately show ?thesis
    using Some x by (simp add: setNonBlockAndCloseOnExec_def F_GETFL_def F_SETFL_def F_GETFD_def F_SETFD_def Let_def)
qed (simp add: setNonBlockAndCloseOnExec_def F_GETFL_def F_SETFL_def F_GETFD_def F_SETFD_def Let_def)

text \<open>Both variants leave a new socket with the same flags, and a failed \<open>socket\<close> without consequence.\<close>

theorem socket_flags_agree:
  assumes "\<forall>f < 0. t f = None"
  shows "new_socket_flags True f t = new_socket_flags False f t"
  using assms by (simp add: new_socket_flags_def setNonBlock_exact)

theorem socket_flags_agree_witness:
  "new_socket_flags True 3 Map.empty = [3 \<mapsto> (0x802, 1)] \<and> new_socket_flags True (- 1) Map.empty = Map.empty"
  using socket_flags_agree [of Map.empty 3] socket_flags_agree [of Map.empty "- 1"]
  by (simp add: new_socket_flags_def fd_flag_defs)

subsection \<open>\<open>createEventfd\<close>\<close>

text \<open>A failure aborts the process.\<close>

definition createEventfd :: "errno + fd \<Rightarrow> fd option" where
  "createEventfd r = (let evtfd = int_result r in do { chk (\<not> evtfd < 0); Some evtfd })"

end
