(* ===== verification/Lives.thy ===== *)
theory Lives
  imports Connections
begin

text \<open>
  What a server or a client needs to know of a connection: its life, from \<open>connectEstablished\<close> to
  \<open>connectDestroyed\<close>, and the proof that the connections of \<^verbatim>\<open>TcpConnection.c\<close> live like that.
\<close>

subsection \<open>The life of a connection\<close>

text \<open>Its state, and whether its channel is registered with its loop.\<close>

type_synonym life = "StateE \<times> bool"

fun life_established :: "life \<Rightarrow> life option" where
  "life_established (st, reg) = do { chk (st = kConnecting); Some (kConnected, True) }"

fun life_closed :: "life \<Rightarrow> life option" where
  "life_closed (st, reg) = do { chk (st = kConnected \<or> st = kDisconnecting); Some (kDisconnected, reg) }"

text \<open>\<open>Channel::remove\<close> asserts that the channel waits for nothing, and the loop that it knows it.\<close>

fun life_destroyed :: "life \<Rightarrow> life option" where
  "life_destroyed (st, reg) =
     do { let st = (if st = kConnected then kDisconnected else st);
          chk (st = kDisconnected \<and> reg);
          Some (st, False) }"

fun life_shutdown :: "life \<Rightarrow> life option" where
  "life_shutdown (st, reg) = Some (kDisconnecting, reg)"

subsection \<open>Connections live like that\<close>

definition life_of :: "('b, 'u) conn_world \<Rightarrow> life" where
  "life_of w = (state w, case chans w (channel w) of None \<Rightarrow> False | Some ch \<Rightarrow> addedToLoop ch)"

text \<open>A user whose callbacks do nothing to the connection.\<close>

abbreviation idle :: "'b buffer_ops \<Rightarrow> 'u \<Rightarrow> ('b, 'u) conn_op" where
  "idle B \<equiv> conn_script B (\<lambda>u w. [])"

lemma call_idle: "call_user (idle B) c w = (case c of None \<Rightarrow> None | Some u \<Rightarrow> Some w)"
  by (simp add: call_user_def conn_script_def split: option.splits)

lemma life_of_cinv: "cinv B w \<Longrightarrow> life_of w = (state w, True) \<and> state w \<noteq> kConnecting"
  by (auto simp: life_of_def cinv_def conn_ok_def conn_static_def)

lemma destroyed_disconnecting:
  assumes inv: "cinv B w" and st: "state w = kDisconnecting"
  shows "do { v \<leftarrow> connectDestroyed run_user w; TcpConnection_dtor v } = None"
proof (cases "connectDestroyed run_user w")
  case (Some v)
  then have "remove_channel removeChannel (channel w) w = Some v" using st by (simp add: connectDestroyed_def)
  then have "poller_update w v"
    by (auto simp: remove_channel_def bind_eq_Some_conv
        dest!: poller_update_remove poller_update_modify elim: poller_update_trans)
  then have "state v = kDisconnecting" using st by (simp add: poller_update_frame)
  with Some show ?thesis by (simp add: TcpConnection_dtor_def)
qed simp

lemma destroyed_connected:
  assumes inv: "cinv B w" and st: "state w = kConnected" and idl: "\<not> handlingEvents w"
  shows "\<exists>v. connectDestroyed (idle B) w = Some v \<and> life_of v = (kDisconnected, False)"
proof -
  from inv obtain ch where ch: "linv {} w" "fd_owner (channel w) w" "chans w (channel w) = Some ch" "conn_ok B w ch"
    by (rule cinvE)
  let ?u = "setState kDisconnected w"
  have "linv {} ?u" using ch(1) linv_cong [of ?u w] by (simp add: setState_def)
  moreover have "chans ?u (channel w) = Some ch" using ch(3) by (simp add: setState_def)
  moreover have "fd_owner (channel w) ?u" using ch(2) by (simp add: fd_owner_def setState_def)
  moreover have "removable (channel w) ?u" using idl by (simp add: removable_def setState_def)
  ultimately obtain x v i where v: "disableAll updateChannel (channel w) ?u = Some x"
      "remove_channel removeChannel (channel w) x = Some v" "poller_update ?u x" "poller_update ?u v"
      "chans v = (chans ?u)(channel w \<mapsto> ch\<lparr>events := kNoneEvent, addedToLoop := False, index := i\<rparr>)"
    using take_out_ok by blast
  note fx = poller_update_frame [OF v(3)] and fv = poller_update_frame [OF v(4)]
  have "connectionCallback w \<noteq> None" using conn_okD(1) [OF ch(4)] by (simp add: conn_static_def)
  then have "connectDestroyed (idle B) w = Some v"
    using st v(1,2) fx by (auto simp: connectDestroyed_def call_idle setState_def)
  moreover have "life_of v = (kDisconnected, False)" using v(5) fv by (simp add: life_of_def setState_def)
  ultimately show ?thesis by blast
qed

lemma established_refines:
  assumes rdy: "ready B w"
  shows "map_option life_of (connectEstablished (idle B) w) = life_established (life_of w)"
proof -
  obtain v where v: "connectEstablished (idle B) w = call_user (idle B) (connectionCallback v) v" "cinv B v" "state v = kConnected"
    using scripted_user.connectEstablished_eq [OF rdy] by blast
  have "connectionCallback v \<noteq> None" using v(2) by (auto simp: cinv_def conn_ok_def conn_static_def)
  then have "connectEstablished (idle B) w = Some v" using v(1) by (auto simp: call_idle)
  moreover have "life_of v = (kConnected, True)" using life_of_cinv [OF v(2)] v(3) by simp
  moreover have "state w = kConnecting" using rdy by (simp add: ready_def)
  ultimately show ?thesis by (simp add: life_of_def [of w])
qed

lemma closed_refines:
  assumes laws: "buffer_laws B" and inv: "cinv B w"
  shows "map_option life_of (handleClose (idle B) w) = life_closed (life_of w)"
proof (cases "live w")
  case True
  from scripted_user.handleClose_ok [OF laws inv True, of "\<lambda>u w. []"] obtain v where
    v: "handleClose (idle B) w = Some v" "cstep B w v" "state v = kDisconnected" by blast
  have "life_of v = (kDisconnected, True)" using life_of_cinv [OF cstep_cinv [OF v(2)]] v(3) by simp
  with v(1) life_of_cinv [OF inv] True show ?thesis by (auto simp: live_def)
next
  case False
  with life_of_cinv [OF inv] show ?thesis by (auto simp: live_def handleClose_def)
qed

lemma destroyed_refines:
  assumes inv: "cinv B w" and idl: "\<not> handlingEvents w"
  shows "map_option life_of (do { v \<leftarrow> connectDestroyed (idle B) w; TcpConnection_dtor v }) = life_destroyed (life_of w)"
proof -
  have l: "life_of w = (state w, True)" "state w \<noteq> kConnecting" using life_of_cinv [OF inv] by simp_all
  have ?thesis if v: "connectDestroyed (idle B) w = Some v" "life_of v = (kDisconnected, False)"
    and "state w \<in> {kDisconnected, kConnected}" for v
  proof -
    have "state v = kDisconnected" using v(2) by (simp add: life_of_def)
    then have "TcpConnection_dtor v = Some v" by (simp add: TcpConnection_dtor_def)
    with that l show ?thesis by auto
  qed
  moreover have "\<exists>v. connectDestroyed (idle B) w = Some v \<and> life_of v = (kDisconnected, False)" if "state w = kDisconnected"
    using scripted_user.connectDestroyed_down [OF inv that idl, of "\<lambda>u w. []"] by (auto simp: life_of_def)
  moreover note destroyed_connected [OF inv _ idl]
  moreover have ?thesis if "state w = kDisconnecting"
    using destroyed_disconnecting [OF inv that] l(1) that by simp
  ultimately show ?thesis using l(2) by (cases "state w") blast+
qed



end
