(* ===== verification/Mutexes.thy ===== *)
theory Mutexes
  imports Atomics
begin

text \<open>
  \<^verbatim>\<open>Mutex.h\<close>, \<^verbatim>\<open>Condition.h\<close> and \<^verbatim>\<open>Condition.c\<close>: a mutex that remembers which thread holds it, and a
  condition variable. The pthread mutex is its owner; a thread that has to wait for it makes no step.
  Threads are their (positive) thread ids.
\<close>

subsection \<open>MutexLock\<close>

type_synonym tid = int

record mutex =
  pmutex :: "tid option"
  holder :: tid

definition MutexLock :: mutex where
  "MutexLock = \<lparr>pmutex = None, holder = 0\<rparr>"

definition MutexLock_dtor :: "mutex \<Rightarrow> unit option" where
  "MutexLock_dtor m = chk (holder m = 0)"

definition isLockedByThisThread :: "tid \<Rightarrow> mutex \<Rightarrow> bool" where
  "isLockedByThisThread t m \<longleftrightarrow> holder m = t"

definition assertLocked :: "tid \<Rightarrow> mutex \<Rightarrow> unit option" where
  "assertLocked t m = chk (isLockedByThisThread t m)"

definition assignHolder :: "tid \<Rightarrow> mutex \<Rightarrow> mutex" where
  "assignHolder t m = m\<lparr>holder := t\<rparr>"

definition unassignHolder :: "mutex \<Rightarrow> mutex" where
  "unassignHolder m = m\<lparr>holder := 0\<rparr>"

definition pthread_lock :: "tid \<Rightarrow> mutex \<Rightarrow> mutex option" where
  "pthread_lock t m = (if pmutex m = None then Some (m\<lparr>pmutex := Some t\<rparr>) else None)"

definition pthread_unlock :: "mutex \<Rightarrow> mutex" where
  "pthread_unlock m = m\<lparr>pmutex := None\<rparr>"

lemmas mutex_defs = MutexLock_def assignHolder_def unassignHolder_def pthread_lock_def pthread_unlock_def
  isLockedByThisThread_def MutexLock_dtor_def assertLocked_def

subsection \<open>Threads that use one mutex and one condition variable\<close>

text \<open>
  Where a thread stands in \<open>lock\<close>, in the critical section, in \<open>unlock\<close>, or in \<open>Condition::wait\<close>, whose
  \<open>UnassignGuard\<close> clears \<open>holder_\<close> before the wait and sets it after.
\<close>

datatype position = Outside | Acquired | Inside | Releasing | Unassigned | Waiting | Woken | Reacquired

record mutex_system =
  mtx :: mutex
  pc :: "tid \<Rightarrow> position"

definition moves :: "tid \<Rightarrow> position \<Rightarrow> mutex \<Rightarrow> mutex_system \<Rightarrow> mutex_system" where
  "moves t a m s = s\<lparr>mtx := m, pc := (pc s)(t := a)\<rparr>"

inductive mutex_step :: "mutex_system \<Rightarrow> mutex_system \<Rightarrow> bool" where
  lock_mutex: "pc s t = Outside \<Longrightarrow> 0 < t \<Longrightarrow> pthread_lock t (mtx s) = Some m \<Longrightarrow> mutex_step s (moves t Acquired m s)"
| lock_assign: "pc s t = Acquired \<Longrightarrow> mutex_step s (moves t Inside (assignHolder t (mtx s)) s)"
| unlock_unassign: "pc s t = Inside \<Longrightarrow> mutex_step s (moves t Releasing (unassignHolder (mtx s)) s)"
| unlock_mutex: "pc s t = Releasing \<Longrightarrow> mutex_step s (moves t Outside (pthread_unlock (mtx s)) s)"
| wait_unassign: "pc s t = Inside \<Longrightarrow> mutex_step s (moves t Unassigned (unassignHolder (mtx s)) s)"
| wait_sleep: "pc s t = Unassigned \<Longrightarrow> mutex_step s (moves t Waiting (pthread_unlock (mtx s)) s)"
| wait_wakes: "pc s t = Waiting \<Longrightarrow> mutex_step s (moves t Woken (mtx s) s)"
| wait_mutex: "pc s t = Woken \<Longrightarrow> pthread_lock t (mtx s) = Some m \<Longrightarrow> mutex_step s (moves t Reacquired m s)"
| wait_assign: "pc s t = Reacquired \<Longrightarrow> mutex_step s (moves t Inside (assignHolder t (mtx s)) s)"

definition mutex_init :: "mutex_system \<Rightarrow> bool" where
  "mutex_init s \<longleftrightarrow> mtx s = MutexLock \<and> pc s = (\<lambda>t. Outside)"

definition owning :: "position \<Rightarrow> bool" where
  "owning a \<longleftrightarrow> a \<in> {Acquired, Inside, Releasing, Unassigned, Reacquired}"

definition mutex_inv :: "mutex_system \<Rightarrow> bool" where
  "mutex_inv s \<longleftrightarrow> (\<forall>t. owning (pc s t) \<longleftrightarrow> pmutex (mtx s) = Some t) \<and> (\<forall>t. pc s t \<noteq> Outside \<longrightarrow> 0 < t)
     \<and> holder (mtx s) = (case pmutex (mtx s) of None \<Rightarrow> 0 | Some t \<Rightarrow> if pc s t = Inside then t else 0)"

lemma owning_simps [simp]: "owning Acquired" "owning Inside" "owning Releasing" "owning Unassigned" "owning Reacquired"
  "\<not> owning Outside" "\<not> owning Waiting" "\<not> owning Woken"
  by (simp_all add: owning_def)

lemma mutex_owner: "mutex_inv s \<Longrightarrow> owning (pc s t) \<Longrightarrow> pmutex (mtx s) = Some t"
  by (simp add: mutex_inv_def)

lemma mutex_inv_step:
  assumes inv: "mutex_inv s" and step: "mutex_step s s'"
  shows "mutex_inv s'"
  using step
proof cases
  case (lock_mutex t m)
  with inv show ?thesis by (auto simp: mutex_inv_def moves_def mutex_defs split: if_splits)
next
  case (wait_mutex t m)
  with inv show ?thesis by (auto simp: mutex_inv_def moves_def mutex_defs split: if_splits)
next
  case (lock_assign t)
  with mutex_owner [OF inv, of t] inv show ?thesis by (auto simp: mutex_inv_def moves_def mutex_defs)
next
  case (unlock_unassign t)
  with mutex_owner [OF inv, of t] inv show ?thesis by (auto simp: mutex_inv_def moves_def mutex_defs)
next
  case (unlock_mutex t)
  with mutex_owner [OF inv, of t] inv show ?thesis by (auto simp: mutex_inv_def moves_def mutex_defs)
next
  case (wait_unassign t)
  with mutex_owner [OF inv, of t] inv show ?thesis by (auto simp: mutex_inv_def moves_def mutex_defs)
next
  case (wait_sleep t)
  with mutex_owner [OF inv, of t] inv show ?thesis by (auto simp: mutex_inv_def moves_def mutex_defs)
next
  case (wait_wakes t)
  then have "\<not> owning (pc s t)" by simp
  then have "pmutex (mtx s) \<noteq> Some t" using inv by (simp add: mutex_inv_def)
  with wait_wakes inv show ?thesis by (auto simp: mutex_inv_def moves_def split: option.splits)
next
  case (wait_assign t)
  with mutex_owner [OF inv, of t] inv show ?thesis by (auto simp: mutex_inv_def moves_def mutex_defs)
qed

interpretation mutexes: step_invariant mutex_step mutex_init mutex_inv
proof
  show "mutex_init s \<Longrightarrow> mutex_inv s" for s by (simp add: mutex_init_def mutex_inv_def mutex_defs)
qed (rule mutex_inv_step)

text \<open>C29: However threads that lock, unlock and wait are interleaved, at most one of them is in the critical
  section, \<open>isLockedByThisThread\<close> tells each thread the truth about itself, and a mutex that nobody is
  in the middle of using passes the assertion of its destructor.\<close>

theorem holder_exact:
  assumes "mutex_init s" and "mutex_step\<^sup>*\<^sup>* s s'"
  shows "(\<forall>t. 0 < t \<longrightarrow> isLockedByThisThread t (mtx s') = (pc s' t = Inside))
    \<and> (\<forall>t u. pc s' t = Inside \<longrightarrow> pc s' u = Inside \<longrightarrow> t = u)
    \<and> ((\<forall>t. pc s' t \<in> {Outside, Waiting, Woken}) \<longrightarrow> MutexLock_dtor (mtx s') = Some ())"
proof -
  have inv: "mutex_inv s'" by (rule mutexes.reach_inv [OF assms])
  have "isLockedByThisThread t (mtx s') = (pc s' t = Inside)" if "0 < t" for t
  proof (cases "pmutex (mtx s') = Some t")
    case True
    with inv that show ?thesis by (simp add: mutex_inv_def isLockedByThisThread_def)
  next
    case False
    then have "pc s' t \<noteq> Inside" using mutex_owner [OF inv, of t] by auto
    moreover have "holder (mtx s') \<noteq> t" using inv that False by (auto simp: mutex_inv_def split: option.splits if_splits)
    ultimately show ?thesis by (simp add: isLockedByThisThread_def)
  qed
  moreover have "t = u" if "pc s' t = Inside" "pc s' u = Inside" for t u
    using mutex_owner [OF inv, of t] mutex_owner [OF inv, of u] that by simp
  moreover have "MutexLock_dtor (mtx s') = Some ()" if "\<forall>t. pc s' t \<in> {Outside, Waiting, Woken}"
  proof -
    have "\<not> owning (pc s' t)" for t using spec [OF that, of t] by (auto simp: owning_def)
    then have "pmutex (mtx s') = None" using inv by (auto simp: mutex_inv_def)
    with inv show ?thesis by (simp add: mutex_inv_def MutexLock_dtor_def)
  qed
  ultimately show ?thesis by blast
qed

theorem holder_exact_witness:
  "\<exists>s'. mutex_step\<^sup>*\<^sup>* \<lparr>mtx = MutexLock, pc = \<lambda>t. Outside\<rparr> s' \<and> pc s' 7 = Inside \<and> isLockedByThisThread 7 (mtx s')
    \<and> \<not> isLockedByThisThread 8 (mtx s')"
proof -
  let ?s = "\<lparr>mtx = MutexLock, pc = \<lambda>t. Outside\<rparr>"
  obtain m where m: "pthread_lock 7 MutexLock = Some m" by (simp add: mutex_defs)
  let ?s1 = "moves 7 Acquired m ?s" and ?s2 = "moves 7 Inside (assignHolder 7 m) (moves 7 Acquired m ?s)"
  have "mutex_step ?s ?s1" using m by (intro mutex_step.lock_mutex) simp_all
  moreover have "mutex_step ?s1 ?s2"
    using mutex_step.lock_assign [of ?s1 7] by (simp add: moves_def)
  ultimately have r: "mutex_step\<^sup>*\<^sup>* ?s ?s2" by simp
  have "pc ?s2 7 = Inside" "pc ?s2 8 \<noteq> Inside" by (simp_all add: moves_def)
  with holder_exact [OF _ r] r show ?thesis by (fastforce simp: mutex_init_def)
qed

subsection \<open>Condition::waitForSeconds\<close>

definition kNanoSecondsPerSecond :: int where "kNanoSecondsPerSecond = 1000000000"

definition ETIMEDOUT :: errno where "ETIMEDOUT = 110"

text \<open>The deadline, from what \<open>clock_gettime\<close> returned (seconds and nanoseconds).\<close>

definition wait_deadline :: "int \<times> int \<Rightarrow> double \<Rightarrow> (int \<times> int) option" where
  "wait_deadline now seconds =
     do { let (tv_sec, tv_nsec) = now;
          nanoseconds \<leftarrow> double_to_i64 (dmul seconds (of_int kNanoSecondsPerSecond));
          total \<leftarrow> i64 (tv_nsec + nanoseconds);
          tv_sec \<leftarrow> i64 (tv_sec + total sdiv kNanoSecondsPerSecond);
          Some (tv_sec, total smod kNanoSecondsPerSecond) }"

definition waitForSeconds :: "(int \<times> int \<Rightarrow> errno) \<Rightarrow> int \<times> int \<Rightarrow> double \<Rightarrow> bool option" where
  "waitForSeconds timedwait now seconds =
     do { abstime \<leftarrow> wait_deadline now seconds; Some (ETIMEDOUT = timedwait abstime) }"

text \<open>
  The deadline is exactly the given number of nanoseconds from now. It is a valid \<open>timespec\<close> when the
  time to wait is not negative; else its nanoseconds may be negative.
\<close>

theorem wait_deadline_exact:
  assumes now: "0 \<le> n" "n < kNanoSecondsPerSecond" "\<bar>s\<bar> < 2 ^ 61"
    and ns: "double_to_i64 (dmul seconds (of_int kNanoSecondsPerSecond)) = Some ns" "ns < 2 ^ 62"
  shows "\<exists>s' n'. wait_deadline (s, n) seconds = Some (s', n')
    \<and> s' * kNanoSecondsPerSecond + n' = s * kNanoSecondsPerSecond + n + ns
    \<and> (0 \<le> n' \<and> n' < kNanoSecondsPerSecond \<longleftrightarrow> 0 \<le> n + ns \<or> kNanoSecondsPerSecond dvd n + ns)"
proof -
  let ?k = "kNanoSecondsPerSecond" and ?t = "n + ns"
  have k: "?k = 1000000000" by (simp add: kNanoSecondsPerSecond_def)
  have "in_int64 ns" using ns(1) by (simp add: double_to_i64_def)
  then have t: "in_int64 ?t" "- (2 ^ 63) \<le> ?t" "?t < 2 ^ 63" using now(1,2) ns(2) unfolding int64_defs k by simp_all
  define q r where "q = ?t sdiv ?k" and "r = ?t smod ?k"
  have eq: "q * ?k + r = ?t" unfolding q_def r_def by (rule sdiv_mult_smod_eq)
  have r: "- ?k < r" "r < ?k" using smod_int_range [where a = ?t and b = ?k] unfolding r_def k by auto
  have q: "\<bar>q\<bar> < 2 ^ 62" using eq r t(2,3) unfolding k by simp
  then have "in_int64 (s + q)" using now(3) unfolding int64_defs abs_less_iff by simp
  then have "wait_deadline (s, n) seconds = Some (s + q, r)"
    using ns(1) t(1) by (simp add: wait_deadline_def q_def r_def)
  moreover have "(s + q) * ?k + r = s * ?k + n + ns" using eq by (simp add: algebra_simps)
  moreover have "0 \<le> r \<longleftrightarrow> 0 \<le> ?t \<or> ?k dvd ?t"
  proof (cases "0 \<le> ?t")
    case True
    then show ?thesis using smod_int_compares(2) [of ?t ?k] unfolding r_def k by simp
  next
    case False
    then have "r \<le> 0" using smod_int_compares(4) [of ?t ?k] unfolding r_def k by simp
    moreover have "r = 0 \<longleftrightarrow> ?k dvd ?t"
    proof
      assume "r = 0"
      then have "?t = ?k * q" using eq by (simp add: mult.commute)
      then show "?k dvd ?t" by (rule dvdI)
    next
      assume "?k dvd ?t"
      then have "?k dvd r" using eq by (metis dvd_add_right_iff dvd_triv_right)
      then have "?k dvd - r" by simp
      with r(1) \<open>r \<le> 0\<close> show "r = 0" using zdvd_not_zless [of "- r" ?k] by force
    qed
    ultimately show ?thesis using False by auto
  qed
  ultimately show ?thesis using r(2) by blast
qed

theorem wait_deadline_exact_witness:
  "wait_deadline (5, 999999999) (1 / 2) = Some (6, 499999999) \<and> wait_deadline (5, 0) (- (1 / 2)) = Some (5, -500000000)"
proof -
  have d: "dmul (1 / 2) 1000000000 = 500000000" "dmul (- (1 / 2)) 1000000000 = - 500000000"
    by code_simp+
  show ?thesis by (simp add: wait_deadline_def d double_to_i64_def int64_defs kNanoSecondsPerSecond_def
        signed_divide_int_def signed_modulo_int_def)
qed

end
