(* ===== verification/Threads.thy ===== *)
theory Threads
  imports Mutexes
begin

text \<open>
  \<^verbatim>\<open>Thread.h\<close> and \<^verbatim>\<open>Thread.c\<close>: a thread with its name, its start, which waits until the new thread has
  told its id, and the rule that a pthread is joined or detached once. \<^verbatim>\<open>CountDownLatch.c\<close> and
  \<^verbatim>\<open>CurrentThread.h\<close> are not in the repository: a latch is its count, and \<open>wait\<close> returns only when it is
  zero; \<open>gettid\<close> is a parameter.
\<close>

subsection \<open>Names\<close>

definition setDefaultName :: "string \<Rightarrow> 32 word \<Rightarrow> string \<times> 32 word" where
  "setDefaultName th_name numCreated =
     (let (num, numCreated) = incrementAndGet numCreated
      in if th_name = [] then (snprintf 32 (''Thread'' @ fmt_d (sint num)), numCreated) else (th_name, numCreated))"

fun default_names :: "nat \<Rightarrow> 32 word \<Rightarrow> string list" where
  "default_names 0 numCreated = []"
| "default_names (Suc n) numCreated =
     (let (name, numCreated) = setDefaultName [] numCreated in name # default_names n numCreated)"

lemma length_fmt_d_int32: "- (2 ^ 31) \<le> v \<Longrightarrow> v < 2 ^ 31 \<Longrightarrow> length (fmt_d v) \<le> 11"
proof -
  assume a: "- (2 ^ 31) \<le> v" "v < 2 ^ 31"
  have "length (dec (nat (- v))) \<le> 10" "length (dec (nat v)) \<le> 10"
    using a by (intro length_dec_le; simp)+
  then show ?thesis by (simp add: fmt_d_def)
qed

lemma default_name_fits: "snprintf 32 (''Thread'' @ fmt_d (sint (v :: 32 word))) = ''Thread'' @ fmt_d (sint v)"
proof -
  have "length (fmt_d (sint v)) \<le> 11"
    using sint_ge [of v] sint_lt [of v] by (intro length_fmt_d_int32) simp_all
  then show ?thesis by (simp add: snprintf_def)
qed

lemma default_names_eq: "default_names n v = map (\<lambda>t. ''Thread'' @ fmt_d (sint t)) (tickets n v)"
proof (induction n arbitrary: v)
  case (Suc n)
  then show ?case
    by (simp add: setDefaultName_def incrementAndGet_eq default_name_fits del: append_Cons)
qed simp

lemma distinct_tickets:
  fixes v :: "'a::len word"
  assumes "n \<le> 2 ^ LENGTH('a)"
  shows "distinct (tickets n v)"
  using incrementAndGet_distinct [OF assms] by blast

text \<open>The default names of threads are whole and distinct, until the counter has gone round.\<close>

theorem default_names_distinct:
  assumes "n \<le> 2 ^ 32"
  shows "distinct (default_names n v) \<and> (\<forall>s \<in> set (default_names n v). \<exists>num :: 32 word. s = ''Thread'' @ fmt_d (sint num))"
proof -
  have "inj (\<lambda>t :: 32 word. ''Thread'' @ fmt_d (sint t))"
  proof (rule injI)
    fix x y :: "32 word"
    assume "''Thread'' @ fmt_d (sint x) = ''Thread'' @ fmt_d (sint y)"
    then have "sint x = sint y" using injD [OF inj_fmt_d] by simp
    then show "x = y" by (rule signed_word_eqI)
  qed
  then have "inj_on (\<lambda>t :: 32 word. ''Thread'' @ fmt_d (sint t)) (set (tickets n v))"
    by (rule inj_on_subset) simp
  with distinct_tickets [of n v] assms show ?thesis by (auto simp: default_names_eq distinct_map)
qed

subsection \<open>CurrentThread\<close>

record current_thread =
  t_cachedTid :: tid
  t_threadName :: string

definition cacheTid :: "tid \<Rightarrow> current_thread \<Rightarrow> current_thread" where
  "cacheTid gettid c = (if t_cachedTid c = 0 then c\<lparr>t_cachedTid := gettid\<rparr> else c)"

definition afterFork :: "tid \<Rightarrow> current_thread \<Rightarrow> current_thread" where
  "afterFork gettid c = (let c = c\<lparr>t_cachedTid := 0\<rparr>; c = c\<lparr>t_threadName := ''main''\<rparr> in cacheTid gettid c)"

text \<open>The thread-local variables of a new thread; and the static object that names the main thread and
  registers \<open>afterFork\<close> with \<open>pthread_atfork\<close>, whose handlers run in the child.\<close>

definition new_current_thread :: current_thread where
  "new_current_thread = \<lparr>t_cachedTid = 0, t_threadName = ''unknown''\<rparr>"

type_synonym fork_handlers = "(tid \<Rightarrow> current_thread \<Rightarrow> current_thread) list"

definition ThreadNameInitializer :: "tid \<Rightarrow> current_thread \<Rightarrow> fork_handlers \<Rightarrow> current_thread \<times> fork_handlers" where
  "ThreadNameInitializer gettid c handlers =
     (let c = c\<lparr>t_threadName := ''main''\<rparr>; c = cacheTid gettid c in (c, handlers @ [afterFork]))"

definition isMainThread :: "tid \<Rightarrow> tid \<Rightarrow> current_thread \<Rightarrow> bool" where
  "isMainThread getpid gettid c \<longleftrightarrow> t_cachedTid (cacheTid gettid c) = getpid"

text \<open>The \<open>timespec\<close> that \<open>sleepUsec\<close> sleeps for.\<close>

definition sleepUsec :: "int \<Rightarrow> int \<times> int" where
  "sleepUsec usec = (usec sdiv 1000000, usec smod 1000000 * 1000)"

lemma sleepUsec_exact:
  assumes "sleepUsec usec = (s, n)"
  shows "s * 1000000000 + n = usec * 1000" "0 \<le> usec \<Longrightarrow> 0 \<le> n \<and> n < 1000000000"
proof -
  have "(usec sdiv 1000000) * 1000000 + usec smod 1000000 = usec" by (rule sdiv_mult_smod_eq)
  with assms show "s * 1000000000 + n = usec * 1000" by (auto simp: sleepUsec_def)
  show "0 \<le> n \<and> n < 1000000000" if "0 \<le> usec"
    using assms smod_int_compares(1,2) [OF that, of 1000000] by (auto simp: sleepUsec_def)
qed

lemma afterFork_main: "isMainThread pid pid (afterFork pid c)"
  by (simp add: isMainThread_def afterFork_def cacheTid_def Let_def)

text \<open>The process's first thread is its main thread, and after a fork so is the thread of the child,
  whatever thread of the parent called \<open>fork\<close>.\<close>

lemma main_after_fork:
  assumes "ThreadNameInitializer pid new_current_thread [] = (c, handlers)"
  shows "isMainThread pid pid c" "t_threadName c = ''main''"
    and "isMainThread child child (fold (\<lambda>h. h child) handlers forking)"
    and "t_threadName (fold (\<lambda>h. h child) handlers forking) = ''main''"
  using assms afterFork_main [of child forking]
  by (auto simp: ThreadNameInitializer_def new_current_thread_def isMainThread_def cacheTid_def afterFork_def Let_def)

subsection \<open>What the new thread does\<close>

datatype func_result = Returns | Throws_std | Throws_other

datatype thread_end = Exits | Aborts | Rethrows

text \<open>The name under which the function runs, the name at the end, and how the thread ends.\<close>

definition runInThread :: "string \<Rightarrow> func_result \<Rightarrow> string \<times> string \<times> thread_end" where
  "runInThread th_name func =
     (let t_threadName = (if th_name = [] then ''Thread'' else th_name)
      in case func of
           Returns \<Rightarrow> (t_threadName, ''finished'', Exits)
         | Throws_std \<Rightarrow> (t_threadName, ''crashed'', Aborts)
         | Throws_other \<Rightarrow> (t_threadName, ''crashed'', Rethrows))"

text \<open>
  \<open>start\<close> and the first statements of \<open>runInThread\<close>, which touch the same \<open>tid_\<close> and latch, side by
  side. The parent returns from \<open>latch_.wait()\<close> and asserts that \<open>tid_\<close> is positive.
\<close>

datatype parent_at = Creating | Waits | Returned
datatype child_at = Unborn | Sets_tid | Counts_down | Runs_func

record start_state =
  st_tid :: tid
  st_latch :: int
  st_parent :: parent_at
  st_child :: child_at

inductive start_step :: "tid \<Rightarrow> start_state \<Rightarrow> start_state \<Rightarrow> bool" for tid :: tid where
  create: "st_parent s = Creating \<Longrightarrow> start_step tid s (s\<lparr>st_parent := Waits, st_child := Sets_tid\<rparr>)"
| set_tid: "st_child s = Sets_tid \<Longrightarrow> start_step tid s (s\<lparr>st_tid := tid, st_child := Counts_down\<rparr>)"
| count_down: "st_child s = Counts_down \<Longrightarrow> start_step tid s (s\<lparr>st_latch := st_latch s - 1, st_child := Runs_func\<rparr>)"
| wait_returns: "st_parent s = Waits \<Longrightarrow> st_latch s = 0 \<Longrightarrow> start_step tid s (s\<lparr>st_parent := Returned\<rparr>)"

definition start_init :: "start_state \<Rightarrow> bool" where
  "start_init s \<longleftrightarrow> s = \<lparr>st_tid = 0, st_latch = 1, st_parent = Creating, st_child = Unborn\<rparr>"

definition start_inv :: "tid \<Rightarrow> start_state \<Rightarrow> bool" where
  "start_inv tid s \<longleftrightarrow> st_latch s = (if st_child s = Runs_func then 0 else 1)
     \<and> (st_child s \<in> {Counts_down, Runs_func} \<longrightarrow> st_tid s = tid)
     \<and> (st_parent s = Creating \<longleftrightarrow> st_child s = Unborn)
     \<and> (st_parent s = Returned \<longrightarrow> st_child s = Runs_func)"

interpretation starting: step_invariant "start_step tid" start_init "start_inv tid" for tid
proof
  show "start_init s \<Longrightarrow> start_inv tid s" for s by (simp add: start_init_def start_inv_def)
  show "start_inv tid t" if "start_inv tid s" "start_step tid s t" for s t
    using that(2,1) by cases (auto simp: start_inv_def split: if_splits)
qed

text \<open>\<open>start\<close> returns with \<open>tid_\<close> set by the new thread, and until it has some thread can go on.\<close>

lemma start_handshake:
  assumes "start_init s" and "(start_step tid)\<^sup>*\<^sup>* s s'"
  shows "st_parent s' = Returned \<longrightarrow> st_tid s' = tid" "st_parent s' \<noteq> Returned \<longrightarrow> (\<exists>t. start_step tid s' t)"
proof -
  have inv: "start_inv tid s'" by (rule starting.reach_inv [OF assms])
  then show "st_parent s' = Returned \<longrightarrow> st_tid s' = tid" by (simp add: start_inv_def)
  show "st_parent s' \<noteq> Returned \<longrightarrow> (\<exists>t. start_step tid s' t)"
  proof
    assume "st_parent s' \<noteq> Returned"
    then consider "st_parent s' = Creating" | "st_parent s' = Waits" by (cases "st_parent s'") auto
    then show "\<exists>t. start_step tid s' t"
    proof cases
      case 2
      with inv show ?thesis
        by (cases "st_child s'") (auto simp: start_inv_def intro: start_step.intros)
    qed (blast intro: start_step.create)
  qed
qed

subsection \<open>The class\<close>

record thread =
  th_started :: bool
  th_joined :: bool
  pthreadId :: int
  th_tid :: tid
  th_name :: string
  created :: "int list"
  joined :: "int list"
  detached :: "int list"

text \<open>The last three fields are what the process knows of the pthreads this object has made.\<close>

definition Thread :: "string \<Rightarrow> 32 word \<Rightarrow> thread \<times> 32 word" where
  "Thread n numCreated =
     (let (name, numCreated) = setDefaultName n numCreated
      in (\<lparr>th_started = False, th_joined = False, pthreadId = 0, th_tid = 0, th_name = name, created = [], joined = [],
           detached = []\<rparr>, numCreated))"

text \<open>\<open>Inr (id, tid)\<close> is a success of \<open>pthread_create\<close>: the handshake above then ends with \<open>tid\<close> in \<open>tid_\<close>.\<close>

definition thread_start :: "errno + int \<times> tid \<Rightarrow> thread \<Rightarrow> thread option" where
  "thread_start create th =
     do { chk (\<not> th_started th);
          let th = th\<lparr>th_started := True\<rparr>;
          case create of
            Inl errno \<Rightarrow> Some (th\<lparr>th_started := False\<rparr>)
          | Inr (p, tid) \<Rightarrow>
              do { let th = th\<lparr>pthreadId := p, created := created th @ [p], th_tid := tid\<rparr>;
                   chk (0 < th_tid th);
                   Some th } }"

definition join :: "thread \<Rightarrow> thread option" where
  "join th =
     do { chk (th_started th);
          chk (\<not> th_joined th);
          let th = th\<lparr>th_joined := True\<rparr>;
          Some (th\<lparr>joined := joined th @ [pthreadId th]\<rparr>) }"

definition Thread_dtor :: "thread \<Rightarrow> thread" where
  "Thread_dtor th = (if th_started th \<and> \<not> th_joined th then th\<lparr>detached := detached th @ [pthreadId th]\<rparr> else th)"

text \<open>Calls of the owner: \<open>start\<close> until it succeeds, then at most one \<open>join\<close>.\<close>

datatype thread_call = Call_start "errno + int \<times> tid" | Call_join

fun do_call :: "thread_call \<Rightarrow> thread \<Rightarrow> thread option" where
  "do_call (Call_start r) th = thread_start r th"
| "do_call Call_join th = join th"

fun thread_call_ok :: "thread_call \<Rightarrow> thread \<Rightarrow> bool" where
  "thread_call_ok (Call_start r) th = (\<not> th_started th \<and> (\<forall>p tid. r = Inr (p, tid) \<longrightarrow> 0 < tid))"
| "thread_call_ok Call_join th = (th_started th \<and> \<not> th_joined th)"

definition thread_inv :: "thread \<Rightarrow> bool" where
  "thread_inv th \<longleftrightarrow> detached th = [] \<and> (th_joined th \<longrightarrow> th_started th)
     \<and> created th = (if th_started th then [pthreadId th] else [])
     \<and> joined th = (if th_joined th then [pthreadId th] else [])
     \<and> (th_started th \<longrightarrow> 0 < th_tid th)"

interpretation threads: safe_machine do_call thread_call_ok thread_inv
proof
  fix c th
  assume inv: "thread_inv th" and ok: "thread_call_ok c th"
  show "\<exists>th'. do_call c th = Some th' \<and> thread_inv th'"
  proof (cases c)
    case (Call_start r)
    show ?thesis
    proof (cases r)
      case (Inl errno)
      with Call_start inv ok show ?thesis by (simp add: thread_inv_def thread_start_def)
    next
      case (Inr pt)
      with Call_start inv ok show ?thesis by (cases pt) (simp add: thread_inv_def thread_start_def)
    qed
  next
    case Call_join
    with inv ok show ?thesis by (simp add: thread_inv_def join_def)
  qed
qed

text \<open>C30: However its owner calls \<open>start\<close> and \<open>join\<close>, a thread object makes at most one pthread, and after its
  destructor that pthread has been joined or detached, exactly once and not both.\<close>

theorem pthread_released_once:
  assumes "Thread n c = (th, c')" and "run_ok do_call thread_call_ok calls th"
  shows "\<exists>th'. run do_call calls th = Some th' \<and> length (created th') \<le> 1 \<and>
    joined (Thread_dtor th') @ detached (Thread_dtor th') = created th'"
proof -
  have "thread_inv th" using assms(1) by (auto simp: Thread_def thread_inv_def split: prod.splits)
  from threads.run_safe [OF this assms(2)] obtain th' where
    th': "run do_call calls th = Some th'" "thread_inv th'" by blast
  then show ?thesis by (auto simp: thread_inv_def Thread_dtor_def)
qed

theorem pthread_released_once_witness:
  "\<exists>th'. run do_call [Call_start (Inl 11), Call_start (Inr (70, 71)), Call_join] (fst (Thread [] 0)) = Some th' \<and>
    joined (Thread_dtor th') @ detached (Thread_dtor th') = [70]"
proof -
  let ?calls = "[Call_start (Inl 11), Call_start (Inr (70, 71)), Call_join]"
  obtain th c where th: "Thread [] 0 = (th, c)" by fastforce
  then have "\<not> th_started th" "\<not> th_joined th" "created th = []" by (auto simp: Thread_def split: prod.splits)
  then have "run_ok do_call thread_call_ok ?calls th" "\<forall>th'. run do_call ?calls th = Some th' \<longrightarrow> created th' = [70]"
    by (auto simp: thread_start_def join_def)
  with pthread_released_once [OF th, of ?calls] th show ?thesis by auto
qed

end
