(* ===== verification/Pools.thy ===== *)
theory Pools
  imports Threads
begin

text \<open>
  \<^verbatim>\<open>EventLoopThread.h\<close>, \<^verbatim>\<open>EventLoopThread.c\<close>, \<^verbatim>\<open>EventLoopThreadPool.h\<close> and \<^verbatim>\<open>EventLoopThreadPool.c\<close>: a thread
  that runs a loop and hands its address to the thread that started it, and the pool from which a
  server takes the loops of its connections in turn. The hand-over is a step relation between the two
  threads, with the mutex and the condition variable of the class.
\<close>

subsection \<open>The hand-over of the loop\<close>

datatype starter_at =
    S_new | S_lock | S_check | S_wait | S_woken | S_unlocked | S_returned "ptr option"

datatype looper_at =
    L_unborn | L_construct | L_callback | L_lock | L_publish | L_notify | L_unlock | L_loop | L_clear | L_ended

datatype owner = Starter | Looper

record handover =
  loop_ptr :: "ptr option"
  guard :: "owner option"
  starter :: starter_at
  looper :: looper_at
  initialised :: bool

text \<open>
  \<open>lp\<close> is the address of the loop on the new thread's stack. \<open>quits\<close> says whether the loop may return
  before its time, \<open>spurious\<close> whether waits may return without a signal.
\<close>

inductive handover_step :: "ptr \<Rightarrow> bool \<Rightarrow> bool \<Rightarrow> handover \<Rightarrow> handover \<Rightarrow> bool"
  for lp :: ptr and quits :: bool and spurious :: bool where
  s_start: "starter s = S_new \<Longrightarrow> handover_step lp quits spurious s (s\<lparr>starter := S_lock, looper := L_construct\<rparr>)"
| s_lock: "starter s = S_lock \<Longrightarrow> guard s = None \<Longrightarrow>
    handover_step lp quits spurious s (s\<lparr>starter := S_check, guard := Some Starter\<rparr>)"
| s_wait: "starter s = S_check \<Longrightarrow> loop_ptr s = None \<Longrightarrow>
    handover_step lp quits spurious s (s\<lparr>starter := S_wait, guard := None\<rparr>)"
| s_spurious: "starter s = S_wait \<Longrightarrow> spurious \<Longrightarrow> handover_step lp quits spurious s (s\<lparr>starter := S_woken\<rparr>)"
| s_relock: "starter s = S_woken \<Longrightarrow> guard s = None \<Longrightarrow>
    handover_step lp quits spurious s (s\<lparr>starter := S_check, guard := Some Starter\<rparr>)"
| s_unlock: "starter s = S_check \<Longrightarrow> loop_ptr s \<noteq> None \<Longrightarrow>
    handover_step lp quits spurious s (s\<lparr>starter := S_unlocked, guard := None\<rparr>)"
| s_return: "starter s = S_unlocked \<Longrightarrow>
    handover_step lp quits spurious s (s\<lparr>starter := S_returned (loop_ptr s)\<rparr>)"
| l_construct: "looper s = L_construct \<Longrightarrow> handover_step lp quits spurious s (s\<lparr>looper := L_callback\<rparr>)"
| l_callback: "looper s = L_callback \<Longrightarrow>
    handover_step lp quits spurious s (s\<lparr>looper := L_lock, initialised := True\<rparr>)"
| l_lock: "looper s = L_lock \<Longrightarrow> guard s = None \<Longrightarrow>
    handover_step lp quits spurious s (s\<lparr>looper := L_publish, guard := Some Looper\<rparr>)"
| l_publish: "looper s = L_publish \<Longrightarrow>
    handover_step lp quits spurious s (s\<lparr>looper := L_notify, loop_ptr := Some lp\<rparr>)"
| l_notify: "looper s = L_notify \<Longrightarrow>
    handover_step lp quits spurious s
      (s\<lparr>looper := L_unlock, starter := (if starter s = S_wait then S_woken else starter s)\<rparr>)"
| l_unlock: "looper s = L_unlock \<Longrightarrow> handover_step lp quits spurious s (s\<lparr>looper := L_loop, guard := None\<rparr>)"
| l_quits: "looper s = L_loop \<Longrightarrow> quits \<Longrightarrow> handover_step lp quits spurious s (s\<lparr>looper := L_clear\<rparr>)"
| l_clear: "looper s = L_clear \<Longrightarrow> handover_step lp quits spurious s (s\<lparr>looper := L_ended, loop_ptr := None\<rparr>)"

inductive_cases handover_stepE: "handover_step lp quits spurious s s'"

definition new_handover :: handover where
  "new_handover = \<lparr>loop_ptr = None, guard = None, starter = S_new, looper = L_unborn, initialised = False\<rparr>"

definition handover_init :: "handover \<Rightarrow> bool" where
  "handover_init s \<longleftrightarrow> s = new_handover"

definition handover_inv :: "ptr \<Rightarrow> handover \<Rightarrow> bool" where
  "handover_inv lp s \<longleftrightarrow>
     (starter s = S_check \<longleftrightarrow> guard s = Some Starter)
     \<and> (looper s \<in> {L_publish, L_notify, L_unlock} \<longleftrightarrow> guard s = Some Looper)
     \<and> loop_ptr s = (if looper s \<in> {L_notify, L_unlock, L_loop} then Some lp else None)
     \<and> (starter s = S_new \<longleftrightarrow> looper s = L_unborn)
     \<and> (initialised s \<longleftrightarrow> looper s \<notin> {L_unborn, L_construct, L_callback})
     \<and> looper s \<notin> {L_clear, L_ended}
     \<and> (starter s = S_wait \<longrightarrow> looper s \<notin> {L_unlock, L_loop})
     \<and> (starter s = S_unlocked \<longrightarrow> looper s \<in> {L_notify, L_unlock, L_loop})
     \<and> (\<forall>r. starter s = S_returned r \<longrightarrow> looper s \<in> {L_notify, L_unlock, L_loop} \<and> r = Some lp)"

lemma handover_inv_step: "handover_inv lp s \<Longrightarrow> handover_step lp False spurious s t \<Longrightarrow> handover_inv lp t"
  by (erule handover_stepE) (auto simp: handover_inv_def split: if_splits)

interpretation handovers: step_invariant "handover_step lp False spurious" handover_init "handover_inv lp" for lp spurious
proof
  show "handover_init s \<Longrightarrow> handover_inv lp s" for s
    by (simp add: handover_init_def new_handover_def handover_inv_def)
qed (rule handover_inv_step)

lemma handover_progress:
  assumes inv: "handover_inv lp s" and busy: "\<And>r. starter s \<noteq> S_returned r"
  shows "\<exists>t. handover_step lp False False s t"
proof (cases "looper s")
  case L_loop
  then have "guard s = None \<or> starter s = S_check" using inv by (cases "guard s"; cases "the (guard s)") (auto simp: handover_inv_def)
  moreover have "loop_ptr s = Some lp" "starter s \<noteq> S_wait" "starter s \<noteq> S_new" using inv L_loop by (auto simp: handover_inv_def)
  ultimately show ?thesis
    using busy by (cases "starter s") (auto intro: handover_step.intros)
next
  case L_lock
  show ?thesis
  proof (cases "guard s")
    case None
    with L_lock show ?thesis by (blast intro: handover_step.l_lock)
  next
    case (Some own)
    then have "starter s = S_check" using inv L_lock by (cases own) (auto simp: handover_inv_def)
    then show ?thesis using inv L_lock by (auto simp: handover_inv_def intro: handover_step.s_wait)
  qed
next
  case L_unborn
  with inv show ?thesis by (auto simp: handover_inv_def intro: handover_step.s_start)
qed (use inv in \<open>auto simp: handover_inv_def intro: handover_step.intros\<close>)


text \<open>Runs: the steps by name.\<close>

lemma looper_runs:
  shows "looper s = L_construct \<Longrightarrow> guard s = None \<Longrightarrow> starter s = S_lock \<Longrightarrow>
    (handover_step lp quits spurious)\<^sup>*\<^sup>* s (s\<lparr>looper := L_loop, initialised := True, loop_ptr := Some lp\<rparr>)"
proof -
  assume s: "looper s = L_construct" "guard s = None" "starter s = S_lock"
  let ?r = "(handover_step lp quits spurious)\<^sup>*\<^sup>*"
  let ?a = "s\<lparr>looper := L_lock, initialised := True\<rparr>"
  let ?b = "?a\<lparr>looper := L_publish, guard := Some Looper\<rparr>"
  let ?c = "?b\<lparr>looper := L_notify, loop_ptr := Some lp\<rparr>"
  let ?d = "?c\<lparr>looper := L_unlock, starter := (if starter ?c = S_wait then S_woken else starter ?c)\<rparr>"
  let ?e = "?d\<lparr>looper := L_loop, guard := None\<rparr>"
  have "?r s (s\<lparr>looper := L_callback\<rparr>)" using s(1) by (intro r_into_rtranclp handover_step.l_construct)
  moreover have "?r (s\<lparr>looper := L_callback\<rparr>) ?a"
    using handover_step.l_callback [of "s\<lparr>looper := L_callback\<rparr>"] by (intro r_into_rtranclp) simp
  moreover have "?r ?a ?b" using s(2) by (intro r_into_rtranclp handover_step.l_lock) simp_all
  moreover have "?r ?b ?c" by (intro r_into_rtranclp handover_step.l_publish) simp
  moreover have "?r ?c ?d" by (intro r_into_rtranclp handover_step.l_notify) simp
  moreover have "?r ?d ?e" by (intro r_into_rtranclp handover_step.l_unlock) simp
  moreover have "?e = s\<lparr>looper := L_loop, initialised := True, loop_ptr := Some lp\<rparr>"
    using s by (intro handover.equality) simp_all
  ultimately show ?thesis by (metis (no_types, lifting) rtranclp_trans)
qed

definition started_handover :: handover where
  "started_handover = new_handover\<lparr>starter := S_lock, looper := L_construct\<rparr>"

definition looping_handover :: "ptr \<Rightarrow> handover" where
  "looping_handover lp = started_handover\<lparr>looper := L_loop, initialised := True, loop_ptr := Some lp\<rparr>"

lemma reaches_looping: "(handover_step lp quits spurious)\<^sup>*\<^sup>* new_handover (looping_handover lp)"
proof -
  have "handover_step lp quits spurious new_handover started_handover"
    using handover_step.s_start [of new_handover] by (simp add: started_handover_def new_handover_def)
  moreover have "(handover_step lp quits spurious)\<^sup>*\<^sup>* started_handover (looping_handover lp)"
    unfolding looping_handover_def by (rule looper_runs) (simp_all add: started_handover_def new_handover_def)
  ultimately show ?thesis by (rule converse_rtranclp_into_rtranclp)
qed

lemmas looping_defs = looping_handover_def started_handover_def new_handover_def

text \<open>The starter takes the lock, sees the loop and leaves the critical section.\<close>

lemma reaches_unlocked:
  "(handover_step lp quits spurious)\<^sup>*\<^sup>* new_handover ((looping_handover lp)\<lparr>starter := S_unlocked\<rparr>)"
proof -
  let ?s = "looping_handover lp"
  have "handover_step lp quits spurious ?s (?s\<lparr>starter := S_check, guard := Some Starter\<rparr>)"
    by (rule handover_step.s_lock) (simp_all add: looping_defs)
  moreover have "handover_step lp quits spurious (?s\<lparr>starter := S_check, guard := Some Starter\<rparr>)
      (?s\<lparr>starter := S_check, guard := Some Starter, starter := S_unlocked, guard := None\<rparr>)"
    using handover_step.s_unlock [of "?s\<lparr>starter := S_check, guard := Some Starter\<rparr>"] by (simp add: looping_defs)
  moreover have "?s\<lparr>starter := S_check, guard := Some Starter, starter := S_unlocked, guard := None\<rparr> = ?s\<lparr>starter := S_unlocked\<rparr>"
    by (simp add: looping_defs)
  ultimately show ?thesis using reaches_looping by (metis rtranclp.rtrancl_into_rtrancl)
qed


text \<open>
  When the loop returns at once (the callback may have asked it to quit) \<open>startLoop\<close>, which reads
  \<open>loop_\<close> after it has left the critical section, can return a null pointer, and if it comes too late
  for the loop altogether it waits for ever.
\<close>

theorem startLoop_early_quit:
  "(\<exists>s. (handover_step lp True False)\<^sup>*\<^sup>* new_handover s \<and> starter s = S_returned None)
    \<and> (\<exists>s. (handover_step lp True False)\<^sup>*\<^sup>* new_handover s \<and> starter s = S_wait \<and> (\<nexists>t. handover_step lp True False s t))"
proof
  let ?r = "handover_step lp True False"
  have ended: "?r\<^sup>*\<^sup>* s (s\<lparr>looper := L_ended, loop_ptr := None\<rparr>)" if "looper s = L_loop" for s
  proof -
    have "?r s (s\<lparr>looper := L_clear\<rparr>)" using that by (intro handover_step.l_quits) simp_all
    moreover have "?r (s\<lparr>looper := L_clear\<rparr>) (s\<lparr>looper := L_ended, loop_ptr := None\<rparr>)"
      using handover_step.l_clear [of "s\<lparr>looper := L_clear\<rparr>"] by simp
    ultimately show ?thesis by simp
  qed
  let ?u = "(looping_handover lp)\<lparr>starter := S_unlocked, looper := L_ended, loop_ptr := None\<rparr>"
  have "?r\<^sup>*\<^sup>* new_handover ?u"
    using ended [of "(looping_handover lp)\<lparr>starter := S_unlocked\<rparr>"] reaches_unlocked [of lp True False]
    by (auto simp: looping_defs dest: rtranclp_trans)
  moreover have "?r ?u (?u\<lparr>starter := S_returned (loop_ptr ?u)\<rparr>)" by (rule handover_step.s_return) simp
  ultimately have "?r\<^sup>*\<^sup>* new_handover (?u\<lparr>starter := S_returned (loop_ptr ?u)\<rparr>)" by (rule rtranclp.rtrancl_into_rtrancl)
  then show "\<exists>s. ?r\<^sup>*\<^sup>* new_handover s \<and> starter s = S_returned None" by fastforce
  let ?v = "(looping_handover lp)\<lparr>looper := L_ended, loop_ptr := None\<rparr>"
  have "?r\<^sup>*\<^sup>* new_handover ?v"
    using ended [of "looping_handover lp"] reaches_looping [of lp True False] by (auto simp: looping_defs dest: rtranclp_trans)
  moreover have "?r ?v (?v\<lparr>starter := S_check, guard := Some Starter\<rparr>)"
    by (rule handover_step.s_lock) (simp_all add: looping_defs)
  moreover have "?r (?v\<lparr>starter := S_check, guard := Some Starter\<rparr>) (?v\<lparr>starter := S_wait\<rparr>)"
    using handover_step.s_wait [of "?v\<lparr>starter := S_check, guard := Some Starter\<rparr>"] by (simp add: looping_defs)
  ultimately have "?r\<^sup>*\<^sup>* new_handover (?v\<lparr>starter := S_wait\<rparr>)" by (metis rtranclp.rtrancl_into_rtrancl)
  moreover have "\<not> ?r (?v\<lparr>starter := S_wait\<rparr>) t" for t
    by (auto simp: looping_defs elim: handover_stepE)
  ultimately show "\<exists>s. ?r\<^sup>*\<^sup>* new_handover s \<and> starter s = S_wait \<and> (\<nexists>t. ?r s t)" by fastforce
qed

subsection \<open>EventLoopThread\<close>

record event_loop_thread =
  elt_loop :: "ptr option"
  exiting :: bool
  elt_thread :: thread
  elt_callback :: bool

definition EventLoopThread :: "bool \<Rightarrow> string \<Rightarrow> 32 word \<Rightarrow> event_loop_thread \<times> 32 word" where
  "EventLoopThread cb name numCreated =
     (let (th, numCreated) = Thread name numCreated
      in (\<lparr>elt_loop = None, exiting = False, elt_thread = th, elt_callback = cb\<rparr>, numCreated))"

text \<open>
  \<open>lp\<close> is what the hand-over above returns. If the thread cannot be created \<open>startLoop\<close> waits for ever,
  which is a \<open>None\<close> too.
\<close>

definition startLoop :: "errno + int \<times> tid \<Rightarrow> ptr \<Rightarrow> event_loop_thread \<Rightarrow> (event_loop_thread \<times> ptr) option" where
  "startLoop create lp t =
     do { chk (\<not> th_started (elt_thread t));
          th \<leftarrow> thread_start create (elt_thread t);
          chk (th_started th);
          Some (t\<lparr>elt_thread := th, elt_loop := Some lp\<rparr>, lp) }"

text \<open>Returns the loop that was told to quit. The thread sets \<open>loop_\<close> back to null before it ends.\<close>

definition EventLoopThread_dtor :: "event_loop_thread \<Rightarrow> (event_loop_thread \<times> ptr option) option" where
  "EventLoopThread_dtor t =
     do { let t = t\<lparr>exiting := True\<rparr>;
          case elt_loop t of
            None \<Rightarrow> Some (t, None)
          | Some lp \<Rightarrow> do { th \<leftarrow> join (elt_thread t);
                             Some (t\<lparr>elt_thread := Thread_dtor th, elt_loop := None\<rparr>, Some lp) } }"

subsection \<open>EventLoopThreadPool\<close>

record pool =
  baseLoop :: ptr
  pool_name :: string
  pool_started :: bool
  numThreads :: int
  next_loop :: nat
  pool_threads :: "event_loop_thread list"
  pool_loops :: "ptr list"
  base_initialised :: bool

text \<open>The last field notes that the callback has been called with the base loop.\<close>

definition EventLoopThreadPool :: "ptr \<Rightarrow> string \<Rightarrow> pool" where
  "EventLoopThreadPool base n = \<lparr>baseLoop = base, pool_name = n, pool_started = False, numThreads = 0, next_loop = 0,
     pool_threads = [], pool_loops = [], base_initialised = False\<rparr>"

definition setThreadNum :: "int \<Rightarrow> pool \<Rightarrow> pool" where
  "setThreadNum n p = p\<lparr>numThreads := n\<rparr>"

text \<open>The body of the loop of \<open>start\<close>: thread \<open>i\<close>, its creation and the address of its loop.\<close>

definition start_one :: "bool \<Rightarrow> (nat \<Rightarrow> errno + int \<times> tid) \<Rightarrow> (nat \<Rightarrow> ptr) \<Rightarrow> nat \<Rightarrow> pool \<times> 32 word
    \<Rightarrow> (pool \<times> 32 word) option" where
  "start_one cb create loop_at i pn =
     do { let (p, numCreated) = pn;
          let buf = snprintf (length (pool_name p) + 32) (pool_name p @ fmt_d (int i));
          let (t, numCreated) = EventLoopThread cb buf numCreated;
          (t, loop) \<leftarrow> startLoop (create i) (loop_at i) t;
          Some (p\<lparr>pool_threads := pool_threads p @ [t], pool_loops := pool_loops p @ [loop]\<rparr>, numCreated) }"

fun start_from :: "bool \<Rightarrow> (nat \<Rightarrow> errno + int \<times> tid) \<Rightarrow> (nat \<Rightarrow> ptr) \<Rightarrow> nat \<Rightarrow> nat \<Rightarrow> pool \<times> 32 word
    \<Rightarrow> (pool \<times> 32 word) option" where
  "start_from cb create loop_at i 0 pn = Some pn"
| "start_from cb create loop_at i (Suc k) pn =
     do { pn \<leftarrow> start_one cb create loop_at i pn; start_from cb create loop_at (Suc i) k pn }"

definition pool_start :: "bool \<Rightarrow> (nat \<Rightarrow> errno + int \<times> tid) \<Rightarrow> (nat \<Rightarrow> ptr) \<Rightarrow> pool \<times> 32 word
    \<Rightarrow> (pool \<times> 32 word) option" where
  "pool_start cb create loop_at pn =
     do { let (p, numCreated) = pn;
          chk (\<not> pool_started p);
          let p = p\<lparr>pool_started := True\<rparr>;
          (p, numCreated) \<leftarrow> start_from cb create loop_at 0 (nat (numThreads p)) (p, numCreated);
          Some (if numThreads p = 0 \<and> cb then p\<lparr>base_initialised := True\<rparr> else p, numCreated) }"

definition getNextLoop :: "pool \<Rightarrow> (pool \<times> ptr) option" where
  "getNextLoop p =
     do { chk (pool_started p);
          let loop = baseLoop p;
          if pool_loops p \<noteq> []
          then do { chk (next_loop p < length (pool_loops p));
                    let loop = pool_loops p ! next_loop p;
                    let p = p\<lparr>next_loop := next_loop p + 1\<rparr>;
                    let p = (if next_loop p \<ge> length (pool_loops p) then p\<lparr>next_loop := 0\<rparr> else p);
                    Some (p, loop) }
          else Some (p, loop) }"

definition getLoopForHash :: "64 word \<Rightarrow> pool \<Rightarrow> ptr" where
  "getLoopForHash hashCode p =
     (if pool_loops p \<noteq> [] then pool_loops p ! (unat hashCode mod length (pool_loops p)) else baseLoop p)"

definition getAllLoops :: "pool \<Rightarrow> ptr list option" where
  "getAllLoops p =
     do { chk (pool_started p);
          Some (if pool_loops p = [] then [baseLoop p] else pool_loops p) }"

text \<open>The destructor of the vector of threads.\<close>

fun delete_threads :: "event_loop_thread list \<Rightarrow> (event_loop_thread list) option" where
  "delete_threads [] = Some []"
| "delete_threads (t # ts) =
     do { (t, lp) \<leftarrow> EventLoopThread_dtor t; ts \<leftarrow> delete_threads ts; Some (t # ts) }"

definition EventLoopThreadPool_dtor :: "pool \<Rightarrow> pool option" where
  "EventLoopThreadPool_dtor p = do { ts \<leftarrow> delete_threads (pool_threads p); Some (p\<lparr>pool_threads := ts\<rparr>) }"

subsection \<open>Starting a pool\<close>

text \<open>A thread that runs its loop.\<close>

definition running_thread :: "string \<Rightarrow> errno + int \<times> tid \<Rightarrow> ptr \<Rightarrow> event_loop_thread \<Rightarrow> bool" where
  "running_thread n create lp t \<longleftrightarrow> elt_loop t = Some lp \<and> th_name (elt_thread t) = n
     \<and> th_started (elt_thread t) \<and> \<not> th_joined (elt_thread t)
     \<and> (\<exists>tid. create = Inr (pthreadId (elt_thread t), tid) \<and> th_tid (elt_thread t) = tid)
     \<and> created (elt_thread t) = [pthreadId (elt_thread t)] \<and> joined (elt_thread t) = [] \<and> detached (elt_thread t) = []"

definition creates_ok :: "nat \<Rightarrow> (nat \<Rightarrow> errno + int \<times> tid) \<Rightarrow> bool" where
  "creates_ok n create \<longleftrightarrow> (\<forall>i < n. \<exists>p tid. create i = Inr (p, tid) \<and> 0 < tid)"

lemma pool_name_fits: "i < 2 ^ 31 \<Longrightarrow> snprintf (length n + 32) (n @ fmt_d (int i)) = n @ fmt_d (int i)"
  using length_fmt_d_int32 [of "int i"] by (simp add: snprintf_def)

lemma fmt_d_not_Nil [simp]: "fmt_d v \<noteq> []"
  by (simp add: fmt_d_def)

lemma start_one_ok:
  assumes "create i = Inr (pid, tid)" and "0 < tid" and "i < 2 ^ 31"
  shows "\<exists>t. start_one cb create loop_at i (p, c)
      = Some (p\<lparr>pool_threads := pool_threads p @ [t], pool_loops := pool_loops p @ [loop_at i]\<rparr>, c + 1)
    \<and> running_thread (pool_name p @ fmt_d (int i)) (create i) (loop_at i) t \<and> elt_callback t = cb"
  using assms
  by (intro exI [of _ "\<lparr>elt_loop = Some (loop_at i), exiting = False,
      elt_thread = \<lparr>th_started = True, th_joined = False, pthreadId = pid, th_tid = tid,
        th_name = pool_name p @ fmt_d (int i), created = [pid], joined = [], detached = []\<rparr>, elt_callback = cb\<rparr>"])
    (simp add: start_one_def pool_name_fits EventLoopThread_def Thread_def setDefaultName_def incrementAndGet_eq
      startLoop_def thread_start_def running_thread_def)

lemma start_from_ok:
  assumes "creates_ok (i + k) create" and "i + k \<le> 2 ^ 31"
  shows "\<exists>ts. start_from cb create loop_at i k (p, c)
      = Some (p\<lparr>pool_threads := pool_threads p @ ts, pool_loops := pool_loops p @ map loop_at [i..<i + k]\<rparr>, c + of_nat k)
    \<and> list_all2 (\<lambda>j. running_thread (pool_name p @ fmt_d (int j)) (create j) (loop_at j)) [i..<i + k] ts"
  using assms
proof (induction k arbitrary: i p c)
  case 0
  then show ?case by simp
next
  case (Suc k)
  have "i < i + Suc k" by simp
  with Suc.prems(1) obtain pid tid where "create i = Inr (pid, tid)" "0 < tid" unfolding creates_ok_def by blast
  with start_one_ok [of create i pid tid cb loop_at p c] Suc.prems obtain t where
    t: "start_one cb create loop_at i (p, c)
        = Some (p\<lparr>pool_threads := pool_threads p @ [t], pool_loops := pool_loops p @ [loop_at i]\<rparr>, c + 1)"
      "running_thread (pool_name p @ fmt_d (int i)) (create i) (loop_at i) t" by auto
  from Suc.IH [of "Suc i" "p\<lparr>pool_threads := pool_threads p @ [t], pool_loops := pool_loops p @ [loop_at i]\<rparr>" "c + 1"]
    Suc.prems obtain ts where
    ts: "start_from cb create loop_at (Suc i) k
          (p\<lparr>pool_threads := pool_threads p @ [t], pool_loops := pool_loops p @ [loop_at i]\<rparr>, c + 1)
        = Some (p\<lparr>pool_threads := pool_threads p @ t # ts,
            pool_loops := pool_loops p @ loop_at i # map loop_at [Suc i..<Suc i + k]\<rparr>, c + 1 + of_nat k)"
      "list_all2 (\<lambda>j. running_thread (pool_name p @ fmt_d (int j)) (create j) (loop_at j)) [Suc i..<Suc i + k] ts"
    by auto
  have "[i..<i + Suc k] = i # [Suc i..<Suc i + k]" by (simp add: upt_conv_Cons)
  with t ts show ?case by (intro exI [of _ "t # ts"]) (simp add: add.assoc)
qed

subsection \<open>Properties of the pool\<close>

fun next_loops :: "nat \<Rightarrow> pool \<Rightarrow> (pool \<times> ptr list) option" where
  "next_loops 0 p = Some (p, [])"
| "next_loops (Suc n) p =
     do { (p, l) \<leftarrow> getNextLoop p; (p, ls) \<leftarrow> next_loops n p; Some (p, l # ls) }"

lemma getNextLoop_eq:
  assumes "pool_started p" and "next_loop p < length (pool_loops p)"
  shows "getNextLoop p = Some (p\<lparr>next_loop := Suc (next_loop p) mod length (pool_loops p)\<rparr>, pool_loops p ! next_loop p)"
proof -
  have ne: "pool_loops p \<noteq> []" using assms(2) by force
  show ?thesis
  proof (cases "Suc (next_loop p) = length (pool_loops p)")
    case True
    then have "Suc (next_loop p) mod length (pool_loops p) = 0" by simp
    with True assms ne show ?thesis by (simp add: getNextLoop_def)
  next
    case False
    with assms ne show ?thesis by (simp add: getNextLoop_def)
  qed
qed

lemma next_loops_eq:
  assumes "pool_started p" and "next_loop p < length (pool_loops p)"
  shows "\<exists>q. next_loops n p
    = Some (q, map (\<lambda>i. pool_loops p ! ((next_loop p + i) mod length (pool_loops p))) [0..<n])"
  using assms
proof (induction n arbitrary: p)
  case (Suc n)
  let ?k = "length (pool_loops p)"
  let ?p = "p\<lparr>next_loop := Suc (next_loop p) mod ?k\<rparr>"
  have "0 < ?k" using Suc.prems(2) by linarith
  with Suc.IH [of ?p] Suc.prems(1) obtain q where
    "next_loops n ?p = Some (q, map (\<lambda>i. pool_loops p ! ((Suc (next_loop p) mod ?k + i) mod ?k)) [0..<n])" by auto
  moreover have "(Suc (next_loop p) mod ?k + i) mod ?k = (next_loop p + Suc i) mod ?k" for i
    by (simp add: mod_add_left_eq)
  moreover have "[0..<Suc n] = 0 # map Suc [0..<n]" by (simp add: upt_conv_Cons map_Suc_upt)
  ultimately show ?case
    using getNextLoop_eq [OF Suc.prems] Suc.prems(2) by (auto simp: comp_def)
qed simp

lemma next_loops_base:
  "pool_started p \<Longrightarrow> pool_loops p = [] \<Longrightarrow> next_loops n p = Some (p, replicate n (baseLoop p))"
  by (induction n) (simp_all add: getNextLoop_def)

lemma pool_start_ok:
  assumes "0 \<le> k" "k < 2 ^ 31" and "creates_ok (nat k) create"
  shows "\<exists>p. pool_start cb create loop_at (setThreadNum k (EventLoopThreadPool base n), c) = Some (p, c + of_nat (nat k))
    \<and> pool_started p \<and> baseLoop p = base \<and> next_loop p = 0 \<and> pool_loops p = map loop_at [0..<nat k]
    \<and> base_initialised p = (k = 0 \<and> cb)
    \<and> list_all2 (\<lambda>j. running_thread (n @ fmt_d (int j)) (create j) (loop_at j)) [0..<nat k] (pool_threads p)"
proof -
  let ?p = "(setThreadNum k (EventLoopThreadPool base n))\<lparr>pool_started := True\<rparr>"
  have fields: "pool_threads ?p = []" "pool_loops ?p = []" "pool_name ?p = n" "numThreads ?p = k" "baseLoop ?p = base"
      "next_loop ?p = 0" "\<not> base_initialised ?p"
    by (simp_all add: setThreadNum_def EventLoopThreadPool_def)
  have "nat k \<le> 2 ^ 31" using assms(2) by simp
  with start_from_ok [of 0 "nat k" create cb loop_at ?p c] assms(3) fields obtain ts where
    ts: "start_from cb create loop_at 0 (nat k) (?p, c)
        = Some (?p\<lparr>pool_threads := ts, pool_loops := map loop_at [0..<nat k]\<rparr>, c + of_nat (nat k))"
      "list_all2 (\<lambda>j. running_thread (n @ fmt_d (int j)) (create j) (loop_at j)) [0..<nat k] ts" by auto
  let ?q = "?p\<lparr>pool_threads := ts, pool_loops := map loop_at [0..<nat k]\<rparr>"
  have "\<not> pool_started (setThreadNum k (EventLoopThreadPool base n))" by (simp add: setThreadNum_def EventLoopThreadPool_def)
  then have "pool_start cb create loop_at (setThreadNum k (EventLoopThreadPool base n), c)
      = Some (if k = 0 \<and> cb then ?q\<lparr>base_initialised := True\<rparr> else ?q, c + of_nat (nat k))"
    using ts(1) fields(4) by (simp add: pool_start_def)
  with ts(2) fields show ?thesis by auto
qed

text \<open>C32: A pool of \<open>k\<close> threads hands out its loops in turn: the \<open>i\<close>-th call of \<open>getNextLoop\<close> returns the loop
  of thread \<open>i mod k\<close>, and the base loop when there are no threads; \<open>getLoopForHash\<close> returns one of the same
  loops, and \<open>getAllLoops\<close> returns them all.\<close>

theorem pool_round_robin:
  assumes "0 \<le> k" "k < 2 ^ 31" and "creates_ok (nat k) create"
  shows "\<exists>p c'. pool_start cb create loop_at (setThreadNum k (EventLoopThreadPool base n), c) = Some (p, c')
    \<and> (\<forall>m. \<exists>q. next_loops m p = Some (q, map (\<lambda>i. if k = 0 then base else loop_at (i mod nat k)) [0..<m]))
    \<and> (\<exists>ls. getAllLoops p = Some ls \<and> ls = (if k = 0 then [base] else map loop_at [0..<nat k])
        \<and> (\<forall>h. getLoopForHash h p \<in> set ls))"
proof -
  from pool_start_ok [OF assms, of cb loop_at base n c] obtain p where
    p: "pool_start cb create loop_at (setThreadNum k (EventLoopThreadPool base n), c) = Some (p, c + of_nat (nat k))"
      "pool_started p" "baseLoop p = base" "next_loop p = 0" "pool_loops p = map loop_at [0..<nat k]" by blast
  have "\<exists>q. next_loops m p = Some (q, map (\<lambda>i. if k = 0 then base else loop_at (i mod nat k)) [0..<m])" for m
  proof (cases "k = 0")
    case True
    with p next_loops_base [of p m] show ?thesis by (simp add: map_replicate_const)
  next
    case False
    then have "0 < nat k" using assms(1) by simp
    with next_loops_eq [of p m] p(2,4,5) False show ?thesis by simp
  qed
  moreover have "getAllLoops p = Some (if k = 0 then [base] else map loop_at [0..<nat k])"
    using p(2,3,5) assms(1) by (auto simp: getAllLoops_def)
  moreover have "getLoopForHash h p \<in> set (if k = 0 then [base] else map loop_at [0..<nat k])" for h
    using p(3,5) assms(1) by (auto simp: getLoopForHash_def)
  ultimately show ?thesis using p(1) by blast
qed

theorem pool_round_robin_witness:
  "\<exists>p c' q. pool_start True (\<lambda>i. Inr (int i, 1)) (\<lambda>i. 100 + i) (setThreadNum 3 (EventLoopThreadPool 9 ''io''), 0) = Some (p, c')
    \<and> next_loops 5 p = Some (q, [100, 101, 102, 100, 101]) \<and> getAllLoops p = Some [100, 101, 102]"
proof -
  have "creates_ok (nat 3) (\<lambda>i. Inr (int i, 1))" by (simp add: creates_ok_def)
  from pool_round_robin [OF _ _ this, of True "\<lambda>i. 100 + i" 9 "''io''" 0] obtain p c' where
    p: "pool_start True (\<lambda>i. Inr (int i, 1)) (\<lambda>i. 100 + i) (setThreadNum 3 (EventLoopThreadPool 9 ''io''), 0) = Some (p, c')"
      "\<forall>m. \<exists>q. next_loops m p = Some (q, map (\<lambda>i. 100 + i mod 3) [0..<m])"
      "getAllLoops p = Some (map (\<lambda>i. 100 + i) [0..<3])" by auto
  from p(2) obtain q where "next_loops 5 p = Some (q, map (\<lambda>i. 100 + i mod 3) [0..<5])" by blast
  with p(1,3) show ?thesis by (auto simp: upt_rec)
qed

text \<open>
  The threads of a pool carry distinct whole names, the pool's name and their number, and its destructor
  has every one of them quit and joins it, once.
\<close>

lemma delete_threads_ok:
  assumes "list_all2 (\<lambda>j. running_thread (f j) (create j) (loop_at j)) js ts"
  shows "\<exists>us. delete_threads ts = Some us \<and> length us = length ts
    \<and> (\<forall>u \<in> set us. exiting u \<and> elt_loop u = None \<and> created (elt_thread u) = [pthreadId (elt_thread u)]
        \<and> joined (elt_thread u) = [pthreadId (elt_thread u)] \<and> detached (elt_thread u) = [])"
  using assms
proof (induction js ts rule: list_all2_induct)
  case (Cons j js t ts)
  then obtain us where us: "delete_threads ts = Some us" "length us = length ts"
    "\<forall>u \<in> set us. exiting u \<and> elt_loop u = None \<and> created (elt_thread u) = [pthreadId (elt_thread u)]
        \<and> joined (elt_thread u) = [pthreadId (elt_thread u)] \<and> detached (elt_thread u) = []" by blast
  have "\<exists>u. EventLoopThread_dtor t = Some (u, Some (loop_at j)) \<and> exiting u \<and> elt_loop u = None
      \<and> created (elt_thread u) = [pthreadId (elt_thread u)] \<and> joined (elt_thread u) = [pthreadId (elt_thread u)]
      \<and> detached (elt_thread u) = []"
    using Cons.hyps(1) by (simp add: running_thread_def EventLoopThread_dtor_def join_def Thread_dtor_def Let_def)
  then obtain u where "EventLoopThread_dtor t = Some (u, Some (loop_at j))" "exiting u \<and> elt_loop u = None
      \<and> created (elt_thread u) = [pthreadId (elt_thread u)] \<and> joined (elt_thread u) = [pthreadId (elt_thread u)]
      \<and> detached (elt_thread u) = []" by blast
  with us show ?case by simp
qed simp

theorem pool_threads_joined:
  assumes "0 \<le> k" "k < 2 ^ 31" and "creates_ok (nat k) create"
  shows "\<exists>p c' q. pool_start cb create loop_at (setThreadNum k (EventLoopThreadPool base n), c) = Some (p, c')
    \<and> map (\<lambda>t. th_name (elt_thread t)) (pool_threads p) = map (\<lambda>i. n @ fmt_d (int i)) [0..<nat k]
    \<and> distinct (map (\<lambda>t. th_name (elt_thread t)) (pool_threads p))
    \<and> EventLoopThreadPool_dtor p = Some q \<and> length (pool_threads q) = nat k
    \<and> (\<forall>t \<in> set (pool_threads q). length (created (elt_thread t)) = 1 \<and> joined (elt_thread t) = created (elt_thread t)
        \<and> detached (elt_thread t) = [])"
proof -
  from pool_start_ok [OF assms, of cb loop_at base n c] obtain p where
    p: "pool_start cb create loop_at (setThreadNum k (EventLoopThreadPool base n), c) = Some (p, c + of_nat (nat k))"
      "list_all2 (\<lambda>j. running_thread (n @ fmt_d (int j)) (create j) (loop_at j)) [0..<nat k] (pool_threads p)" by blast
  have names: "map (\<lambda>t. th_name (elt_thread t)) (pool_threads p) = map (\<lambda>i. n @ fmt_d (int i)) [0..<nat k]"
    using p(2) by (auto simp: list_all2_conv_all_nth running_thread_def intro!: nth_equalityI)
  moreover have "distinct (map (\<lambda>i. n @ fmt_d (int i)) [0..<nat k])"
    by (auto simp: distinct_map inj_on_def dest!: injD [OF inj_fmt_d])
  moreover from delete_threads_ok [OF p(2)] obtain us where
    "delete_threads (pool_threads p) = Some us" "length us = length (pool_threads p)"
    "\<forall>u \<in> set us. exiting u \<and> elt_loop u = None \<and> created (elt_thread u) = [pthreadId (elt_thread u)]
        \<and> joined (elt_thread u) = [pthreadId (elt_thread u)] \<and> detached (elt_thread u) = []" by blast
  moreover have "length (pool_threads p) = nat k" using list_all2_lengthD [OF p(2)] by simp
  ultimately show ?thesis using p(1) by (auto simp: EventLoopThreadPool_dtor_def)
qed

end
