(* ===== verification/Servers.thy ===== *)
theory Servers
  imports Lives Pools Addresses "HOL-Library.Char_ord" "HOL-Library.List_Lexorder"
begin

text \<open>
  \<^verbatim>\<open>TcpServer.h\<close> and \<^verbatim>\<open>TcpServer.c\<close>: the server's map of connections and the calls between its loop and
  the loops of the connections. Of a connection only its life is kept (theory \<open>Lives\<close>); the functors that wait in the loops' queues hold the references that keep a
  connection alive, beside the map.
\<close>

subsection \<open>\<open>std::map\<close> as a sorted association list\<close>

fun map_put :: "'k::linorder \<Rightarrow> 'v \<Rightarrow> ('k \<times> 'v) list \<Rightarrow> ('k \<times> 'v) list" where
  "map_put k v [] = [(k, v)]"
| "map_put k v ((k', v') # xs) =
     (if k < k' then (k, v) # (k', v') # xs else if k = k' then (k, v) # xs else (k', v') # map_put k v xs)"

text \<open>\<open>erase\<close> by key returns the map and the number of entries removed.\<close>

definition map_erase :: "'k \<Rightarrow> ('k \<times> 'v) list \<Rightarrow> ('k \<times> 'v) list \<times> nat" where
  "map_erase k xs = (filter (\<lambda>(k', v). k' \<noteq> k) xs, length (filter (\<lambda>(k', v). k' = k) xs))"

abbreviation smap :: "('k::linorder \<times> 'v) list \<Rightarrow> bool" where
  "smap xs \<equiv> sset (map fst xs)"

lemma set_map_put: "set (map fst (map_put k v xs)) = insert k (set (map fst xs))"
  by (induction k v xs rule: map_put.induct) (simp_all add: insert_commute)

lemma smap_put [simp]: "smap xs \<Longrightarrow> smap (map_put k v xs)"
proof (induction k v xs rule: map_put.induct)
  case (2 k v k' v' xs)
  then show ?case by (auto simp: set_map_put simp del: set_map)
qed simp

lemma map_of_put [simp]: "smap xs \<Longrightarrow> map_of (map_put k v xs) = (map_of xs)(k \<mapsto> v)"
  by (induction xs) (auto simp: fun_eq_iff)

lemma map_of_erase [simp]: "map_of (fst (map_erase k xs)) = (map_of xs)(k := None)"
  by (induction xs) (auto simp: map_erase_def fun_eq_iff)

lemma smap_erase [simp]: "smap xs \<Longrightarrow> smap (fst (map_erase k xs))"
  by (induction xs) (auto simp: map_erase_def)

lemma map_erase_count: "smap xs \<Longrightarrow> snd (map_erase k xs) = (if map_of xs k = None then 0 else 1)"
proof (induction xs)
  case (Cons x xs)
  have "filter (\<lambda>(k', v). k' = k) xs = []" if "k \<notin> fst ` set xs"
    using that by (force simp: filter_empty_conv)
  with Cons show ?case by (auto simp: map_erase_def map_of_eq_None_iff)
qed (simp add: map_erase_def)

lemma smap_distinct: "smap xs \<Longrightarrow> distinct (map fst xs)"
  by (rule sset_distinct)

subsection \<open>The class\<close>

record 'u conn_obj =
  conn_name :: string
  conn_loop :: ptr
  conn_fd :: fd
  conn_local :: bytes
  conn_peer :: bytes
  conn_life :: life
  conn_callbacks :: "'u option \<times> 'u option \<times> 'u option"

datatype server_functor =
    ConnectEstablished ptr
  | ConnectDestroyed ptr
  | RemoveConnectionInLoop ptr
  | AcceptorListen

fun functor_conn :: "server_functor \<Rightarrow> ptr option" where
  "functor_conn (ConnectEstablished p) = Some p"
| "functor_conn (ConnectDestroyed p) = Some p"
| "functor_conn (RemoveConnectionInLoop p) = Some p"
| "functor_conn AcceptorListen = None"

text \<open>
  The members of the server; the connection objects; and the functors that wait in the loops, in the
  order in which they were queued, each with its loop.
\<close>

record 'u server =
  srv_loop :: ptr
  ipPort :: string
  srv_name :: string
  acceptor_listening :: bool
  threadPool :: pool
  srv_connectionCallback :: "'u option"
  srv_messageCallback :: "'u option"
  srv_writeCompleteCallback :: "'u option"
  threadInitCallback :: bool
  srv_started :: "32 word"
  nextConnId :: int
  connections :: "(string \<times> ptr) list"
  objs :: "ptr \<Rightarrow> 'u conn_obj option"
  posted :: "(ptr \<times> server_functor) list"

type_synonym 'u server_op = "'u server \<Rightarrow> 'u server option"

definition TcpServer :: "net_lib \<Rightarrow> ptr \<Rightarrow> bytes \<Rightarrow> string \<Rightarrow> 'u \<Rightarrow> 'u \<Rightarrow> 'u server option" where
  "TcpServer L base listenAddr nameArg default_connection default_message =
     do { ip \<leftarrow> InetAddress_toIpPort L listenAddr;
          Some \<lparr>srv_loop = base, ipPort = ip, srv_name = nameArg, acceptor_listening = False,
            threadPool = EventLoopThreadPool base nameArg, srv_connectionCallback = Some default_connection,
            srv_messageCallback = Some default_message, srv_writeCompleteCallback = None, threadInitCallback = False,
            srv_started = 0, nextConnId = 1, connections = [], objs = Map.empty, posted = []\<rparr> }"

definition server_setThreadNum :: "int \<Rightarrow> 'u server_op" where
  "server_setThreadNum n s = do { chk (0 \<le> n); Some (s\<lparr>threadPool := setThreadNum n (threadPool s)\<rparr>) }"

definition setThreadInitCallback :: "bool \<Rightarrow> 'u server \<Rightarrow> 'u server" where
  "setThreadInitCallback cb s = s\<lparr>threadInitCallback := cb\<rparr>"

definition server_setConnectionCallback :: "'u option \<Rightarrow> 'u server \<Rightarrow> 'u server" where
  "server_setConnectionCallback cb s = s\<lparr>srv_connectionCallback := cb\<rparr>"

definition server_setMessageCallback :: "'u option \<Rightarrow> 'u server \<Rightarrow> 'u server" where
  "server_setMessageCallback cb s = s\<lparr>srv_messageCallback := cb\<rparr>"

definition server_setWriteCompleteCallback :: "'u option \<Rightarrow> 'u server \<Rightarrow> 'u server" where
  "server_setWriteCompleteCallback cb s = s\<lparr>srv_writeCompleteCallback := cb\<rparr>"

subsection \<open>The life of the objects\<close>

definition modify_life :: "ptr \<Rightarrow> (life \<Rightarrow> life option) \<Rightarrow> 'u server_op" where
  "modify_life p f s =
     do { obj \<leftarrow> objs s p; l \<leftarrow> f (conn_life obj); Some (s\<lparr>objs := (objs s)(p \<mapsto> obj\<lparr>conn_life := l\<rparr>)\<rparr>) }"

definition referenced :: "ptr \<Rightarrow> 'u server \<Rightarrow> bool" where
  "referenced p s \<longleftrightarrow> p \<in> snd ` set (connections s) \<or> Some p \<in> (\<lambda>(l, f). functor_conn f) ` set (posted s)"

text \<open>The end of a \<open>TcpConnectionPtr\<close>; the last one runs the destructor, which asserts the state.\<close>

definition release_conn :: "ptr \<Rightarrow> 'u server_op" where
  "release_conn p s =
     (if referenced p s then Some s
      else do { obj \<leftarrow> objs s p; chk (fst (conn_life obj) = kDisconnected); Some (s\<lparr>objs := (objs s)(p := None)\<rparr>) })"

definition post :: "ptr \<Rightarrow> server_functor \<Rightarrow> 'u server \<Rightarrow> 'u server" where
  "post lp f s = s\<lparr>posted := posted s @ [(lp, f)]\<rparr>"

subsection \<open>Operations\<close>

text \<open>\<open>cur\<close> is the loop whose thread runs.\<close>

definition removeConnectionInLoop :: "ptr \<Rightarrow> 'u server_op" where
  "removeConnectionInLoop p s =
     do { obj \<leftarrow> objs s p;
          let (cs, n) = map_erase (conn_name obj) (connections s);
          let s = s\<lparr>connections := cs\<rparr>;
          chk (n = 1);
          let ioLoop = conn_loop obj;
          Some (post ioLoop (ConnectDestroyed p) s) }"

fun call_server :: "server_functor \<Rightarrow> 'u server_op" where
  "call_server (ConnectEstablished p) s = do { s \<leftarrow> modify_life p life_established s; release_conn p s }"
| "call_server (ConnectDestroyed p) s = do { s \<leftarrow> modify_life p life_destroyed s; release_conn p s }"
| "call_server (RemoveConnectionInLoop p) s = do { s \<leftarrow> removeConnectionInLoop p s; release_conn p s }"
| "call_server AcceptorListen s = Some (s\<lparr>acceptor_listening := True\<rparr>)"

definition server_runInLoop :: "ptr \<Rightarrow> ptr \<Rightarrow> server_functor \<Rightarrow> 'u server_op" where
  "server_runInLoop cur lp f s = (if cur = lp then call_server f s else Some (post lp f s))"

definition removeConnection :: "ptr \<Rightarrow> ptr \<Rightarrow> 'u server_op" where
  "removeConnection cur p s = server_runInLoop cur (srv_loop s) (RemoveConnectionInLoop p) s"

definition server_start :: "ptr \<Rightarrow> (nat \<Rightarrow> errno + int \<times> tid) \<Rightarrow> (nat \<Rightarrow> ptr) \<Rightarrow> 32 word \<Rightarrow> 'u server
    \<Rightarrow> ('u server \<times> 32 word) option" where
  "server_start cur create loop_at numCreated s =
     (let (old, st) = getAndSet 1 (srv_started s); s = s\<lparr>srv_started := st\<rparr>
      in if old = 0
         then do { (p, numCreated) \<leftarrow> pool_start (threadInitCallback s) create loop_at (threadPool s, numCreated);
                   let s = s\<lparr>threadPool := p\<rparr>;
                   chk (\<not> acceptor_listening s);
                   s \<leftarrow> server_runInLoop cur (srv_loop s) AcceptorListen s;
                   Some (s, numCreated) }
         else Some (s, numCreated))"

text \<open>\<open>p\<close> is the address of the new object, \<open>localAddr\<close> what \<open>getLocalAddr\<close> returns. The caller is the acceptor.\<close>

definition newConnection :: "ptr \<Rightarrow> bytes \<Rightarrow> fd \<Rightarrow> bytes \<Rightarrow> 'u server_op" where
  "newConnection p localAddr sockfd peerAddr s =
     do { (tp, ioLoop) \<leftarrow> getNextLoop (threadPool s);
          let s = s\<lparr>threadPool := tp\<rparr>;
          let buf = snprintf 64 (''-'' @ ipPort s @ ''#'' @ fmt_d (nextConnId s));
          chk (nextConnId s < 2 ^ 31 - 1);
          let s = s\<lparr>nextConnId := nextConnId s + 1\<rparr>;
          let connName = srv_name s @ buf;
          let obj = \<lparr>conn_name = connName, conn_loop = ioLoop, conn_fd = sockfd, conn_local = localAddr,
                conn_peer = peerAddr, conn_life = (kConnecting, False), conn_callbacks = (None, None, None)\<rparr>;
          let obj = obj\<lparr>conn_callbacks :=
                (srv_connectionCallback s, srv_messageCallback s, srv_writeCompleteCallback s)\<rparr>;
          let s = s\<lparr>objs := (objs s)(p \<mapsto> obj)\<rparr>;
          let s = s\<lparr>connections := map_put connName p (connections s)\<rparr>;
          s \<leftarrow> server_runInLoop (srv_loop s) ioLoop (ConnectEstablished p) s;
          release_conn p s }"

text \<open>The destructor: it takes the connections out of the map one by one.\<close>

fun destroy_connections :: "(string \<times> ptr) list \<Rightarrow> 'u server_op" where
  "destroy_connections [] s = Some s"
| "destroy_connections ((n, p) # cs) s =
     do { let s = s\<lparr>connections := cs\<rparr>;
          obj \<leftarrow> objs s p;
          s \<leftarrow> server_runInLoop (srv_loop s) (conn_loop obj) (ConnectDestroyed p) s;
          destroy_connections cs s }"

definition TcpServer_dtor :: "'u server_op" where
  "TcpServer_dtor s = destroy_connections (connections s) s"

text \<open>What the connection's channel calls when the peer has gone: \<open>handleClose\<close> and its callback.\<close>

definition peer_closes :: "ptr \<Rightarrow> 'u server_op" where
  "peer_closes p s =
     do { obj \<leftarrow> objs s p;
          s \<leftarrow> modify_life p life_closed s;
          s \<leftarrow> removeConnection (conn_loop obj) p s;
          release_conn p s }"

subsection \<open>The invariant\<close>

definition about :: "ptr \<Rightarrow> 'u server \<Rightarrow> (ptr \<times> server_functor) list" where
  "about p s = filter (\<lambda>(l, f). functor_conn f = Some p) (posted s)"

definition in_map :: "'u server \<Rightarrow> ptr \<Rightarrow> 'u conn_obj \<Rightarrow> bool" where
  "in_map s p obj \<longleftrightarrow> map_of (connections s) (conn_name obj) = Some p"

text \<open>
  What may wait for a connection in each part of its life: being established, up, closed and still in
  the map, or out of the map and waiting to be destroyed.
\<close>

definition conn_phase :: "'u server \<Rightarrow> ptr \<Rightarrow> 'u conn_obj \<Rightarrow> bool" where
  "conn_phase s p obj \<longleftrightarrow>
     conn_life obj = (kConnecting, False) \<and> in_map s p obj \<and> about p s = [(conn_loop obj, ConnectEstablished p)]
     \<or> conn_life obj \<in> {(kConnected, True), (kDisconnecting, True)} \<and> in_map s p obj \<and> about p s = []
     \<or> conn_life obj = (kDisconnected, True) \<and> in_map s p obj \<and> about p s = [(srv_loop s, RemoveConnectionInLoop p)]
     \<or> conn_life obj = (kDisconnected, True) \<and> \<not> in_map s p obj \<and> about p s = [(conn_loop obj, ConnectDestroyed p)]"

definition server_conn_name :: "'u server \<Rightarrow> int \<Rightarrow> string" where
  "server_conn_name s i = srv_name s @ ''-'' @ ipPort s @ ''#'' @ fmt_d i"

definition named :: "'u server \<Rightarrow> string \<Rightarrow> bool" where
  "named s n \<longleftrightarrow> (\<exists>i. 1 \<le> i \<and> i < nextConnId s \<and> n = server_conn_name s i)"

definition srv_base :: "'u server \<Rightarrow> bool" where
  "srv_base s \<longleftrightarrow> smap (connections s) \<and> pool_started (threadPool s)
     \<and> (pool_loops (threadPool s) = [] \<or> next_loop (threadPool s) < length (pool_loops (threadPool s)))
     \<and> 1 \<le> nextConnId s \<and> length (ipPort s) \<le> 51"

definition srv_inv :: "'u server \<Rightarrow> bool" where
  "srv_inv s \<longleftrightarrow> srv_base s
     \<and> (\<forall>n p. map_of (connections s) n = Some p \<longrightarrow> (\<exists>obj. objs s p = Some obj \<and> conn_name obj = n))
     \<and> (\<forall>p. objs s p = None \<longrightarrow> about p s = [])
     \<and> (\<forall>p obj. objs s p = Some obj \<longrightarrow> conn_phase s p obj \<and> named s (conn_name obj))
     \<and> (\<forall>p q obj obj'. objs s p = Some obj \<longrightarrow> objs s q = Some obj' \<longrightarrow> conn_name obj = conn_name obj' \<longrightarrow> p = q)"

lemma server_conn_name_eq [simp]: "(server_conn_name s i = server_conn_name s j) = (i = j)"
  using injD [OF inj_fmt_d, of i j] by (auto simp: server_conn_name_def)

lemma referenced_iff:
  assumes "smap (connections s)"
  shows "referenced p s \<longleftrightarrow> (\<exists>n. map_of (connections s) n = Some p) \<or> about p s \<noteq> []"
proof -
  have "p \<in> snd ` set (connections s) \<longleftrightarrow> (\<exists>n. map_of (connections s) n = Some p)"
    using smap_distinct [OF assms] by (force dest: map_of_SomeD)
  moreover have "Some p \<in> (\<lambda>(l, f). functor_conn f) ` set (posted s) \<longleftrightarrow> about p s \<noteq> []"
    by (force simp: about_def filter_empty_conv)
  ultimately show ?thesis by (simp add: referenced_def)
qed

text \<open>One object \<open>p\<close> and what concerns it changes; \<open>n\<close> is its name.\<close>

lemma srv_inv_update:
  assumes inv: "srv_inv s" and base: "srv_base s'"
    and same: "srv_loop s' = srv_loop s" "ipPort s' = ipPort s" "srv_name s' = srv_name s" "nextConnId s \<le> nextConnId s'"
    and objs: "objs s' = (objs s)(p := ob)" and conns: "map_of (connections s') = (map_of (connections s))(n := x)"
    and abt: "\<forall>q. q \<noteq> p \<longrightarrow> about q s' = about q s"
    and fresh: "\<forall>q obj. q \<noteq> p \<longrightarrow> objs s q = Some obj \<longrightarrow> conn_name obj \<noteq> n"
    and old: "\<forall>obj. objs s p = Some obj \<longrightarrow> conn_name obj = n"
    and p: "case ob of None \<Rightarrow> x = None \<and> about p s' = []
      | Some obj \<Rightarrow> conn_name obj = n \<and> x \<in> {None, Some p} \<and> conn_phase s' p obj \<and> named s' n"
  shows "srv_inv s'"
proof -
  have "\<exists>obj. objs s' q = Some obj \<and> conn_name obj = m" if "map_of (connections s') m = Some q" for m q
  proof (cases "m = n")
    case True
    with that conns p objs show ?thesis by (auto split: option.splits)
  next
    case False
    with that conns have "map_of (connections s) m = Some q" by simp
    with inv obtain obj where obj: "objs s q = Some obj" "conn_name obj = m" unfolding srv_inv_def by blast
    with old False have "q \<noteq> p" by auto
    with obj objs show ?thesis by simp
  qed
  moreover have "about q s' = []" if "objs s' q = None" for q
    using that objs p abt inv by (cases "q = p") (auto simp: srv_inv_def split: option.splits)
  moreover have "conn_phase s' q obj \<and> named s' (conn_name obj)" if "objs s' q = Some obj" for q obj
  proof (cases "q = p")
    case True
    with that objs p show ?thesis by auto
  next
    case False
    with that objs have q: "objs s q = Some obj" by simp
    with inv have i: "conn_phase s q obj" "named s (conn_name obj)" by (auto simp: srv_inv_def)
    have "in_map s' q obj = in_map s q obj" using fresh False q conns by (simp add: in_map_def)
    with i(1) abt False same(1) have "conn_phase s' q obj" by (simp add: conn_phase_def)
    moreover have "named s' (conn_name obj)"
      using i(2) same(2-4) by (force simp: named_def server_conn_name_def)
    ultimately show ?thesis by blast
  qed
  moreover have "q = r" if "objs s' q = Some obj" "objs s' r = Some obj'" "conn_name obj = conn_name obj'" for q r obj obj'
    using that objs p fresh inv by (cases "q = p"; cases "r = p") (auto simp: srv_inv_def)
  ultimately show ?thesis using base unfolding srv_inv_def by blast
qed

text \<open>The same when the object keeps its name.\<close>

lemma srv_inv_modify:
  assumes inv: "srv_inv s" and p: "objs s p = Some obj" and base: "srv_base s'"
    and same: "srv_loop s' = srv_loop s" "ipPort s' = ipPort s" "srv_name s' = srv_name s" "nextConnId s' = nextConnId s"
    and objs: "objs s' = (objs s)(p \<mapsto> obj\<lparr>conn_life := l\<rparr>)"
    and conns: "map_of (connections s') = (map_of (connections s))(conn_name obj := x)" "x \<in> {None, Some p}"
    and abt: "\<forall>q. q \<noteq> p \<longrightarrow> about q s' = about q s"
    and ph: "conn_phase s' p (obj\<lparr>conn_life := l\<rparr>)"
  shows "srv_inv s'"
proof (rule srv_inv_update [OF inv base same(1-3) _ objs conns(1) abt])
  show "\<forall>q ob. q \<noteq> p \<longrightarrow> objs s q = Some ob \<longrightarrow> conn_name ob \<noteq> conn_name obj"
    using inv p unfolding srv_inv_def by blast
  have "named s (conn_name obj)" using inv p by (simp add: srv_inv_def)
  then have "named s' (conn_name obj)" using same by (simp add: named_def server_conn_name_def)
  with conns(2) ph show "case Some (obj\<lparr>conn_life := l\<rparr>) of None \<Rightarrow> x = None \<and> about p s' = []
      | Some ob \<Rightarrow> conn_name ob = conn_name obj \<and> x \<in> {None, Some p} \<and> conn_phase s' p ob \<and> named s' (conn_name obj)"
    by simp
qed (use p same in auto)

lemma about_post [simp]:
  "about q (post l f s) = about q s @ (if functor_conn f = Some q then [(l, f)] else [])"
  by (simp add: about_def post_def)

lemma post_simps [simp]:
  "objs (post l f s) = objs s" "connections (post l f s) = connections s" "srv_loop (post l f s) = srv_loop s"
  "ipPort (post l f s) = ipPort s" "srv_name (post l f s) = srv_name s" "nextConnId (post l f s) = nextConnId s"
  "threadPool (post l f s) = threadPool s" "acceptor_listening (post l f s) = acceptor_listening s"
  by (simp_all add: post_def)

subsection \<open>The server as a machine\<close>

text \<open>The first functor that waits in loop \<open>l\<close>, and the others.\<close>

fun take_first :: "ptr \<Rightarrow> (ptr \<times> server_functor) list \<Rightarrow> (server_functor \<times> (ptr \<times> server_functor) list) option" where
  "take_first l [] = None"
| "take_first l ((l', f) # xs) =
     (if l' = l then Some (f, xs)
      else (case take_first l xs of None \<Rightarrow> None | Some (g, ys) \<Rightarrow> Some (g, (l', f) # ys)))"

lemma take_first_Some:
  "take_first l xs = Some (f, ys) \<Longrightarrow> \<exists>us vs. xs = us @ (l, f) # vs \<and> ys = us @ vs"
proof (induction xs arbitrary: ys)
  case (Cons x xs)
  obtain l' f' where x: "x = (l', f')" by fastforce
  show ?case
  proof (cases "l' = l")
    case True
    with Cons.prems x show ?thesis by (intro exI [of _ "[]"] exI [of _ xs]) simp
  next
    case False
    with Cons.prems x obtain zs where zs: "take_first l xs = Some (f, zs)" "ys = (l', f') # zs"
      by (auto split: option.splits)
    from Cons.IH [OF zs(1)] obtain us vs where "xs = us @ (l, f) # vs" "zs = us @ vs" by blast
    with zs(2) x show ?thesis by (intro exI [of _ "(l', f') # us"] exI [of _ vs]) simp
  qed
qed simp

text \<open>
  What happens to a server that listens: a peer connects, a peer goes, a user shuts a connection down,
  and a loop runs the functor that has waited longest in its queue.
\<close>

datatype server_event = Accepts ptr bytes fd bytes | Peer_closes ptr | User_shutdown ptr | Runs_functor ptr

fun server_step :: "server_event \<Rightarrow> 'u server_op" where
  "server_step (Accepts p localAddr sockfd peerAddr) s = newConnection p localAddr sockfd peerAddr s"
| "server_step (Peer_closes p) s = peer_closes p s"
| "server_step (User_shutdown p) s = modify_life p life_shutdown s"
| "server_step (Runs_functor l) s =
     (case take_first l (posted s) of None \<Rightarrow> Some s | Some (f, fs) \<Rightarrow> call_server f (s\<lparr>posted := fs\<rparr>))"

text \<open>
  A new object gets memory that is not in use; only channels that are registered report events; users
  shut down connections that are up. The counter of connections is an \<open>int\<close>.
\<close>

fun server_event_ok :: "server_event \<Rightarrow> 'u server \<Rightarrow> bool" where
  "server_event_ok (Accepts p localAddr sockfd peerAddr) s = (objs s p = None \<and> nextConnId s < 2 ^ 31 - 1)"
| "server_event_ok (Peer_closes p) s =
     (\<exists>obj. objs s p = Some obj \<and> conn_life obj \<in> {(kConnected, True), (kDisconnecting, True)})"
| "server_event_ok (User_shutdown p) s = (\<exists>obj. objs s p = Some obj \<and> conn_life obj = (kConnected, True))"
| "server_event_ok (Runs_functor l) s = True"

lemma srv_invD:
  assumes "srv_inv s"
  shows "srv_base s" "smap (connections s)" "objs s p = Some obj \<Longrightarrow> conn_phase s p obj"
    "objs s p = Some obj \<Longrightarrow> named s (conn_name obj)" "objs s p = None \<Longrightarrow> about p s = []"
    "map_of (connections s) n = Some p \<Longrightarrow> \<exists>obj. objs s p = Some obj \<and> conn_name obj = n"
  using assms by (auto simp: srv_inv_def srv_base_def)

lemma srv_base_cong:
  assumes "srv_base s" and "smap (connections s')" and "threadPool s' = threadPool s" "nextConnId s' = nextConnId s"
    "ipPort s' = ipPort s"
  shows "srv_base s'"
  using assms by (simp add: srv_base_def)

lemma release_in_map:
  assumes "map_of (connections s) n = Some p"
  shows "release_conn p s = Some s"
  using map_of_SomeD [OF assms] by (force simp: release_conn_def referenced_def)

lemma release_posted: "release_conn p (post l f s) = Some (post l f s)" if "functor_conn f = Some p"
  using that by (force simp: release_conn_def referenced_def post_def)

text \<open>Taking a connection out of the map: its object is closed and nothing waits for it.\<close>

lemma removal_ok:
  assumes inv: "srv_inv s" and p: "objs s p = Some obj" and map: "in_map s p obj"
    and s': "objs s' = (objs s)(p \<mapsto> obj\<lparr>conn_life := (kDisconnected, True)\<rparr>)" "connections s' = connections s"
      "srv_loop s' = srv_loop s" "ipPort s' = ipPort s" "srv_name s' = srv_name s" "nextConnId s' = nextConnId s"
      "threadPool s' = threadPool s"
    and abt: "\<forall>q. q \<noteq> p \<longrightarrow> about q s' = about q s" "about p s' = []"
  shows "\<exists>u. call_server (RemoveConnectionInLoop p) s' = Some u \<and> srv_inv u \<and> nextConnId u = nextConnId s"
proof -
  let ?obj = "obj\<lparr>conn_life := (kDisconnected, True)\<rparr>"
  note i = srv_invD [OF inv]
  define cs where "cs = fst (map_erase (conn_name obj) (connections s))"
  have n: "map_erase (conn_name obj) (connections s) = (cs, 1)"
    using map_erase_count [OF i(2), of "conn_name obj"] map by (simp add: in_map_def cs_def prod_eq_iff)
  have cs: "smap cs" "map_of cs = (map_of (connections s))(conn_name obj := None)"
    using i(2) by (simp_all add: cs_def)
  let ?u = "post (conn_loop obj) (ConnectDestroyed p) (s'\<lparr>connections := cs\<rparr>)"
  have "removeConnectionInLoop p s' = Some ?u"
    using s'(1,2) n by (simp add: removeConnectionInLoop_def)
  then have "call_server (RemoveConnectionInLoop p) s' = Some ?u" by (simp add: release_posted)
  moreover have "srv_inv ?u"
  proof (rule srv_inv_modify [OF inv p, where x = None and l = "(kDisconnected, True)"])
    show "srv_base ?u" using i(1) cs(1) s' by (intro srv_base_cong [OF i(1)]) simp_all
    show "\<forall>q. q \<noteq> p \<longrightarrow> about q ?u = about q s" using abt(1) by (simp add: about_def post_def)
    show "conn_phase ?u p ?obj" using abt(2) cs(2) by (simp add: conn_phase_def in_map_def about_def post_def)
  qed (use s' cs in simp_all)
  ultimately show ?thesis using s'(6) by simp
qed

lemma established_ok:
  assumes inv: "srv_inv s" and p: "objs s p = Some obj" "conn_life obj = (kConnecting, False)"
    and s': "s' = s\<lparr>posted := ps\<rparr>" and abt: "\<forall>q. q \<noteq> p \<longrightarrow> about q s' = about q s" "about p s' = []"
  shows "\<exists>u. call_server (ConnectEstablished p) s' = Some u \<and> srv_inv u \<and> nextConnId u = nextConnId s"
proof -
  note i = srv_invD [OF inv]
  have map: "map_of (connections s) (conn_name obj) = Some p" using i(3) [OF p(1)] p(2) by (simp add: conn_phase_def in_map_def)
  let ?u = "s'\<lparr>objs := (objs s)(p \<mapsto> obj\<lparr>conn_life := (kConnected, True)\<rparr>)\<rparr>"
  have "call_server (ConnectEstablished p) s' = Some ?u"
    using p map by (simp add: modify_life_def s' release_in_map)
  moreover have "srv_inv ?u"
  proof (rule srv_inv_modify [OF inv p(1), where x = "Some p" and l = "(kConnected, True)"])
    show "srv_base ?u" using i(1,2) by (intro srv_base_cong [OF i(1)]) (simp_all add: s')
    show "\<forall>q. q \<noteq> p \<longrightarrow> about q ?u = about q s" using abt(1) by (simp add: about_def)
    show "conn_phase ?u p (obj\<lparr>conn_life := (kConnected, True)\<rparr>)"
      using abt(2) map by (simp add: conn_phase_def in_map_def about_def s')
  qed (use map in \<open>auto simp: s'\<close>)
  ultimately show ?thesis by (simp add: s')
qed

lemma destroyed_ok:
  assumes inv: "srv_inv s" and p: "objs s p = Some obj" "conn_life obj = (kDisconnected, True)" "\<not> in_map s p obj"
    and s': "s' = s\<lparr>posted := ps\<rparr>" and abt: "\<forall>q. q \<noteq> p \<longrightarrow> about q s' = about q s" "about p s' = []"
  shows "\<exists>u. call_server (ConnectDestroyed p) s' = Some u \<and> srv_inv u \<and> nextConnId u = nextConnId s"
proof -
  note i = srv_invD [OF inv]
  let ?v = "s'\<lparr>objs := (objs s)(p \<mapsto> obj\<lparr>conn_life := (kDisconnected, False)\<rparr>)\<rparr>"
  let ?u = "s'\<lparr>objs := (objs s)(p := None)\<rparr>"
  have "modify_life p life_destroyed s' = Some ?v" using p by (simp add: modify_life_def s')
  moreover have nomap: "map_of (connections s) n \<noteq> Some p" for n
    using i(6) [of n p] p by (auto simp: in_map_def)
  have gone: "map_of (connections s) (conn_name obj) = None"
  proof (rule ccontr)
    assume "map_of (connections s) (conn_name obj) \<noteq> None"
    then obtain q where q: "map_of (connections s) (conn_name obj) = Some q" by auto
    then obtain ob where "objs s q = Some ob" "conn_name ob = conn_name obj" using i(6) by blast
    then have "q = p" using inv p(1) unfolding srv_inv_def by blast
    with nomap q show False by blast
  qed
  have "\<not> referenced p ?v" using i(2) abt(2) nomap referenced_iff [of ?v p] by (auto simp: s' about_def)
  then have "release_conn p ?v = Some ?u" by (simp add: release_conn_def)
  ultimately have "call_server (ConnectDestroyed p) s' = Some ?u" by simp
  moreover have "srv_inv ?u"
  proof (rule srv_inv_update [OF inv, where p = p and ob = None and n = "conn_name obj" and x = None])
    show "srv_base ?u" using i(1,2) by (intro srv_base_cong [OF i(1)]) (simp_all add: s')
    show "map_of (connections ?u) = (map_of (connections s))(conn_name obj := None)"
      using gone by (simp add: s' fun_eq_iff)
    show "\<forall>q. q \<noteq> p \<longrightarrow> about q ?u = about q s" using abt(1) by (simp add: about_def)
    show "\<forall>q ob. q \<noteq> p \<longrightarrow> objs s q = Some ob \<longrightarrow> conn_name ob \<noteq> conn_name obj"
      using inv p(1) unfolding srv_inv_def by blast
  qed (use p abt in \<open>auto simp: s' about_def\<close>)
  ultimately show ?thesis by (simp add: s')
qed

lemma pool_next:
  assumes "pool_started p" and "pool_loops p = [] \<or> next_loop p < length (pool_loops p)"
  shows "\<exists>q l. getNextLoop p = Some (q, l) \<and> pool_started q
    \<and> (pool_loops q = [] \<or> next_loop q < length (pool_loops q)) \<and> (pool_loops p = [] \<longrightarrow> l = baseLoop p)"
proof (cases "pool_loops p = []")
  case True
  with assms show ?thesis by (simp add: getNextLoop_def)
next
  case False
  with assms(2) have n: "next_loop p < length (pool_loops p)" by simp
  then have "0 < length (pool_loops p)" by linarith
  then have "Suc (next_loop p) mod length (pool_loops p) < length (pool_loops p)" by (rule mod_less_divisor)
  with getNextLoop_eq [OF assms(1) n] assms(1) False show ?thesis by simp
qed

lemma conn_name_fits:
  assumes "1 \<le> i" "i < 2 ^ 31" and "length (ipPort s) \<le> 51"
  shows "srv_name s @ snprintf 64 (''-'' @ ipPort s @ ''#'' @ fmt_d i) = server_conn_name s i"
proof -
  have "length (dec (nat i)) \<le> 10" using assms(1,2) by (intro length_dec_le) simp_all
  with assms show ?thesis by (simp add: snprintf_def server_conn_name_def fmt_d_def)
qed

text \<open>A new object under the next name.\<close>

lemma srv_inv_insert:
  assumes inv: "srv_inv s" and fresh: "objs s p = None" and base: "srv_base u"
    and same: "srv_loop u = srv_loop s" "ipPort u = ipPort s" "srv_name u = srv_name s" "nextConnId u = nextConnId s + 1"
    and objs: "objs u = (objs s)(p \<mapsto> ob)"
    and conns: "map_of (connections u) = (map_of (connections s))(server_conn_name s (nextConnId s) \<mapsto> p)"
    and abt: "\<forall>q. q \<noteq> p \<longrightarrow> about q u = about q s"
    and ob: "conn_name ob = server_conn_name s (nextConnId s)" "conn_phase u p ob"
  shows "srv_inv u"
proof (rule srv_inv_update [OF inv base same(1-3) _ objs conns abt])
  note i = srv_invD [OF inv]
  show "\<forall>q ob. q \<noteq> p \<longrightarrow> objs s q = Some ob \<longrightarrow> conn_name ob \<noteq> server_conn_name s (nextConnId s)"
    using i(4) by (force simp: named_def)
  have "named u (server_conn_name s (nextConnId s))"
    using i(1) same by (force simp: named_def server_conn_name_def srv_base_def)
  then show "case Some ob of None \<Rightarrow> Some p = None \<and> about p u = []
      | Some ob \<Rightarrow> conn_name ob = server_conn_name s (nextConnId s) \<and> Some p \<in> {None, Some p} \<and> conn_phase u p ob
        \<and> named u (server_conn_name s (nextConnId s))"
    using ob by simp
qed (use fresh same in auto)

lemma newConnection_ok:
  assumes inv: "srv_inv s" and fresh: "objs s p = None" and id: "nextConnId s < 2 ^ 31 - 1"
  shows "\<exists>u. newConnection p la f pa s = Some u \<and> srv_inv u \<and> nextConnId u = nextConnId s + 1
    \<and> (\<exists>obj. objs u = (objs s)(p \<mapsto> obj) \<and> conn_name obj = server_conn_name s (nextConnId s) \<and> conn_fd obj = f
        \<and> (pool_loops (threadPool s) = [] \<longrightarrow> baseLoop (threadPool s) = srv_loop s \<longrightarrow>
             conn_life obj = (kConnected, True) \<and> posted u = posted s))"
proof -
  note i = srv_invD [OF inv]
  let ?n = "server_conn_name s (nextConnId s)"
  from i(1) pool_next obtain tp l where
    tp: "getNextLoop (threadPool s) = Some (tp, l)" "pool_started tp" "pool_loops tp = [] \<or> next_loop tp < length (pool_loops tp)"
    "pool_loops (threadPool s) = [] \<longrightarrow> l = baseLoop (threadPool s)"
    unfolding srv_base_def by blast
  have name: "srv_name s @ snprintf 64 (''-'' @ ipPort s @ ''#'' @ fmt_d (nextConnId s)) = ?n"
    using i(1) id by (intro conn_name_fits) (simp_all add: srv_base_def)
  define obj where "obj = \<lparr>conn_name = ?n, conn_loop = l, conn_fd = f, conn_local = la, conn_peer = pa,
    conn_life = (kConnecting, False),
    conn_callbacks = (srv_connectionCallback s, srv_messageCallback s, srv_writeCompleteCallback s)\<rparr>"
  define s1 where "s1 = s\<lparr>threadPool := tp, nextConnId := nextConnId s + 1, objs := (objs s)(p \<mapsto> obj),
    connections := map_put ?n p (connections s)\<rparr>"
  have new: "newConnection p la f pa s = do { u \<leftarrow> server_runInLoop (srv_loop s1) l (ConnectEstablished p) s1; release_conn p u }"
    using tp(1) id name [symmetric]
    by (simp add: newConnection_def Let_def s1_def obj_def)
  have c1: "map_of (connections s1) = (map_of (connections s))(?n \<mapsto> p)" using i(2) by (simp add: s1_def)
  have a1: "about q s1 = about q s" for q by (simp add: about_def s1_def)
  have base: "srv_base s1" using i(1) tp(2,3) by (simp add: srv_base_def s1_def)
  have f1: "conn_name obj = ?n" "conn_loop obj = l" "conn_life obj = (kConnecting, False)" "conn_fd obj = f"
    "objs s1 p = Some obj" "srv_loop s1 = srv_loop s" by (simp_all add: obj_def s1_def)
  show ?thesis
  proof (cases "srv_loop s = l")
    case True
    let ?u = "s1\<lparr>objs := (objs s)(p \<mapsto> obj\<lparr>conn_life := (kConnected, True)\<rparr>)\<rparr>"
    have "modify_life p life_established s1 = Some ?u" using f1 by (simp add: modify_life_def s1_def)
    moreover have "release_conn p ?u = Some ?u" using c1 by (intro release_in_map [of _ ?n]) simp
    ultimately have "newConnection p la f pa s = Some ?u" using True f1 by (simp add: new server_runInLoop_def)
    moreover have "conn_phase ?u p (obj\<lparr>conn_life := (kConnected, True)\<rparr>)"
      using a1 [of p] i(5) [OF fresh] c1 f1(1) by (simp add: conn_phase_def in_map_def about_def)
    then have "srv_inv ?u"
      using a1 c1 base f1 by (intro srv_inv_insert [OF inv fresh]) (simp_all add: s1_def srv_base_def about_def)
    ultimately show ?thesis using f1 by (auto simp: s1_def)
  next
    case False
    let ?u = "post l (ConnectEstablished p) s1"
    have "release_conn p ?u = Some ?u" by (rule release_posted) simp
    then have "newConnection p la f pa s = Some ?u" using False f1 by (simp add: new server_runInLoop_def)
    moreover have "conn_phase ?u p obj"
      using a1 [of p] i(5) [OF fresh] c1 f1 by (simp add: conn_phase_def in_map_def)
    then have "srv_inv ?u"
      using a1 c1 base f1 by (intro srv_inv_insert [OF inv fresh]) (simp_all add: s1_def srv_base_def)
    ultimately show ?thesis using f1 tp(4) False by (auto simp: s1_def)
  qed
qed

lemma peer_closes_ok:
  assumes inv: "srv_inv s" and p: "objs s p = Some obj" "conn_life obj \<in> {(kConnected, True), (kDisconnecting, True)}"
  shows "\<exists>u. peer_closes p s = Some u \<and> srv_inv u \<and> nextConnId u = nextConnId s"
proof -
  note i = srv_invD [OF inv]
  have ph: "in_map s p obj" "about p s = []" using i(3) [OF p(1)] p(2) by (auto simp: conn_phase_def)
  let ?obj = "obj\<lparr>conn_life := (kDisconnected, True)\<rparr>"
  let ?v = "s\<lparr>objs := (objs s)(p \<mapsto> ?obj)\<rparr>"
  have v: "modify_life p life_closed s = Some ?v" using p by (auto simp: modify_life_def)
  show ?thesis
  proof (cases "conn_loop obj = srv_loop s")
    case True
    have "about q ?v = about q s" for q by (simp add: about_def)
    with removal_ok [OF inv p(1) ph(1), of ?v] ph(2) obtain u where
      u: "call_server (RemoveConnectionInLoop p) ?v = Some u" "srv_inv u" "nextConnId u = nextConnId s" by auto
    from u(1) obtain t where t: "removeConnectionInLoop p ?v = Some t" "release_conn p t = Some u"
      by (auto simp: bind_eq_Some_conv)
    then obtain w where "t = post (conn_loop ?obj) (ConnectDestroyed p) w"
      by (auto simp: removeConnectionInLoop_def bind_eq_Some_conv Let_def split: prod.splits)
    then have "release_conn p t = Some t" by (simp add: release_posted)
    with t have "release_conn p u = Some u" by simp
    with u v True p(1) show ?thesis by (simp add: peer_closes_def removeConnection_def server_runInLoop_def)
  next
    case False
    let ?u = "post (srv_loop s) (RemoveConnectionInLoop p) ?v"
    have "release_conn p ?u = Some ?u" by (rule release_posted) simp
    then have "peer_closes p s = Some ?u"
      using v False p(1) by (simp add: peer_closes_def removeConnection_def server_runInLoop_def)
    moreover have "srv_inv ?u"
    proof (rule srv_inv_modify [OF inv p(1), where x = "Some p" and l = "(kDisconnected, True)"])
      show "srv_base ?u" using i(1,2) by (intro srv_base_cong [OF i(1)]) simp_all
      show "\<forall>q. q \<noteq> p \<longrightarrow> about q ?u = about q s" by (simp add: about_def post_def)
      show "conn_phase ?u p ?obj" using ph by (simp add: conn_phase_def in_map_def about_def post_def)
    qed (use ph in \<open>auto simp: in_map_def\<close>)
    ultimately show ?thesis by simp
  qed
qed

lemma user_shutdown_ok:
  assumes inv: "srv_inv s" and p: "objs s p = Some obj" "conn_life obj = (kConnected, True)"
  shows "\<exists>u. modify_life p life_shutdown s = Some u \<and> srv_inv u \<and> nextConnId u = nextConnId s"
proof -
  note i = srv_invD [OF inv]
  have ph: "in_map s p obj" "about p s = []" using i(3) [OF p(1)] p(2) by (auto simp: conn_phase_def)
  let ?obj = "obj\<lparr>conn_life := (kDisconnecting, True)\<rparr>"
  let ?u = "s\<lparr>objs := (objs s)(p \<mapsto> ?obj)\<rparr>"
  have "srv_inv ?u"
  proof (rule srv_inv_modify [OF inv p(1), where x = "Some p" and l = "(kDisconnecting, True)"])
    show "srv_base ?u" using i(1,2) by (intro srv_base_cong [OF i(1)]) simp_all
    show "conn_phase ?u p ?obj" using ph by (simp add: conn_phase_def in_map_def about_def)
  qed (use ph in \<open>auto simp: in_map_def about_def\<close>)
  with p show ?thesis by (simp add: modify_life_def)
qed

lemma srv_inv_cong:
  fixes s s' :: "'u server"
  assumes "srv_inv s" and "objs s' = objs s" "connections s' = connections s" "srv_loop s' = srv_loop s"
    "ipPort s' = ipPort s" "srv_name s' = srv_name s" "nextConnId s' = nextConnId s" "threadPool s' = threadPool s"
    and "\<forall>p. about p s' = about p s"
  shows "srv_inv s'"
  using assms
  by (simp add: srv_inv_def srv_base_def conn_phase_def in_map_def named_def server_conn_name_def)

lemma runs_functor_ok:
  assumes inv: "srv_inv s"
  shows "\<exists>u. server_step (Runs_functor l) s = Some u \<and> srv_inv u \<and> nextConnId u = nextConnId s"
proof (cases "take_first l (posted s)")
  case None
  with inv show ?thesis by simp
next
  case (Some a)
  then obtain f fs where f: "take_first l (posted s) = Some (f, fs)" by (cases a) auto
  from take_first_Some [OF f] obtain us vs where us: "posted s = us @ (l, f) # vs" "fs = us @ vs" by blast
  note i = srv_invD [OF inv]
  let ?s = "s\<lparr>posted := fs\<rparr>"
  have other: "about q ?s = about q s" if "functor_conn f \<noteq> Some q" for q using that us by (simp add: about_def)
  show ?thesis
  proof (cases "functor_conn f")
    case None
    then have "f = AcceptorListen" by (cases f) simp_all
    moreover have "srv_inv (?s\<lparr>acceptor_listening := True\<rparr>)"
      using other None by (intro srv_inv_cong [OF inv]) (simp_all add: about_def)
    ultimately show ?thesis using f by simp
  next
    case (Some p)
    have ab: "(l, f) \<in> set (about p s)" using Some us by (simp add: about_def)
    then obtain obj where p: "objs s p = Some obj" using i(5) [of p] by fastforce
    have ph: "conn_phase s p obj" by (rule i(3) [OF p])
    then have one: "about p s = [(l, f)]" using ab by (auto simp: conn_phase_def)
    have "about p ?s = []" using one Some us by (auto simp: about_def append_eq_Cons_conv)
    then have abt: "\<forall>q. q \<noteq> p \<longrightarrow> about q ?s = about q s" "about p ?s = []" using other Some by auto
    have o: "objs ?s = objs s" "connections ?s = connections s" by simp_all
    from ph one consider
        "conn_life obj = (kConnecting, False)" "f = ConnectEstablished p"
      | "conn_life obj = (kDisconnected, True)" "in_map s p obj" "f = RemoveConnectionInLoop p"
      | "conn_life obj = (kDisconnected, True)" "\<not> in_map s p obj" "f = ConnectDestroyed p"
      by (auto simp: conn_phase_def)
    then show ?thesis
    proof cases
      case 1
      from established_ok [OF inv p 1(1) refl abt] f 1(2) show ?thesis by simp
    next
      case 2
      have "obj\<lparr>conn_life := (kDisconnected, True)\<rparr> = obj" using 2(1) by simp
      then have "objs ?s = (objs s)(p \<mapsto> obj\<lparr>conn_life := (kDisconnected, True)\<rparr>)" using p by (simp add: fun_upd_idem)
      from removal_ok [OF inv p 2(2) this _ _ _ _ _ _ abt] f 2(3) show ?thesis by simp
    next
      case 3
      from destroyed_ok [OF inv p 3(1,2) refl abt] f 3(3) show ?thesis by simp
    qed
  qed
qed

interpretation servers: safe_machine server_step server_event_ok srv_inv
proof
  fix e and s :: "'a server"
  assume "srv_inv s" "server_event_ok e s"
  then show "\<exists>u. server_step e s = Some u \<and> srv_inv u"
    using newConnection_ok [of s] peer_closes_ok [of s] user_shutdown_ok [of s] runs_functor_ok [of s]
    by (cases e) (simp; blast)+
qed

subsection \<open>A server from its constructor on\<close>

definition server_launch :: "net_lib \<Rightarrow> 'u \<Rightarrow> 'u \<Rightarrow> ptr \<Rightarrow> bytes \<Rightarrow> string \<Rightarrow> int \<Rightarrow> (nat \<Rightarrow> errno + int \<times> tid)
    \<Rightarrow> (nat \<Rightarrow> ptr) \<Rightarrow> 'u server option" where
  "server_launch L conn_cb msg_cb base addr name k create loop_at =
     do { s \<leftarrow> TcpServer L base addr name conn_cb msg_cb;
          s \<leftarrow> server_setThreadNum k s;
          (s, c) \<leftarrow> server_start base create loop_at 0 s;
          Some s }"

lemma server_launch_ok:
  assumes L: "net_laws L" "known_family addr" and k: "0 \<le> k" "k < 2 ^ 31" "creates_ok (nat k) create"
  shows "\<exists>s. server_launch L conn_cb msg_cb base addr name k create loop_at = Some s \<and> srv_inv s
    \<and> acceptor_listening s \<and> srv_name s = name \<and> Some (ipPort s) = InetAddress_toIpPort L addr
    \<and> pool_loops (threadPool s) = map loop_at [0..<nat k] \<and> baseLoop (threadPool s) = srv_loop s
    \<and> objs s = Map.empty \<and> connections s = [] \<and> posted s = [] \<and> nextConnId s = 1"
proof -
  let ?ip = "ip_text L addr @ CHR '':'' # dec (unat (toPort L addr))"
  have ip: "InetAddress_toIpPort L addr = Some ?ip" by (rule toIpPort_text [OF L])
  have len: "length ?ip \<le> 51" using length_ip_text [OF L] length_dec_port [of "toPort L addr"] by simp
  from pool_start_ok [OF k, of False loop_at base name 0] obtain p where
    p: "pool_start False create loop_at (setThreadNum k (EventLoopThreadPool base name), 0) = Some (p, of_nat (nat k))"
      "pool_started p" "next_loop p = 0" "pool_loops p = map loop_at [0..<nat k]" "baseLoop p = base" by auto
  let ?s = "\<lparr>srv_loop = base, ipPort = ?ip, srv_name = name, acceptor_listening = True, threadPool = p,
    srv_connectionCallback = Some conn_cb, srv_messageCallback = Some msg_cb, srv_writeCompleteCallback = None,
    threadInitCallback = False, srv_started = 1, nextConnId = 1, connections = [], objs = Map.empty, posted = []\<rparr>"
  have "server_launch L conn_cb msg_cb base addr name k create loop_at = Some ?s"
    using ip p(1) k(1) by (simp add: server_launch_def TcpServer_def server_setThreadNum_def server_start_def
        getAndSet_def server_runInLoop_def)
  moreover have "srv_inv ?s" using p(2,3) len by (simp add: srv_inv_def srv_base_def about_def)
  ultimately show ?thesis using ip p(4,5) by (intro exI [of _ ?s]) simp
qed

definition server_run :: "net_lib \<Rightarrow> 'u \<Rightarrow> 'u \<Rightarrow> ptr \<Rightarrow> bytes \<Rightarrow> string \<Rightarrow> int \<Rightarrow> (nat \<Rightarrow> errno + int \<times> tid)
    \<Rightarrow> (nat \<Rightarrow> ptr) \<Rightarrow> server_event list \<Rightarrow> 'u server option" where
  "server_run L conn_cb msg_cb base addr name k create loop_at es =
     do { s \<leftarrow> server_launch L conn_cb msg_cb base addr name k create loop_at; run server_step es s }"

definition server_run_ok :: "net_lib \<Rightarrow> 'u \<Rightarrow> 'u \<Rightarrow> ptr \<Rightarrow> bytes \<Rightarrow> string \<Rightarrow> int \<Rightarrow> (nat \<Rightarrow> errno + int \<times> tid)
    \<Rightarrow> (nat \<Rightarrow> ptr) \<Rightarrow> server_event list \<Rightarrow> bool" where
  "server_run_ok L conn_cb msg_cb base addr name k create loop_at es =
     (\<forall>s. server_launch L conn_cb msg_cb base addr name k create loop_at = Some s \<longrightarrow> run_ok server_step server_event_ok es s)"

lemma server_run_inv:
  assumes "net_laws L" "known_family addr" and "0 \<le> k" "k < 2 ^ 31" "creates_ok (nat k) create"
    and "server_run_ok L conn_cb msg_cb base addr name k create loop_at es"
  shows "\<exists>s. server_run L conn_cb msg_cb base addr name k create loop_at es = Some s \<and> srv_inv s"
proof -
  from server_launch_ok [OF assms(1-5), of conn_cb msg_cb base name loop_at] obtain s where
    s: "server_launch L conn_cb msg_cb base addr name k create loop_at = Some s" "srv_inv s" by blast
  from servers.run_safe [OF s(2), of es] s(1) assms(6) show ?thesis by (simp add: server_run_def server_run_ok_def)
qed


definition example_server_events :: "server_event list" where
  "example_server_events = [Accepts 70 [] 5 [], Runs_functor 100, Runs_functor 101]"

abbreviation example_create :: "nat \<Rightarrow> errno + int \<times> tid" where
  "example_create \<equiv> \<lambda>i. Inr (int i, 1)"

abbreviation example_loops :: "nat \<Rightarrow> ptr" where
  "example_loops \<equiv> \<lambda>i. 100 + i"

lemma example_creates: "creates_ok n example_create"
  by (simp add: creates_ok_def)

lemma example_server_ok:
  "server_run_ok example_net (1 :: nat) 2 9 example_addr ''srv'' 2 example_create example_loops example_server_events"
proof -
  from server_launch_ok [OF example_net_laws example_addr_known _ _ example_creates, of 2 "1 :: nat" 2 9 "''srv''" example_loops]
  obtain s where s: "server_launch example_net (1 :: nat) 2 9 example_addr ''srv'' 2 example_create example_loops = Some s"
    "objs s = Map.empty" "nextConnId s = 1" by auto
  then show ?thesis by (auto simp: server_run_ok_def example_server_events_def split: option.splits)
qed


subsection \<open>The destructor\<close>

text \<open>
  During the destructor: \<open>cs\<close> are the entries still in the map, \<open>ps\<close> the connections that other loops
  have been told to destroy.
\<close>

definition dtor_state :: "(string \<times> ptr) list \<Rightarrow> ptr list \<Rightarrow> 'u server \<Rightarrow> bool" where
  "dtor_state cs ps s \<longleftrightarrow> connections s = cs \<and> distinct (ps @ map snd cs) \<and> dom (objs s) = set (ps @ map snd cs)
     \<and> (\<forall>p obj. objs s p = Some obj \<longrightarrow> conn_life obj = (kConnected, True))
     \<and> posted s = map (\<lambda>p. (conn_loop (the (objs s p)), ConnectDestroyed p)) ps"

lemma destroy_one:
  assumes p: "objs s p = Some obj" "conn_life obj = (kConnected, True)" and ref: "\<not> referenced p s"
  shows "call_server (ConnectDestroyed p) s = Some (s\<lparr>objs := (objs s)(p := None)\<rparr>)"
proof -
  let ?v = "s\<lparr>objs := (objs s)(p \<mapsto> obj\<lparr>conn_life := (kDisconnected, False)\<rparr>)\<rparr>"
  have "\<not> referenced p ?v" using ref by (simp add: referenced_def)
  with p show ?thesis by (simp add: modify_life_def release_conn_def)
qed

lemma destroy_connections_ok:
  "dtor_state cs ps s \<Longrightarrow> \<exists>s' qs. destroy_connections cs s = Some s' \<and> dtor_state [] qs s'"
proof (induction cs arbitrary: ps s)
  case Nil
  then show ?case by auto
next
  case (Cons c cs)
  obtain n p where c: "c = (n, p)" by fastforce
  let ?s = "s\<lparr>connections := cs\<rparr>"
  from Cons.prems have d: "distinct (ps @ map snd cs)" "p \<notin> set (ps @ map snd cs)" "dom (objs s) = insert p (set (ps @ map snd cs))"
    "\<forall>p obj. objs s p = Some obj \<longrightarrow> conn_life obj = (kConnected, True)"
    "posted s = map (\<lambda>p. (conn_loop (the (objs s p)), ConnectDestroyed p)) ps"
    by (auto simp: dtor_state_def c)
  then obtain obj where p: "objs s p = Some obj" by blast
  show ?case
  proof (cases "conn_loop obj = srv_loop s")
    case True
    let ?u = "?s\<lparr>objs := (objs s)(p := None)\<rparr>"
    have "\<not> referenced p ?s" using d(2,5) by (auto simp: referenced_def)
    with destroy_one [of ?s p obj] p d(4) have "call_server (ConnectDestroyed p) ?s = Some ?u" by simp
    then have "destroy_connections (c # cs) s = destroy_connections cs ?u"
      using p True by (simp add: c server_runInLoop_def)
    moreover have "dtor_state cs ps ?u" using d by (auto simp: dtor_state_def)
    ultimately show ?thesis using Cons.IH by simp
  next
    case False
    let ?u = "post (conn_loop obj) (ConnectDestroyed p) ?s"
    have "destroy_connections (c # cs) s = destroy_connections cs ?u"
      using p False by (simp add: c server_runInLoop_def)
    moreover have "dtor_state cs (ps @ [p]) ?u" using d p by (auto simp: dtor_state_def post_def)
    ultimately show ?thesis using Cons.IH by simp
  qed
qed

lemma drain_ok:
  "dtor_state [] ps s \<Longrightarrow>
    \<exists>u. run server_step (map (\<lambda>(l, f). Runs_functor l) (posted s)) s = Some u \<and> objs u = Map.empty \<and> posted u = []"
proof (induction ps arbitrary: s)
  case Nil
  then show ?case by (auto simp: dtor_state_def)
next
  case (Cons p ps)
  let ?f = "\<lambda>p. (conn_loop (the (objs s p)), ConnectDestroyed p)"
  from Cons.prems have d: "connections s = []" "distinct ps" "p \<notin> set ps" "dom (objs s) = insert p (set ps)"
    "\<forall>p obj. objs s p = Some obj \<longrightarrow> conn_life obj = (kConnected, True)" "posted s = ?f p # map ?f ps"
    by (auto simp: dtor_state_def)
  then obtain obj where p: "objs s p = Some obj" by blast
  let ?s = "s\<lparr>posted := map ?f ps\<rparr>"
  let ?u = "?s\<lparr>objs := (objs s)(p := None)\<rparr>"
  have "\<not> referenced p ?s" using d(1,3) by (auto simp: referenced_def)
  with destroy_one [of ?s p obj] p d(5) have "server_step (Runs_functor (conn_loop obj)) s = Some ?u"
    using d(6) p by simp
  moreover have ps: "map ?f ps = map (\<lambda>p. (conn_loop (the (objs ?u p)), ConnectDestroyed p)) ps" using d(3) by auto
  then have "dtor_state [] ps ?u" using d by (auto simp: dtor_state_def)
  ultimately show ?case using Cons.IH [of ?u] d(6) p by simp
qed

lemma srv_distinct:
  assumes "srv_inv s"
  shows "distinct (map snd (connections s))"
proof -
  note i = srv_invD [OF assms]
  have d: "distinct (map fst (connections s))" by (rule smap_distinct [OF i(2)])
  have "inj_on snd (set (connections s))"
  proof (rule inj_onI)
    fix a b
    assume ab: "a \<in> set (connections s)" "b \<in> set (connections s)" "snd a = snd b"
    obtain n p k q where "a = (n, p)" "b = (k, q)" by fastforce
    with ab d i(6) [of n p] i(6) [of k q] show "a = b" by auto
  qed
  with d show ?thesis by (simp add: distinct_map)
qed



text \<open>
  A connection of the server's own loop that is shutting down makes the destructor fail: its
  \<open>connectDestroyed\<close> leaves the channel waiting, and \<open>Channel::remove\<close> asserts that it does not.
\<close>

lemma modify_life_frame:
  "modify_life q f t = Some u \<Longrightarrow> \<exists>obj. u = t\<lparr>objs := (objs t)(q \<mapsto> obj)\<rparr>"
  by (auto simp: modify_life_def bind_eq_Some_conv)

lemma release_frame:
  "release_conn q t = Some u \<Longrightarrow> u = t \<or> u = t\<lparr>objs := (objs t)(q := None)\<rparr>"
  by (auto simp: release_conn_def bind_eq_Some_conv split: if_splits)

lemma destroyed_frame:
  assumes "server_runInLoop (srv_loop t) l (ConnectDestroyed q) t = Some u" and "q \<noteq> p"
  shows "objs u p = objs t p \<and> srv_loop u = srv_loop t"
proof (cases "srv_loop t = l")
  case True
  with assms(1) obtain v where "modify_life q life_destroyed t = Some v" "release_conn q v = Some u"
    by (simp add: server_runInLoop_def bind_eq_Some_conv) blast
  from modify_life_frame [OF this(1)] obtain obj where v: "v = t\<lparr>objs := (objs t)(q \<mapsto> obj)\<rparr>" ..
  have "objs v p = objs t p" "srv_loop v = srv_loop t" unfolding v using assms(2) by simp_all
  moreover have "objs u p = objs v p \<and> srv_loop u = srv_loop v"
    using release_frame [OF \<open>release_conn q v = Some u\<close>]
  proof
    assume u: "u = v\<lparr>objs := (objs v)(q := None)\<rparr>"
    show ?thesis unfolding u using assms(2) by simp
  qed simp
  ultimately show ?thesis by simp
next
  case False
  with assms(1) show ?thesis by (simp add: server_runInLoop_def) (use post_simps in metis)
qed

lemma destroy_aborts:
  "(n, p) \<in> set cs \<Longrightarrow> distinct (map snd cs) \<Longrightarrow> objs s p = Some obj \<Longrightarrow> conn_life obj = (kDisconnecting, True) \<Longrightarrow>
    conn_loop obj = srv_loop s \<Longrightarrow> destroy_connections cs s = None"
proof (induction cs arbitrary: s)
  case (Cons c cs)
  obtain m q where c: "c = (m, q)" by fastforce
  show ?case
  proof (cases "q = p")
    case True
    with Cons.prems show ?thesis by (simp add: c server_runInLoop_def modify_life_def)
  next
    case False
    note step = destroyed_frame [OF _ False]
    show ?thesis
    proof (cases "objs s q")
      case None
      then show ?thesis by (simp add: c)
    next
      case (Some ob)
      show ?thesis
      proof (cases "server_runInLoop (srv_loop s) (conn_loop ob) (ConnectDestroyed q) (s\<lparr>connections := cs\<rparr>)")
        case None
        with Some show ?thesis by (simp add: c)
      next
        case (Some u)
        with step [of "s\<lparr>connections := cs\<rparr>" "conn_loop ob" u] Cons.prems False
        have "destroy_connections cs u = None" by (intro Cons.IH) (auto simp: c)
        with Some \<open>objs s q = Some ob\<close> show ?thesis by (simp add: c)
      qed
    qed
  qed
qed simp

theorem server_dtor_disconnecting_aborts:
  assumes "srv_inv s" and "objs s p = Some obj" and "conn_life obj = (kDisconnecting, True)" and "conn_loop obj = srv_loop s"
  shows "TcpServer_dtor s = None"
proof -
  note i = srv_invD [OF assms(1)]
  have m: "map_of (connections s) n = Some p \<longleftrightarrow> (n, p) \<in> set (connections s)" for n p
    using smap_distinct [OF i(2)] by simp
  have "in_map s p obj" using i(3) [OF assms(2)] assms(3) by (auto simp: conn_phase_def)
  then have "(conn_name obj, p) \<in> set (connections s)" by (simp add: in_map_def m)
  with destroy_aborts [OF this _ assms(2-4)] srv_distinct [OF assms(1)] show ?thesis by (simp add: TcpServer_dtor_def)
qed

end
