(* ===== verification/Clients.thy ===== *)
theory Clients
  imports Lives Connectors
begin

text \<open>
  \<^verbatim>\<open>TcpClient.h\<close> and \<^verbatim>\<open>TcpClient.c\<close>: a connector and at most one connection, in one loop. The client is
  the rest of the connector's world: its members, the connection objects it has made, of which only the
  life is kept (theory \<open>Lives\<close>), and the descriptors that are not the connector's. The functors that wait
  in the loop hold references to the connections, beside the member \<open>connection_\<close>.
\<close>

subsection \<open>The class\<close>

text \<open>What the connections' close callback is bound to: \<open>TcpClient::removeConnection\<close> or the function
  \<open>detailremoveConnection\<close>.\<close>

datatype client_close = RemoveConnection | DetailRemoveConnection

record 'u client_conn =
  cc_name :: string
  cc_fd :: fd
  cc_local :: bytes
  cc_peer :: bytes
  cc_life :: life
  cc_close :: "client_close option"
  cc_callbacks :: "'u option \<times> 'u option \<times> 'u option"

datatype client_functor = DestroyConn ptr | ForceCloseConn ptr | SetCloseConn ptr client_close | DropConnector

fun functor_ref :: "client_functor \<Rightarrow> ptr option" where
  "functor_ref (DestroyConn p) = Some p"
| "functor_ref (ForceCloseConn p) = Some p"
| "functor_ref (SetCloseConn p cb) = Some p"
| "functor_ref DropConnector = None"

text \<open>\<open>handed\<close> is kept for the proofs: the descriptors that are open and not the connector's.\<close>

record 'u client =
  client_name :: string
  client_connectionCallback :: "'u option"
  client_messageCallback :: "'u option"
  client_writeCompleteCallback :: "'u option"
  client_retry :: bool
  client_connect_flag :: bool
  client_nextConnId :: int
  connection :: "ptr option"
  client_objs :: "ptr \<Rightarrow> 'u client_conn option"
  handed :: "fd set"

type_synonym 'u client_world = "(client_functor, 'u client) connector_world_scheme"
type_synonym 'u client_op = "'u client_world \<Rightarrow> 'u client_world option"

abbreviation client :: "'u client_world \<Rightarrow> 'u client" where
  "client w \<equiv> connector_world.more w"

abbreviation set_client :: "('u client \<Rightarrow> 'u client) \<Rightarrow> 'u client_world \<Rightarrow> 'u client_world" where
  "set_client f w \<equiv> connector_world.more_update f w"

definition TcpClient :: "bytes \<Rightarrow> string \<Rightarrow> 'u \<Rightarrow> 'u \<Rightarrow> 'u client_world \<Rightarrow> 'u client_world" where
  "TcpClient server nameArg default_connection default_message w =
     (let w = Connector server w
      in set_client (\<lambda>c. \<lparr>client_name = nameArg, client_connectionCallback = Some default_connection,
           client_messageCallback = Some default_message, client_writeCompleteCallback = None, client_retry = False,
           client_connect_flag = True, client_nextConnId = 1, connection = None, client_objs = Map.empty,
           handed = fds w\<rparr>) w)"

definition client_setConnectionCallback :: "'u option \<Rightarrow> 'u client \<Rightarrow> 'u client" where
  "client_setConnectionCallback cb c = c\<lparr>client_connectionCallback := cb\<rparr>"

definition client_setMessageCallback :: "'u option \<Rightarrow> 'u client \<Rightarrow> 'u client" where
  "client_setMessageCallback cb c = c\<lparr>client_messageCallback := cb\<rparr>"

definition client_setWriteCompleteCallback :: "'u option \<Rightarrow> 'u client \<Rightarrow> 'u client" where
  "client_setWriteCompleteCallback cb c = c\<lparr>client_writeCompleteCallback := cb\<rparr>"

definition enableRetry :: "'u client \<Rightarrow> 'u client" where
  "enableRetry c = c\<lparr>client_retry := True\<rparr>"

subsection \<open>The connection objects\<close>

definition modify_conn_life :: "ptr \<Rightarrow> (life \<Rightarrow> life option) \<Rightarrow> 'u client_op" where
  "modify_conn_life p f w =
     do { obj \<leftarrow> client_objs (client w) p; l \<leftarrow> f (cc_life obj);
          Some (set_client (\<lambda>c. c\<lparr>client_objs := (client_objs c)(p \<mapsto> obj\<lparr>cc_life := l\<rparr>)\<rparr>) w) }"

definition queued_ref :: "ptr \<Rightarrow> 'u client_world \<Rightarrow> bool" where
  "queued_ref p w \<longleftrightarrow> Some p \<in> functor_ref ` set (client_functors w)"

text \<open>The end of a \<open>TcpConnectionPtr\<close>; the last one runs the destructor, which asserts the state. Whose
  descriptor it is then is up to the socket's destructor, which is not part of the sources.\<close>

definition drop_ref :: "ptr \<Rightarrow> 'u client_op" where
  "drop_ref p w =
     (if connection (client w) = Some p \<or> queued_ref p w then Some w
      else do { obj \<leftarrow> client_objs (client w) p; chk (fst (cc_life obj) = kDisconnected);
                Some (set_client (\<lambda>c. c\<lparr>client_objs := (client_objs c)(p := None)\<rparr>) w) })"

definition queue_client :: "bool \<Rightarrow> client_functor \<Rightarrow> 'u client_world \<Rightarrow> 'u client_world" where
  "queue_client in_loop u w = queueInLoop in_loop (Functor (ConnectorOther u)) w"

subsection \<open>Operations\<close>

definition client_connect :: "bool \<Rightarrow> env \<Rightarrow> 'u client_op" where
  "client_connect in_loop e w =
     (let w = set_client (\<lambda>c. c\<lparr>client_connect_flag := True\<rparr>) w in start in_loop e w)"

definition client_disconnect :: "'u client_op" where
  "client_disconnect w =
     (let w = set_client (\<lambda>c. c\<lparr>client_connect_flag := False\<rparr>) w
      in case connection (client w) of None \<Rightarrow> Some w | Some p \<Rightarrow> modify_conn_life p life_shutdown w)"

definition client_stop :: "bool \<Rightarrow> 'u client_world \<Rightarrow> 'u client_world" where
  "client_stop in_loop w = (let w = set_client (\<lambda>c. c\<lparr>client_connect_flag := False\<rparr>) w in stop in_loop w)"

text \<open>\<open>p\<close> is the address of the new object, \<open>local\<close> and \<open>peer\<close> what \<open>getsockname\<close> and \<open>getpeername\<close>
  return. The assignment to \<open>connection_\<close> ends the reference that was there.\<close>

definition client_newConnection :: "net_lib \<Rightarrow> ptr \<Rightarrow> errno + bytes \<Rightarrow> errno + bytes \<Rightarrow> fd \<Rightarrow> 'u client_op" where
  "client_newConnection L p local peer sockfd w =
     do { w \<leftarrow> assertInLoopThread True w;
          let peerAddr = getPeerAddr peer;
          ipPort \<leftarrow> InetAddress_toIpPort L peerAddr;
          let id = client_nextConnId (client w);
          let buf = snprintf 32 ('':'' @ ipPort @ ''#'' @ fmt_d id);
          chk (id < 2 ^ 31 - 1);
          let w = set_client (\<lambda>c. c\<lparr>client_nextConnId := id + 1\<rparr>) w;
          let connName = client_name (client w) @ buf;
          let localAddr = getLocalAddr local;
          let obj = \<lparr>cc_name = connName, cc_fd = sockfd, cc_local = localAddr, cc_peer = peerAddr,
                cc_life = (kConnecting, False), cc_close = None, cc_callbacks = (None, None, None)\<rparr>;
          let obj = obj\<lparr>cc_callbacks := (client_connectionCallback (client w), client_messageCallback (client w),
                client_writeCompleteCallback (client w))\<rparr>;
          let obj = obj\<lparr>cc_close := Some RemoveConnection\<rparr>;
          let w = set_client (\<lambda>c. c\<lparr>client_objs := (client_objs c)(p \<mapsto> obj), handed := insert sockfd (handed c)\<rparr>) w;
          let old = connection (client w);
          let w = set_client (\<lambda>c. c\<lparr>connection := Some p\<rparr>) w;
          w \<leftarrow> (case old of None \<Rightarrow> Some w | Some q \<Rightarrow> drop_ref q w);
          w \<leftarrow> modify_conn_life p life_established w;
          drop_ref p w }"

definition client_removeConnection :: "env \<Rightarrow> ptr \<Rightarrow> 'u client_op" where
  "client_removeConnection e p w =
     do { w \<leftarrow> assertInLoopThread True w;
          chk (connection (client w) = Some p);
          let w = set_client (\<lambda>c. c\<lparr>connection := None\<rparr>) w;
          let w = queue_client True (DestroyConn p) w;
          if client_retry (client w) \<and> client_connect_flag (client w) then Connector_restart e w else Some w }"

definition detailremoveConnection :: "ptr \<Rightarrow> 'u client_world \<Rightarrow> 'u client_world" where
  "detailremoveConnection p w = queue_client True (DestroyConn p) w"

definition detailremoveConnector :: "'u client_op" where
  "detailremoveConnector w = Some w"

text \<open>\<open>handleClose\<close> of the connection, with its close callback; the reference it held ends after it.\<close>

definition conn_closes :: "env \<Rightarrow> ptr \<Rightarrow> 'u client_op" where
  "conn_closes e p w =
     do { w \<leftarrow> modify_conn_life p life_closed w;
          obj \<leftarrow> client_objs (client w) p;
          cb \<leftarrow> cc_close obj;
          w \<leftarrow> (case cb of
                 RemoveConnection \<Rightarrow> client_removeConnection e p w
               | DetailRemoveConnection \<Rightarrow> Some (detailremoveConnection p w));
          drop_ref p w }"

definition set_close :: "ptr \<Rightarrow> client_close \<Rightarrow> 'u client_op" where
  "set_close p cb w =
     do { obj \<leftarrow> client_objs (client w) p;
          Some (set_client (\<lambda>c. c\<lparr>client_objs := (client_objs c)(p \<mapsto> obj\<lparr>cc_close := Some cb\<rparr>)\<rparr>) w) }"

text \<open>\<open>TcpConnection::forceClose\<close> and \<open>forceCloseInLoop\<close>.\<close>

definition conn_forceClose :: "bool \<Rightarrow> ptr \<Rightarrow> 'u client_op" where
  "conn_forceClose in_loop p w =
     do { obj \<leftarrow> client_objs (client w) p;
          if fst (cc_life obj) \<in> {kConnected, kDisconnecting}
          then do { w \<leftarrow> modify_conn_life p (\<lambda>(st, reg). Some (kDisconnecting, reg)) w;
                    Some (queue_client in_loop (ForceCloseConn p) w) }
          else Some w }"

fun client_call :: "env \<Rightarrow> client_functor \<Rightarrow> 'u client_op" where
  "client_call e (DestroyConn p) w = do { w \<leftarrow> modify_conn_life p life_destroyed w; drop_ref p w }"
| "client_call e (ForceCloseConn p) w =
     do { obj \<leftarrow> client_objs (client w) p;
          if fst (cc_life obj) \<in> {kConnected, kDisconnecting} then conn_closes e p w else drop_ref p w }"
| "client_call e (SetCloseConn p cb) w = do { w \<leftarrow> set_close p cb w; drop_ref p w }"
| "client_call e DropConnector w = detailremoveConnector w"

text \<open>
  The destructor. \<open>shared\<close> tells whether somebody else holds the connection; \<open>e\<close> has the clock and the
  timer for \<open>runAfter\<close>. The members end after the body: first \<open>connection_\<close> (and the local copy of it),
  then \<open>connector_\<close>, unless the timer holds it.
\<close>

definition TcpClient_dtor :: "bool \<Rightarrow> bool \<Rightarrow> env \<Rightarrow> 'u client_op" where
  "TcpClient_dtor in_loop shared e w =
     (case connection (client w) of
        Some p \<Rightarrow>
          do { let unique = (\<not> shared \<and> \<not> queued_ref p w);
               w \<leftarrow> (if in_loop then set_close p DetailRemoveConnection w
                     else Some (queue_client False (SetCloseConn p DetailRemoveConnection) w));
               w \<leftarrow> (if unique then conn_forceClose in_loop p w else Some w);
               let w = set_client (\<lambda>c. c\<lparr>connection := None\<rparr>) w;
               w \<leftarrow> (if shared then Some w else drop_ref p w);
               Connector_dtor w }
      | None \<Rightarrow>
          do { let w = stop in_loop w;
               (w, tid) \<leftarrow> runAfter (\<lambda>cb w. None) in_loop (retry_now e) (retry_clock e) (timer_mem e) 1
                             (ConnectorOther DropConnector) w;
               Some w })"


subsection \<open>Lemmas\<close>

lemma client_functors_set [simp]: "client_functors (set_client f w) = client_functors w"
  by (simp add: client_functors_def)

lemma queue_client_simps [simp]:
  "client_functors (queue_client b u w) = client_functors w @ [u]" "client (queue_client b u w) = client w"
  "cstate (queue_client b u w) = cstate w" "handlingEvents (queue_client b u w) = handlingEvents w"
  "others (queue_client b u w) = others w" "resets (queue_client b u w) = resets w"
  "timerQueue (queue_client b u w) = timerQueue w" "chans (queue_client b u w) = chans w"
  by (simp_all add: queue_client_def client_functors_def queue_defs others_def owned_def resets_def)

lemma kinv_set_client [simp]: "kinv (set_client f w) = kinv w"
  by (rule kinv_cong) simp_all

lemma others_set_client [simp]: "others (set_client f w) = others w"
  by (simp add: others_def owned_def)

lemma kinv_queue_client: "kinv w \<Longrightarrow> kinv (queue_client b u w)"
  unfolding queue_client_def by (rule kinv_queue(1)) simp_all

definition can_take_conn :: "net_lib \<Rightarrow> ptr \<Rightarrow> errno + bytes \<Rightarrow> 'u client \<Rightarrow> bool" where
  "can_take_conn L p peer c \<longleftrightarrow> net_laws L \<and> known_family (getPeerAddr peer) \<and> client_objs c p = None
     \<and> connection c = None \<and> client_nextConnId c < 2 ^ 31 - 1"

text \<open>The text that \<open>newConnection\<close> prints behind the client's name.\<close>

definition conn_suffix :: "net_lib \<Rightarrow> bytes \<Rightarrow> int \<Rightarrow> string" where
  "conn_suffix L a i = snprintf 32 ('':'' @ (ip_text L a @ CHR '':'' # dec (unat (toPort L a))) @ ''#'' @ fmt_d i)"

definition new_conn :: "net_lib \<Rightarrow> errno + bytes \<Rightarrow> errno + bytes \<Rightarrow> fd \<Rightarrow> 'u client \<Rightarrow> 'u client_conn" where
  "new_conn L local peer sockfd c =
     \<lparr>cc_name = client_name c @ conn_suffix L (getPeerAddr peer) (client_nextConnId c), cc_fd = sockfd,
      cc_local = getLocalAddr local, cc_peer = getPeerAddr peer, cc_life = (kConnected, True),
      cc_close = Some RemoveConnection,
      cc_callbacks = (client_connectionCallback c, client_messageCallback c, client_writeCompleteCallback c)\<rparr>"

definition take_conn :: "net_lib \<Rightarrow> ptr \<Rightarrow> errno + bytes \<Rightarrow> errno + bytes \<Rightarrow> fd \<Rightarrow> 'u client \<Rightarrow> 'u client" where
  "take_conn L p local peer sockfd c =
     c\<lparr>client_nextConnId := client_nextConnId c + 1, connection := Some p,
       client_objs := (client_objs c)(p \<mapsto> new_conn L local peer sockfd c), handed := insert sockfd (handed c)\<rparr>"

lemma client_newConnection_eq:
  assumes "can_take_conn L p peer (client w)"
  shows "client_newConnection L p local peer f w = Some (set_client (take_conn L p local peer f) w)"
proof -
  have ip: "InetAddress_toIpPort L (getPeerAddr peer)
      = Some (ip_text L (getPeerAddr peer) @ CHR '':'' # dec (unat (toPort L (getPeerAddr peer))))"
    using assms toIpPort_text [of L "getPeerAddr peer"] by (simp add: can_take_conn_def)
  show ?thesis
    using assms unfolding client_newConnection_def can_take_conn_def
    by (simp add: ip modify_conn_life_def drop_ref_def assertInLoopThread_def Let_def)
      (intro connector_world.equality, simp_all add: take_conn_def new_conn_def conn_suffix_def)
qed


interpretation taker: connector_client "client_newConnection L p local peer" handed "can_take_conn L p peer"
  for L p local peer
proof
  fix f and w :: "'u client_world"
  assume w: "kinv w" "cstate w = Connected" "f \<in> fds w" "can_take_conn L p peer (client w)"
  then show "\<exists>w'. client_newConnection L p local peer f w = Some w' \<and> kinv w' \<and> cstate w' = Connected
      \<and> cchannel w' = cchannel w \<and> cur_revents w' = cur_revents w \<and> handlingEvents w' = handlingEvents w
      \<and> fds w' = fds w \<and> handed (client w') = insert f (handed (client w))"
    by (simp add: client_newConnection_eq cur_revents_def take_conn_def cong: option.case_cong)
qed

subsection \<open>The invariant\<close>

text \<open>
  The member \<open>connection_\<close> is a connection that is up; every other object is closed, and the functor that
  destroys it waits in the loop once.
\<close>

definition live_conn :: "'u client_conn \<Rightarrow> bool" where
  "live_conn obj \<longleftrightarrow> cc_life obj \<in> {(kConnected, True), (kDisconnecting, True)} \<and> cc_close obj = Some RemoveConnection"

definition client_conn_ok :: "'u client \<Rightarrow> client_functor list \<Rightarrow> ptr \<Rightarrow> bool" where
  "client_conn_ok c us p \<longleftrightarrow>
     (case client_objs c p of
        None \<Rightarrow> connection c \<noteq> Some p \<and> DestroyConn p \<notin> set us
      | Some obj \<Rightarrow>
          if connection c = Some p then live_conn obj \<and> DestroyConn p \<notin> set us
          else cc_life obj = (kDisconnected, True) \<and> count_list us (DestroyConn p) = 1)"

definition conns_ok :: "'u client \<Rightarrow> client_functor list \<Rightarrow> bool" where
  "conns_ok c us \<longleftrightarrow> (\<forall>p. client_conn_ok c us p) \<and> (\<forall>u \<in> set us. \<exists>p. u = DestroyConn p) \<and> 1 \<le> client_nextConnId c"

definition client_inv :: "'u client_world \<Rightarrow> bool" where
  "client_inv w \<longleftrightarrow> kinv w \<and> \<not> handlingEvents w \<and> balanced handed w \<and> conns_ok (client w) (client_functors w)
     \<and> (connection (client w) \<noteq> None \<longrightarrow> cstate w = Connected)"

lemma client_conn_okD:
  assumes "conns_ok c us"
  shows "client_conn_ok c us p"
  using assms by (simp add: conns_ok_def)

lemma conns_ok_connection:
  assumes "conns_ok c us" and "connection c = Some p"
  obtains obj where "client_objs c p = Some obj" "live_conn obj" "DestroyConn p \<notin> set us"
  using client_conn_okD [OF assms(1), of p] assms(2) by (auto simp: client_conn_ok_def split: option.splits)

lemma conns_ok_destroy:
  assumes "conns_ok c us" and "DestroyConn p \<in> set us"
  obtains obj where "client_objs c p = Some obj" "connection c \<noteq> Some p" "cc_life obj = (kDisconnected, True)"
    "count_list us (DestroyConn p) = 1"
  using client_conn_okD [OF assms(1), of p] assms(2) by (auto simp: client_conn_ok_def split: option.splits if_splits)

lemma take_conn_ok:
  assumes ok: "conns_ok c us" and can: "can_take_conn L p peer c"
  shows "conns_ok (take_conn L p local peer f c) us"
proof -
  have "client_conn_ok (take_conn L p local peer f c) us q" for q
    using client_conn_okD [OF ok, of q] can
    by (auto simp: client_conn_ok_def take_conn_def new_conn_def live_conn_def can_take_conn_def split: option.splits)
  with ok show ?thesis by (simp add: conns_ok_def take_conn_def)
qed

text \<open>A step that leaves the client alone, or hands it one connection.\<close>

lemma hands_client_inv:
  assumes inv: "client_inv w" and h: "hands (client_newConnection L p local peer) w w'"
    and can: "can_take_conn L p peer (client w)"
    and w': "kinv w'" "\<not> handlingEvents w'" "balanced handed w \<longrightarrow> balanced handed w'"
  shows "client_inv w'"
proof -
  from h consider "cframe w w'"
    | f u u' where "cframe w u" "client_newConnection L p local peer f u = Some u'" "cframe u' w'" "cstate w' = Connected"
    unfolding hands_def by blast
  then show ?thesis
  proof cases
    case 1
    with inv w' can show ?thesis by (simp add: client_inv_def cframe_def can_take_conn_def)
  next
    case (2 f u u')
    have "u' = set_client (take_conn L p local peer f) u"
      using 2(1,2) can by (simp add: client_newConnection_eq cframe_def)
    then have "client w' = take_conn L p local peer f (client w)" "client_functors w' = client_functors w"
      using 2(1,3) by (simp_all add: cframe_def)
    with inv w' 2(4) take_conn_ok [OF _ can] show ?thesis by (simp add: client_inv_def)
  qed
qed

lemma cframe_client_inv:
  assumes inv: "client_inv w" and fr: "cframe w w'" and con: "cstate w = Connected \<Longrightarrow> cstate w' = Connected"
    and w': "kinv w'" "\<not> handlingEvents w'" "balanced handed w \<longrightarrow> balanced handed w'"
  shows "client_inv w'"
  using inv fr con w' by (auto simp: client_inv_def cframe_def)


subsection \<open>The steps\<close>

text \<open>
  What happens to a client between two turns of its loop: its user's calls, functors, timers and events
  on the connector's channel, as for a connector; \<open>shutdown\<close> of its connection; and the end of its
  connection, which the loop sees as an event after it has run the functors of the turn in which the
  connection was made. In \<open>ClientEvent\<close> the address is that of the next connection object.
\<close>

datatype client_act =
    ClientConnect bool env
  | ClientDisconnect
  | ClientStop bool
  | EnableRetry
  | ClientRun env
  | ClientFire "client_functor connector_cb timer_queue" env
  | ClientTimers "client_functor connector_cb timer_queue"
  | ClientEvent ptr "errno + bytes" "errno + bytes" "32 word" timestamp env
  | ConnShutdown ptr
  | ConnCloses ptr env

fun client_step :: "net_lib \<Rightarrow> (ptr \<Rightarrow> 'u client_world \<Rightarrow> bool) \<Rightarrow> client_act \<Rightarrow> 'u client_op" where
  "client_step L has (ClientConnect in_loop e) w = client_connect in_loop e w"
| "client_step L has ClientDisconnect w = client_disconnect w"
| "client_step L has (ClientStop in_loop) w = Some (client_stop in_loop w)"
| "client_step L has EnableRetry w = Some (set_client enableRetry w)"
| "client_step L has (ClientRun e) w =
     (case pendingFunctors w of
        Functor (ConnectorOther u) # fs \<Rightarrow> client_call e u (w\<lparr>pendingFunctors := fs\<rparr>)
      | _ \<Rightarrow> connector_step (\<lambda>f w. None) has (RunFunctor e) w)"
| "client_step L has (ClientFire q e) w = connector_step (\<lambda>f w. None) has (Fire q e) w"
| "client_step L has (ClientTimers q) w = connector_step (\<lambda>f w. None) has (OtherTimers q) w"
| "client_step L has (ClientEvent p local peer r t e) w =
     connector_step (client_newConnection L p local peer) has (Event r t e) w"
| "client_step L has (ConnShutdown p) w = modify_conn_life p life_shutdown w"
| "client_step L has (ConnCloses p e) w = conn_closes e p w"

fun client_act_ok :: "net_lib \<Rightarrow> client_act \<Rightarrow> 'u client_world \<Rightarrow> bool" where
  "client_act_ok L (ClientConnect in_loop e) w = connector_act_ok (Start in_loop e) w"
| "client_act_ok L (ClientRun e) w = connector_act_ok (RunFunctor e) w"
| "client_act_ok L (ClientFire q e) w = connector_act_ok (Fire q e) w"
| "client_act_ok L (ClientTimers q) w = connector_act_ok (OtherTimers q) w"
| "client_act_ok L (ClientEvent p local peer r t e) w =
     (connector_act_ok (Event r t e) w \<and> known_family (getPeerAddr peer) \<and> client_objs (client w) p = None
      \<and> client_nextConnId (client w) < 2 ^ 31 - 1)"
| "client_act_ok L (ConnShutdown p) w = (connection (client w) = Some p)"
| "client_act_ok L (ConnCloses p e) w = (connection (client w) = Some p \<and> resets w = 0 \<and> env_ok e w)"
| "client_act_ok L _ w = True"

text \<open>Members of the client that no part of the invariant speaks of.\<close>

lemma client_inv_members:
  assumes "client_inv w"
    and "\<And>c. connection (f c) = connection c" "\<And>c. client_objs (f c) = client_objs c"
    and "\<And>c. client_nextConnId (f c) = client_nextConnId c" "\<And>c. handed (f c) = handed c"
  shows "client_inv (set_client f w)"
  using assms by (simp add: client_inv_def balanced_def conns_ok_def client_conn_ok_def cong: option.case_cong)

lemma env_ok_set_client [simp]: "env_ok e (set_client f w) = env_ok e w"
  by (simp add: env_ok_def)

lemma start_client_inv:
  assumes inv: "client_inv w" and ok: "connector_act_ok (Start in_loop e) w"
  shows "\<exists>w'. start in_loop e w = Some w' \<and> client_inv w'"
proof -
  have i: "kinv w" "\<not> handlingEvents w" using inv by (simp_all add: client_inv_def)
  from taker.start_machine [OF i ok] obtain w' where
    w': "start in_loop e w = Some w'" "kinv w'" "\<not> handlingEvents w'" "balanced handed w \<longrightarrow> balanced handed w'" by blast
  let ?u = "w\<lparr>connect_flag := True\<rparr>"
  have "cframe ?u w'"
    using w'(1) cframe_connect [of e ?u] cframe_queue [of "Functor StartInLoop" ?u False]
    by (cases in_loop) (auto simp: start_def runInLoop_def Let_def)
  moreover have "cframe w ?u" by (rule cframe_eq) simp_all
  ultimately have "cframe w w'" using cframe_trans by blast
  moreover have "cstate w \<noteq> Connected" using ok by simp
  ultimately show ?thesis using cframe_client_inv [OF inv] w' by blast
qed

lemma fire_client_inv:
  assumes inv: "client_inv w" and ok: "connector_act_ok (Fire q e) w"
  shows "\<exists>w'. startInLoop e (w\<lparr>timerQueue := q\<rparr>) = Some w' \<and> client_inv w'"
proof -
  have i: "kinv w" "\<not> handlingEvents w" using inv by (simp_all add: client_inv_def)
  from taker.fire_machine [OF i ok] obtain w' where
    w': "startInLoop e (w\<lparr>timerQueue := q\<rparr>) = Some w'" "kinv w'" "\<not> handlingEvents w'"
      "balanced handed w \<longrightarrow> balanced handed w'" by blast
  have "cframe w (w\<lparr>timerQueue := q\<rparr>)" by (rule cframe_eq) simp_all
  then have "cframe w w'" using cframe_connect [OF w'(1)] cframe_trans by blast
  moreover have "starts w \<noteq> 0" using ok starts_0 i(1) by (auto simp: kinv_def kbase_def)
  then have "cstate w \<noteq> Connected" using i(1) by (simp add: kinv_def kstart_def)
  ultimately show ?thesis using cframe_client_inv [OF inv] w' by blast
qed

lemma timers_client_inv:
  assumes inv: "client_inv w" and ok: "connector_act_ok (OtherTimers q) w"
  shows "client_inv (w\<lparr>timerQueue := q\<rparr>)"
proof (rule cframe_client_inv [OF inv])
  have "kinv w" "\<not> handlingEvents w" using inv by (simp_all add: client_inv_def)
  then show "kinv (w\<lparr>timerQueue := q\<rparr>)" "\<not> handlingEvents (w\<lparr>timerQueue := q\<rparr>)"
    "balanced handed w \<longrightarrow> balanced handed (w\<lparr>timerQueue := q\<rparr>)"
    using kinv_timers [of w q] ok by simp_all
  show "cframe w (w\<lparr>timerQueue := q\<rparr>)" by (rule cframe_eq) simp_all
qed simp

lemma event_client_inv:
  assumes inv: "client_inv w" and ok: "client_act_ok L (ClientEvent p local peer r t e) w" and laws: "net_laws L"
  shows "\<exists>w'. connector_event (client_newConnection L p local peer) has r t e w = Some w' \<and> client_inv w'"
proof -
  have i: "kinv w" "\<not> handlingEvents w" using inv by (simp_all add: client_inv_def)
  have o: "cstate w = Connecting" "env_ok e w" using ok by simp_all
  have can: "can_take_conn L p peer (client w)"
    using ok laws o(1) inv by (auto simp: can_take_conn_def client_inv_def)
  from taker.connector_event_kinv [OF i(1) o i(2) can] hands_client_inv [OF inv _ can] show ?thesis by blast
qed

text \<open>A functor of the connector.\<close>

lemma connector_functor_client_inv:
  assumes inv: "client_inv w" and law: "has_law has" and ok: "connector_act_ok (RunFunctor e) w"
    and fs: "pendingFunctors w = f # fs" "client_functor_of f = []"
  shows "\<exists>w'. connector_step (\<lambda>f w. None) has (RunFunctor e) w = Some w' \<and> client_inv w'"
proof -
  have i: "kinv w" "\<not> handlingEvents w" using inv by (simp_all add: client_inv_def)
  let ?u = "w\<lparr>pendingFunctors := fs\<rparr>"
  have fr: "cframe w ?u" using fs by (simp add: cframe_def client_functors_def)
  have same: "connector_step nc has (RunFunctor e) w = connector_step (\<lambda>f w. None) has (RunFunctor e) w" for nc
  proof (cases f)
    case (Functor cb)
    with ok fs show ?thesis by (cases cb) simp_all
  qed (use fs in simp_all)
  let ?nc = "client_newConnection undefined 0 (Inl 0) (Inl 0)"
  from taker.functor_machine [OF law i ok] obtain w' where
    "connector_step ?nc has (RunFunctor e) w = Some w'" and w': "kinv w'" "\<not> handlingEvents w'"
      "balanced handed w \<longrightarrow> balanced handed w'" by blast
  then have step: "connector_step (\<lambda>f w. None) has (RunFunctor e) w = Some w'" using same [of ?nc] by simp
  consider "f = Functor StartInLoop" "startInLoop e ?u = Some w'" | "stopInLoop e ?u = Some w'"
    | "resetChannel has ?u = Some w'" | "w' = ?u"
  proof (cases f)
    case (Functor cb)
    with step fs ok that show ?thesis by (cases cb) simp_all
  qed (use step fs that in simp_all)
  then have "cframe ?u w' \<and> (cstate w = Connected \<longrightarrow> cstate w' = Connected)"
  proof cases
    case 1
    then show ?thesis using kinv_head_start(1) [OF i(1), of fs] fs(1) cframe_connect by auto
  next
    case 2
    then have "cstate w = Connected \<longrightarrow> cstate w' = Connected" by (auto simp: stopInLoop_def assertInLoopThread_def)
    with cframe_stopInLoop [OF 2] show ?thesis by blast
  next
    case 3
    then have "cstate w = Connected \<longrightarrow> cstate w' = Connected"
      by (auto simp: resetChannel_def Channel_dtor_def bind_eq_Some_conv split: option.splits)
    with cframe_resetChannel [OF 3] show ?thesis by blast
  qed auto
  with cframe_client_inv [OF inv cframe_trans [OF fr]] w' step show ?thesis by blast
qed


text \<open>The end of a connection's functor: the object is destroyed.\<close>

lemma destroy_client_inv:
  assumes inv: "client_inv w" and fs: "pendingFunctors w = Functor (ConnectorOther u) # fs"
  shows "\<exists>w'. client_call e u (w\<lparr>pendingFunctors := fs\<rparr>) = Some w' \<and> client_inv w'"
proof -
  let ?u = "w\<lparr>pendingFunctors := fs\<rparr>"
  have us: "client_functors w = u # client_functors ?u" using fs by (simp add: client_functors_def)
  have ok: "conns_ok (client w) (u # client_functors ?u)" using inv us by (simp add: client_inv_def)
  then obtain p where p: "u = DestroyConn p" by (auto simp: conns_ok_def)
  from conns_ok_destroy [OF ok, of p] p obtain obj where
    obj: "client_objs (client w) p = Some obj" "connection (client w) \<noteq> Some p" "cc_life obj = (kDisconnected, True)"
      "count_list (u # client_functors ?u) (DestroyConn p) = 1" by auto
  have none: "DestroyConn p \<notin> set (client_functors ?u)" using obj(4) p by (simp add: count_list_0_iff)
  then have unref: "\<not> queued_ref p (set_client f ?u)" for f
    using ok by (auto simp: queued_ref_def conns_ok_def)
  let ?w = "set_client (\<lambda>c. c\<lparr>client_objs := (client_objs c)(p := None)\<rparr>) ?u"
  have "client_call e u ?u = Some ?w"
    using p obj unref by (simp add: modify_conn_life_def drop_ref_def comp_def)
  moreover have "client_conn_ok (client ?w) (client_functors ?u) q" for q
    using client_conn_okD [OF ok, of q] obj(2) none p
    by (auto simp: client_conn_ok_def split: option.splits if_splits)
  then have "conns_ok (client ?w) (client_functors ?w)" using ok by (simp add: conns_ok_def)
  moreover have "kinv ?u" using inv kinv_pop_base [OF _ fs] by (simp add: client_inv_def)
  then have "kinv ?w" by simp
  moreover have "others ?u = others w" by (simp add: others_def owned_def)
  then have "balanced handed ?w" using inv by (simp add: client_inv_def balanced_def)
  ultimately show ?thesis using inv by (auto simp: client_inv_def)
qed

lemma functor_client_inv:
  assumes inv: "client_inv w" and law: "has_law has" and ok: "connector_act_ok (RunFunctor e) w"
  shows "\<exists>w'. client_step L has (ClientRun e) w = Some w' \<and> client_inv w'"
proof -
  obtain f fs where fs: "pendingFunctors w = f # fs" using ok by (auto simp: neq_Nil_conv)
  show ?thesis
  proof (cases "client_functor_of f")
    case Nil
    then have "client_step L has (ClientRun e) w = connector_step (\<lambda>f w. None) has (RunFunctor e) w"
      using fs by (auto split: pending_functor.split connector_cb.split)
    with connector_functor_client_inv [OF inv law ok fs Nil] show ?thesis by simp
  next
    case (Cons u us)
    then have "f = Functor (ConnectorOther u)" by (cases f rule: client_functor_of.cases) auto
    with fs destroy_client_inv [OF inv, of u fs e] show ?thesis by simp
  qed
qed

text \<open>The life of the connection that is up.\<close>

lemma shutdown_client_inv:
  assumes inv: "client_inv w" and p: "connection (client w) = Some p"
  shows "\<exists>w'. modify_conn_life p life_shutdown w = Some w' \<and> client_inv w'"
proof -
  have ok: "conns_ok (client w) (client_functors w)" using inv by (simp add: client_inv_def)
  from conns_ok_connection [OF ok p] obtain obj where
    obj: "client_objs (client w) p = Some obj" "live_conn obj" "DestroyConn p \<notin> set (client_functors w)" .
  then have reg: "snd (cc_life obj)" by (auto simp: live_conn_def)
  let ?w = "set_client (\<lambda>c. c\<lparr>client_objs := (client_objs c)(p \<mapsto> obj\<lparr>cc_life := (kDisconnecting, True)\<rparr>)\<rparr>) w"
  have "modify_conn_life p life_shutdown w = Some ?w"
    using obj(1) reg by (cases "cc_life obj") (simp add: modify_conn_life_def)
  moreover have "client_conn_ok (client ?w) (client_functors w) q" for q
    using client_conn_okD [OF ok, of q] obj p by (auto simp: client_conn_ok_def live_conn_def split: option.splits)
  then have "conns_ok (client ?w) (client_functors ?w)" using ok by (simp add: conns_ok_def)
  ultimately show ?thesis using inv by (simp add: client_inv_def balanced_def)
qed

text \<open>The client without its connection, whose object is closed and about to be destroyed.\<close>

definition closed_client :: "ptr \<Rightarrow> 'u client_conn \<Rightarrow> 'u client \<Rightarrow> 'u client" where
  "closed_client p obj c = c\<lparr>client_objs := (client_objs c)(p \<mapsto> obj\<lparr>cc_life := (kDisconnected, True)\<rparr>), connection := None\<rparr>"

definition closed_world :: "ptr \<Rightarrow> 'u client_conn \<Rightarrow> 'u client_world \<Rightarrow> 'u client_world" where
  "closed_world p obj w = queue_client True (DestroyConn p) (set_client (closed_client p obj) w)"

lemma closed_world_inv:
  assumes inv: "client_inv w" and p: "connection (client w) = Some p" and obj: "client_objs (client w) p = Some obj"
  shows "client_inv (closed_world p obj w)" "queued_ref p (closed_world p obj w)"
proof -
  have ok: "conns_ok (client w) (client_functors w)" using inv by (simp add: client_inv_def)
  have none: "DestroyConn p \<notin> set (client_functors w)" using conns_ok_connection [OF ok p] by blast
  have "client_conn_ok (closed_client p obj (client w)) (client_functors w @ [DestroyConn p]) q" for q
    using client_conn_okD [OF ok, of q] none p
    by (auto simp: client_conn_ok_def closed_client_def count_list_0_iff split: option.splits)
  then have "conns_ok (closed_client p obj (client w)) (client_functors w @ [DestroyConn p])"
    using ok by (simp add: conns_ok_def closed_client_def)
  with inv show "client_inv (closed_world p obj w)"
    by (auto simp: client_inv_def closed_world_def balanced_def kinv_queue_client closed_client_def)
  show "queued_ref p (closed_world p obj w)" by (force simp: queued_ref_def closed_world_def)
qed

lemma conn_closes_eq:
  assumes inv: "client_inv w" and p: "connection (client w) = Some p" and obj: "client_objs (client w) p = Some obj"
  shows "conn_closes e p w =
    do { w \<leftarrow> (if client_retry (client w) \<and> client_connect_flag (client w)
               then Connector_restart e (closed_world p obj w) else Some (closed_world p obj w));
         drop_ref p w }"
proof -
  have ok: "conns_ok (client w) (client_functors w)" using inv by (simp add: client_inv_def)
  from conns_ok_connection [OF ok p] obj have live: "live_conn obj" by auto
  let ?m = "\<lambda>c. c\<lparr>client_objs := (client_objs c)(p \<mapsto> obj\<lparr>cc_life := (kDisconnected, True)\<rparr>)\<rparr>"
  have "modify_conn_life p life_closed w = Some (set_client ?m w)"
    using live obj by (auto simp: modify_conn_life_def live_conn_def)
  moreover have "client_removeConnection e p (set_client ?m w) =
      (if client_retry (client w) \<and> client_connect_flag (client w)
       then Connector_restart e (closed_world p obj w) else Some (closed_world p obj w))"
    using p by (simp add: client_removeConnection_def assertInLoopThread_def closed_world_def closed_client_def [abs_def] comp_def Let_def)
  ultimately show ?thesis using live by (simp add: conn_closes_def live_conn_def)
qed

lemma closes_client_inv:
  assumes inv: "client_inv w" and p: "connection (client w) = Some p" and reset: "resets w = 0" and env: "env_ok e w"
  shows "\<exists>w'. conn_closes e p w = Some w' \<and> client_inv w'"
proof -
  have ok: "conns_ok (client w) (client_functors w)" using inv by (simp add: client_inv_def)
  from conns_ok_connection [OF ok p] obtain obj where obj: "client_objs (client w) p = Some obj" by blast
  let ?v = "closed_world p obj w"
  note v = closed_world_inv [OF inv p obj]
  then have i: "kinv ?v" "\<not> handlingEvents ?v" by (simp_all add: client_inv_def)
  have st: "cstate ?v = Connected" "resets ?v = 0" "env_ok e ?v"
    using inv p reset env by (simp_all add: client_inv_def closed_world_def env_ok_def resets_def queue_client_def queue_defs)
  have "starts ?v = 0" using i(1) st(1) by (simp add: kinv_def kstart_def)
  then have "startable ?v" using i(1) starts_0 by (auto simp: startable_def kinv_def kbase_def)
  then have "connector_act_ok (Restart e) ?v" using st by simp
  from taker.restart_machine [OF i this] obtain w' where
    w': "Connector_restart e ?v = Some w'" "kinv w'" "\<not> handlingEvents w'" "balanced handed ?v \<longrightarrow> balanced handed w'" by blast
  let ?s = "?v\<lparr>cstate := Disconnected, retryDelayMs := kInitRetryDelayMs, connect_flag := True\<rparr>"
  have "startInLoop e ?s = Some w'"
    using w'(1) by (simp add: Connector_restart_def assertInLoopThread_def Connectors.setState_def Let_def)
  moreover have "cframe ?v ?s" by (rule cframe_eq) simp_all
  ultimately have fr: "cframe ?v w'" using cframe_connect cframe_trans by blast
  have "connection (client ?v) = None" by (simp add: closed_world_def closed_client_def)
  then have "client_inv w'" using v(1) fr w'(2-4) by (simp add: client_inv_def cframe_def)
  moreover have "queued_ref p w'" using v(2) fr by (simp add: queued_ref_def cframe_def)
  ultimately show ?thesis
    using conn_closes_eq [OF inv p obj, of e] w'(1) v by (simp add: drop_ref_def)
qed

lemma client_step_ok:
  assumes inv: "client_inv w" and law: "has_law has" "net_laws L" and ok: "client_act_ok L a w"
  shows "\<exists>w'. client_step L has a w = Some w' \<and> client_inv w'"
proof (cases a)
  case (ClientConnect in_loop e)
  have "client_inv (set_client (\<lambda>c. c\<lparr>client_connect_flag := True\<rparr>) w)" by (rule client_inv_members [OF inv]) simp_all
  from start_client_inv [OF this, of in_loop e] ok ClientConnect show ?thesis
    by (simp add: client_connect_def startable_def resets_def)
next
  case ClientDisconnect
  let ?u = "set_client (\<lambda>c. c\<lparr>client_connect_flag := False\<rparr>) w"
  have u: "client_inv ?u" by (rule client_inv_members [OF inv]) simp_all
  then show ?thesis using ClientDisconnect shutdown_client_inv [OF u]
    by (cases "connection (client w)") (simp_all add: client_disconnect_def)
next
  case (ClientStop in_loop)
  let ?u = "set_client (\<lambda>c. c\<lparr>client_connect_flag := False\<rparr>) w"
  let ?v = "queueInLoop in_loop (Functor StopInLoop) (?u\<lparr>connect_flag := False\<rparr>)"
  have u: "client_inv ?u" by (rule client_inv_members [OF inv]) simp_all
  then have k: "kinv ?u" by (simp add: client_inv_def)
  note flag = kinv_flags(1,2) [OF k refl, where b = False]
  have "client_inv ?v"
  proof (rule cframe_client_inv [OF u])
    show "cframe ?u ?v" by (rule cframe_trans [OF cframe_eq cframe_queue]) simp_all
    show "kinv ?v" by (rule kinv_queue(1) [OF flag(1)]) simp_all
    show "balanced handed ?u \<longrightarrow> balanced handed ?v"
      using kinv_queue(2) [OF flag(1), of "Functor StopInLoop" handed in_loop] flag(2) [of handed] by simp
  qed (use u in \<open>simp_all add: client_inv_def queue_defs\<close>)
  with ClientStop show ?thesis by (simp add: client_stop_def stop_def Let_def)
next
  case EnableRetry
  then show ?thesis using client_inv_members [OF inv, of enableRetry] by (simp add: enableRetry_def)
next
  case (ClientRun e)
  with functor_client_inv [OF inv law(1)] ok show ?thesis by simp
next
  case (ClientFire q e)
  with fire_client_inv [OF inv, of q e] ok show ?thesis by simp
next
  case (ClientTimers q)
  with timers_client_inv [OF inv, of q] ok show ?thesis by simp
next
  case (ClientEvent p local peer r t e)
  with event_client_inv [OF inv _ law(2), of p local peer r t e] ok show ?thesis by simp
next
  case (ConnShutdown p)
  with shutdown_client_inv [OF inv] ok show ?thesis by simp
next
  case (ConnCloses p e)
  with closes_client_inv [OF inv] ok show ?thesis by simp
qed


subsection \<open>Runs of a client\<close>

interpretation client_machine: safe_machine "client_step L has" "client_act_ok L"
    "\<lambda>w. has_law has \<and> net_laws L \<and> client_inv w" for L has
  using client_step_ok by unfold_locales blast

definition client_ready :: "'u client_world \<Rightarrow> bool" where
  "client_ready w \<longleftrightarrow> connector_ready w \<and> client_functors w = []"

definition client_run :: "net_lib \<Rightarrow> (ptr \<Rightarrow> 'u client_world \<Rightarrow> bool) \<Rightarrow> client_act list \<Rightarrow> bytes \<Rightarrow> string \<Rightarrow> 'u \<Rightarrow> 'u
    \<Rightarrow> 'u client_op" where
  "client_run L has acts server nm dc dm w = run (client_step L has) acts (TcpClient server nm dc dm w)"

definition client_run_ok :: "net_lib \<Rightarrow> (ptr \<Rightarrow> 'u client_world \<Rightarrow> bool) \<Rightarrow> client_act list \<Rightarrow> bytes \<Rightarrow> string \<Rightarrow> 'u \<Rightarrow> 'u
    \<Rightarrow> 'u client_world \<Rightarrow> bool" where
  "client_run_ok L has acts server nm dc dm w =
     run_ok (client_step L has) (client_act_ok L) acts (TcpClient server nm dc dm w)"

lemma TcpClient_inv:
  assumes "client_ready w"
  shows "client_inv (TcpClient server nm dc dm w)"
proof -
  have r: "connector_ready w" using assms by (simp add: client_ready_def)
  have "client_functors (Connector server w) = client_functors w" by (simp add: Connector_def client_functors_def)
  with assms Connector_kinv [OF r, of server] show ?thesis
    by (simp add: client_inv_def TcpClient_def Let_def balanced_def conns_ok_def client_conn_ok_def client_ready_def
        Connector_def)
qed

lemma client_run_inv:
  assumes "net_laws L" and "has_law has" and "client_ready w" and "client_run_ok L has acts server nm dc dm w"
  shows "\<exists>w'. client_run L has acts server nm dc dm w = Some w' \<and> client_inv w'"
  using client_machine.run_safe TcpClient_inv [OF assms(3)] assms(1,2,4)
  unfolding client_run_def client_run_ok_def by blast

text \<open>C35: Calls, functors, timers, connects, ends of connections and automatic reconnects, in any order that
  keeps to the protocol, never make a client, its connector or a connection fail an assertion. The client has
  at most one connection, which is up while the connector is connected; every other connection object is
  closed and will be destroyed by exactly one functor.\<close>

theorem client_safe:
  fixes w :: "'u client_world"
  assumes "net_laws L" and "has_law has" and "client_ready w" and "client_run_ok L has acts server nm dc dm w"
  shows "\<exists>w'. client_run L has acts server nm dc dm w = Some w' \<and>
    (\<forall>p. connection (client w') = Some p \<longrightarrow> cstate w' = Connected \<and> client_objs (client w') p \<noteq> None) \<and>
    (\<forall>p obj. client_objs (client w') p = Some obj \<longrightarrow>
      (if connection (client w') = Some p then fst (cc_life obj) \<in> {kConnected, kDisconnecting}
       else fst (cc_life obj) = kDisconnected \<and> count_list (client_functors w') (DestroyConn p) = 1))"
proof -
  from client_run_inv [OF assms] obtain w' where
    w': "client_run L has acts server nm dc dm w = Some w'" "client_inv w'" by blast
  then have "client_conn_ok (client w') (client_functors w') p" for p by (simp add: client_inv_def conns_ok_def)
  with w' show ?thesis
    by (fastforce simp: client_inv_def client_conn_ok_def live_conn_def split: option.splits if_splits)
qed

text \<open>C36: A client that is connecting gets its connection: if the pending connect succeeded, the event of the
  connector's descriptor ends with the client connected, through a new connection object over exactly that
  descriptor, established, with the client's callbacks and the next number.\<close>

theorem client_connects:
  fixes w :: "'u client_world"
  assumes run: "net_laws L" "has_law has" "client_ready w" "client_run_ok L has acts server nm dc dm w"
      "client_run L has acts server nm dc dm w = Some u"
    and ok: "client_act_ok L (ClientEvent p local peer r t e) u" and flag: "connect_flag u"
    and ev: "is_write r" "\<not> is_error r"
    and good: "getSocketError (so_error e) = 0" "\<not> isSelfConnect (sockname e) (peername e)"
  shows "\<exists>v q ch obj. client_step L has (ClientEvent p local peer r t e) u = Some v \<and> cstate v = Connected
    \<and> connection (client v) = Some p \<and> client_objs (client v) p = Some obj
    \<and> cchannel u = Some q \<and> chans u q = Some ch \<and> cc_fd obj = fd ch \<and> cc_life obj = (kConnected, True)
    \<and> cc_callbacks obj = (client_connectionCallback (client u), client_messageCallback (client u),
        client_writeCompleteCallback (client u))
    \<and> client_nextConnId (client v) = client_nextConnId (client u) + 1"
proof -
  have inv: "client_inv u" using client_run_inv [OF run(1-4)] run(5) by simp
  then have i: "kinv u" "\<not> handlingEvents u" by (simp_all add: client_inv_def)
  have o: "cstate u = Connecting" "env_ok e u" using ok by simp_all
  have can: "can_take_conn L p peer (client u)" using ok run(1) o(1) inv by (auto simp: can_take_conn_def client_inv_def)
  obtain v a b f where v: "connector_event (client_newConnection L p local peer) has r t e u = Some v" "cstate v = Connected"
    and fr: "cframe u a" "client_newConnection L p local peer f a = Some b" "cframe b v" and f: "owned u = {f}"
    using taker.connected_event [where L = L and p = p and local = local and peer = peer, OF i(1) o(1) flag o(2) i(2) can ev good] by blast
  have "b = set_client (take_conn L p local peer f) a"
    using fr(1,2) can by (simp add: client_newConnection_eq cframe_def)
  then have "client v = take_conn L p local peer f (client u)" using fr(1,3) by (simp add: cframe_def)
  moreover have "f \<in> owned u" using f by simp
  then obtain q ch where "cchannel u = Some q" "chans u q = Some ch" "fd ch = f"
    using o(1) by (auto simp: owned_def)
  ultimately show ?thesis using v by (simp add: take_conn_def new_conn_def)
qed

text \<open>C39: The names of two connections of a client to the same server: \<open>newConnection\<close> prints into 32 bytes, so
  they differ exactly if what is left of the number after the address and the port does. An address text
  that leaves no room, as those of IPv6 may be, gives all connections the same name.\<close>

theorem client_conn_names:
  fixes w v :: "'u client_world"
  assumes w: "can_take_conn L p peer (client w)" "1 \<le> client_nextConnId (client w)"
    and v: "can_take_conn L q peer (client v)" "1 \<le> client_nextConnId (client v)"
    and same: "client_name (client v) = client_name (client w)"
    and t: "InetAddress_toIpPort L (getPeerAddr peer) = Some t"
  shows "\<exists>w' v' obj obj'. client_newConnection L p local peer f w = Some w' \<and> client_objs (client w') p = Some obj
    \<and> client_newConnection L q local peer g v = Some v' \<and> client_objs (client v') q = Some obj'
    \<and> (cc_name obj = cc_name obj') =
      (take (29 - length t) (dec (nat (client_nextConnId (client w)))) =
       take (29 - length t) (dec (nat (client_nextConnId (client v)))))
    \<and> (29 \<le> length t \<longrightarrow> cc_name obj = cc_name obj')"
proof -
  let ?a = "getPeerAddr peer"
  have t': "ip_text L ?a @ CHR '':'' # dec (unat (toPort L ?a)) = t"
    using t w(1) toIpPort_text [of L ?a] by (simp add: can_take_conn_def)
  have "conn_suffix L ?a i = take 31 (CHR '':'' # t) @ take (30 - length t) (CHR ''#'' # dec (nat i))" if "1 \<le> i" for i
    using that unfolding conn_suffix_def t' by (simp add: snprintf_def fmt_d_def take_Cons' numeral_eq_Suc)
  note suffix = this
  have "(conn_suffix L ?a i = conn_suffix L ?a j) = (take (29 - length t) (dec (nat i)) = take (29 - length t) (dec (nat j)))"
    if "1 \<le> i" "1 \<le> j" for i j
  proof (cases "30 - length t")
    case (Suc k)
    then have "29 - length t = k" by linarith
    with Suc that show ?thesis by (simp add: suffix)
  qed (use that in \<open>simp add: suffix\<close>)
  with w v same show ?thesis
    by (simp add: client_newConnection_eq take_conn_def new_conn_def)
qed

text \<open>C38: After a connection has ended without an automatic reconnect, the connector still says that it is
  connected: the next \<open>connect\<close> fails the assertion of \<open>startInLoop\<close>, although the client has no connection.\<close>

theorem client_connect_again_aborts:
  fixes w :: "'u client_world"
  assumes run: "net_laws L" "has_law has" "client_ready w" "client_run_ok L has acts server nm dc dm w"
      "client_run L has acts server nm dc dm w = Some u"
    and p: "connection (client u) = Some p" and no: "\<not> client_retry (client u) \<or> \<not> client_connect_flag (client u)"
  shows "\<exists>v. conn_closes e p u = Some v \<and> connection (client v) = None \<and> client_connect True e' v = None"
proof -
  have inv: "client_inv u" using client_run_inv [OF run(1-4)] run(5) by simp
  then have "conns_ok (client u) (client_functors u)" by (simp add: client_inv_def)
  from conns_ok_connection [OF this p] obtain obj where obj: "client_objs (client u) p = Some obj" by blast
  let ?v = "closed_world p obj u"
  have "conn_closes e p u = Some ?v"
    using conn_closes_eq [OF inv p obj, of e] no closed_world_inv(2) [OF inv p obj] by (auto simp: drop_ref_def)
  moreover have "connection (client ?v) = None" "cstate ?v = Connected"
    using inv p by (simp_all add: closed_world_def closed_client_def client_inv_def)
  ultimately show ?thesis
    by (auto simp: client_connect_def start_def runInLoop_def startInLoop_def assertInLoopThread_def)
qed


text \<open>The functors that the destructor leaves behind.\<close>

definition dying_conn :: "'u client_conn \<Rightarrow> life \<Rightarrow> 'u client_conn" where
  "dying_conn obj l = obj\<lparr>cc_close := Some DetailRemoveConnection, cc_life := l\<rparr>"

lemma dying_conn_simps [simp]:
  "cc_close (dying_conn obj l) = Some DetailRemoveConnection" "cc_life (dying_conn obj l) = l"
  "(dying_conn obj l)\<lparr>cc_life := m\<rparr> = dying_conn obj m"
  by (simp_all add: dying_conn_def)

lemma run_functor:
  "pendingFunctors w = Functor (ConnectorOther u) # fs \<Longrightarrow>
    client_step L has (ClientRun e) w = client_call e u (w\<lparr>pendingFunctors := fs\<rparr>)"
  by simp

lemma dtor_eq:
  assumes p: "connection (client u) = Some p" and obj: "client_objs (client u) p = Some obj" "live_conn obj"
    and none: "cchannel u = None" "pendingFunctors u = []"
  shows "\<exists>v. TcpClient_dtor True False e u = Some v \<and> connection (client v) = None
    \<and> client_objs (client v) = (client_objs (client u))(p \<mapsto> dying_conn obj (kDisconnecting, True))
    \<and> pendingFunctors v = [Functor (ConnectorOther (ForceCloseConn p))]"
proof -
  have unref: "\<not> queued_ref p u" using none(2) by (simp add: queued_ref_def client_functors_def)
  let ?o = "\<lambda>ob c. c\<lparr>client_objs := (client_objs c)(p \<mapsto> ob)\<rparr>"
  let ?u = "set_client (?o (obj\<lparr>cc_close := Some DetailRemoveConnection\<rparr>)) u"
  let ?v = "queue_client True (ForceCloseConn p) (set_client (?o (dying_conn obj (kDisconnecting, True))) ?u)"
  have s: "set_close p DetailRemoveConnection u = Some ?u" using obj(1) by (simp add: set_close_def)
  have "snd (cc_life obj)" "fst (cc_life obj) \<in> {kConnected, kDisconnecting}" using obj(2) by (auto simp: live_conn_def)
  then have f: "conn_forceClose True p ?u = Some ?v"
    by (cases "cc_life obj") (auto simp: conn_forceClose_def modify_conn_life_def dying_conn_def)
  have q: "queued_ref p (set_client g ?v)" for g by (force simp: queued_ref_def)
  have "TcpClient_dtor True False e u = Some (set_client (\<lambda>c. c\<lparr>connection := None\<rparr>) ?v)"
    using p unref s f q none(1)
    by (simp add: TcpClient_dtor_def drop_ref_def Connector_dtor_def Let_def) (simp add: queue_client_def queue_defs)
  then show ?thesis using none(2) by (simp add: queue_client_def queue_defs)
qed

lemma force_closed:
  assumes obj: "client_objs (client v) p = Some (dying_conn obj (kDisconnecting, True))" and c: "connection (client v) = None"
    and fs: "pendingFunctors v = [Functor (ConnectorOther (ForceCloseConn p))]"
  shows "\<exists>v'. client_step L has (ClientRun e) v = Some v' \<and> connection (client v') = None
    \<and> client_objs (client v') = (client_objs (client v))(p \<mapsto> dying_conn obj (kDisconnected, True))
    \<and> pendingFunctors v' = [Functor (ConnectorOther (DestroyConn p))]"
proof -
  let ?u = "v\<lparr>pendingFunctors := []\<rparr>"
  let ?m = "set_client (\<lambda>c. c\<lparr>client_objs := (client_objs c)(p \<mapsto> dying_conn obj (kDisconnected, True))\<rparr>) ?u"
  let ?v = "queue_client True (DestroyConn p) ?m"
  have "modify_conn_life p life_closed ?u = Some ?m"
    using obj by (simp add: modify_conn_life_def)
  moreover have "queued_ref p ?v" by (force simp: queued_ref_def)
  ultimately have "conn_closes e p ?u = Some ?v"
    using c by (simp add: conn_closes_def detailremoveConnection_def drop_ref_def)
  then have "client_step L has (ClientRun e) v = Some ?v"
    using obj unfolding run_functor [OF fs] by simp
  then show ?thesis using c by (simp add: queue_client_def queue_defs)
qed

lemma destroyed_last:
  assumes obj: "client_objs (client v) p = Some (dying_conn obj (kDisconnected, True))" and c: "connection (client v) = None"
    and fs: "pendingFunctors v = [Functor (ConnectorOther (DestroyConn p))]"
  shows "\<exists>v'. client_step L has (ClientRun e) v = Some v' \<and> client_objs (client v') = (client_objs (client v))(p := None)
    \<and> pendingFunctors v' = []"
proof -
  let ?u = "v\<lparr>pendingFunctors := []\<rparr>"
  have "\<not> queued_ref p (set_client f ?u)" for f by (simp add: queued_ref_def) (simp add: client_functors_def)
  then show ?thesis
    using obj c unfolding run_functor [OF fs] by (simp add: modify_conn_life_def drop_ref_def comp_def)
qed



subsection \<open>Examples\<close>

text \<open>A client that connects: the call, the event on the connector's channel, and the functor after it.\<close>

definition client_has :: "ptr \<Rightarrow> 'u client_world \<Rightarrow> bool" where
  "client_has p w = (case chans w p of None \<Rightarrow> False | Some ch \<Rightarrow> channels w (fd ch) = Some p)"

definition example_client_world :: "nat client_world" where
  "example_client_world = connector_world.extend
     (net_world.extend (loop_world.extend (EventLoop 1 16 0)
        \<lparr>fds = {0, 1, 2}, fd_limit = 4, files = {}, busy = {}, bound = Map.empty, listeners = {}, backlog = []\<rparr>)
      (connector_world.fields [2] False Disconnected None 500))
     \<lparr>client_name = [], client_connectionCallback = None, client_messageCallback = None,
       client_writeCompleteCallback = None, client_retry = False, client_connect_flag = False, client_nextConnId = 1,
       connection = None, client_objs = Map.empty, handed = {}\<rparr>"

definition second_env :: env where
  "second_env = (example_env (Inr ()))\<lparr>timer_mem := 6, channel_mem := 10, sockname := Inr (replicate 28 1),
     peername := Inr example_addr\<rparr>"

definition example_connect :: "client_act list" where
  "example_connect = [ClientConnect True (example_env (Inl EINPROGRESS)),
     ClientEvent 7 (Inr example_addr) (Inr example_addr) 4 (Timestamp 9) second_env, ClientRun second_env]"

lemma client_has_law: "has_law client_has"
  by (simp add: has_law_def client_has_def split: option.split)

lemma example_client_ready: "client_ready example_client_world"
  using tq_inv_TimerQueue
  by (simp add: client_ready_def connector_ready_def startable_def resets_def linv_def pinv_def)
    (simp add: example_client_world_def example_connector_defs EventLoop_def poll_world.defs EPollPoller_def client_functors_def)

abbreviation example_client :: "nat client_world" where
  "example_client \<equiv> TcpClient [2] ''c'' 1 2 example_client_world"

definition untouched :: "nat client_world \<Rightarrow> bool" where
  "untouched w \<longleftrightarrow> chans w 10 = None \<and> heap (timerQueue w) 6 = None \<and> s_numCreated (timerQueue w) = 0"

lemma untouched_env_ok: "untouched w \<Longrightarrow> env_ok second_env w"
  by (simp add: untouched_def env_ok_def second_env_def example_env_def sane_time_def UINTPTR_MAX_def INT64_MAX_def)

lemma example_steps:
  "case client_step example_net client_has (example_connect ! 0) example_client of None \<Rightarrow> False | Some v \<Rightarrow>
     cstate v = Connecting \<and> connect_flag v \<and> untouched v \<and> client_objs (client v) 7 = None \<and> client_nextConnId (client v) = 1 \<and>
     (case client_step example_net client_has (example_connect ! 1) v of None \<Rightarrow> False | Some w \<Rightarrow>
        untouched w \<and> pendingFunctors w = [Functor ResetChannel] \<and>
        (case client_step example_net client_has (example_connect ! 2) w of None \<Rightarrow> False | Some u \<Rightarrow>
           connection (client u) = Some 7 \<and> pendingFunctors u = [] \<and> \<not> client_retry (client u)))"
  by code_simp


lemma example_run:
  "client_run_ok example_net client_has example_connect [2] ''c'' 1 2 example_client_world"
  "\<exists>u. client_run example_net client_has example_connect [2] ''c'' 1 2 example_client_world = Some u
    \<and> connection (client u) = Some 7 \<and> pendingFunctors u = [] \<and> \<not> client_retry (client u)"
proof -
  let ?step = "\<lambda>n. client_step example_net client_has (example_connect ! n)"
  obtain v w u where v: "?step 0 example_client = Some v" "cstate v = Connecting" "untouched v"
      "client_objs (client v) 7 = None" "client_nextConnId (client v) = 1"
    and w: "?step 1 v = Some w" "untouched w" "pendingFunctors w = [Functor ResetChannel]"
    and u: "?step 2 w = Some u" "connection (client u) = Some 7" "pendingFunctors u = []" "\<not> client_retry (client u)"
    using example_steps by (auto split: option.splits simp del: client_step.simps)
  have acts: "example_connect = [example_connect ! 0, example_connect ! 1, example_connect ! 2]"
    by (simp add: example_connect_def)
  have "client_run example_net client_has example_connect [2] ''c'' 1 2 example_client_world = Some u"
    unfolding client_run_def by (subst acts) (simp only: run.simps v(1) w(1) u(1) bind.bind_lunit)
  with u show "\<exists>u. client_run example_net client_has example_connect [2] ''c'' 1 2 example_client_world = Some u
    \<and> connection (client u) = Some 7 \<and> pendingFunctors u = [] \<and> \<not> client_retry (client u)" by blast
  have s: "pendingFunctors example_client = []" "timerQueue example_client = TimerQueue 0"
      "chans example_client = Map.empty" "cstate example_client = Disconnected"
    by (simp_all add: TcpClient_def Let_def Connector_def example_client_world_def example_connector_defs EventLoop_def
        poll_world.defs EPollPoller_def)
  then have "client_act_ok example_net (example_connect ! 0) example_client"
    using example_env_ok [of example_client] by (simp add: example_connect_def startable_def resets_def)
  moreover have "client_act_ok example_net (example_connect ! 1) v"
    using v(2-5) untouched_env_ok example_addr_known by (simp add: example_connect_def getPeerAddr_def write_at_def example_addr_def)
  moreover have "client_act_ok example_net (example_connect ! 2) w"
    using w(2,3) untouched_env_ok by (simp add: example_connect_def)
  ultimately show "client_run_ok example_net client_has example_connect [2] ''c'' 1 2 example_client_world"
    unfolding client_run_ok_def by (subst acts) (simp only: run_ok.simps v(1) w(1) u(1) option.case simp_thms)
qed

theorem client_safe_witness:
  "\<exists>w'. client_run example_net client_has example_connect [2] ''c'' 1 2 example_client_world = Some w' \<and>
    (\<forall>p. connection (client w') = Some p \<longrightarrow> cstate w' = Connected \<and> client_objs (client w') p \<noteq> None) \<and>
    (\<forall>p obj. client_objs (client w') p = Some obj \<longrightarrow>
      (if connection (client w') = Some p then fst (cc_life obj) \<in> {kConnected, kDisconnecting}
       else fst (cc_life obj) = kDisconnected \<and> count_list (client_functors w') (DestroyConn p) = 1))"
  by (rule client_safe [OF example_net_laws client_has_law example_client_ready example_run(1)])

text \<open>The same client after its call of \<open>connect\<close>.\<close>

lemma example_connecting:
  "client_run_ok example_net client_has [example_connect ! 0] [2] ''c'' 1 2 example_client_world"
  "\<exists>u. client_run example_net client_has [example_connect ! 0] [2] ''c'' 1 2 example_client_world = Some u
    \<and> connect_flag u \<and> client_act_ok example_net (example_connect ! 1) u"
proof -
  let ?step = "\<lambda>n. client_step example_net client_has (example_connect ! n)"
  obtain u where u: "?step 0 example_client = Some u" "cstate u = Connecting" "untouched u" "connect_flag u"
      "client_objs (client u) 7 = None" "client_nextConnId (client u) = 1"
    using example_steps by (auto split: option.splits simp del: client_step.simps)
  then show "\<exists>u. client_run example_net client_has [example_connect ! 0] [2] ''c'' 1 2 example_client_world = Some u
    \<and> connect_flag u \<and> client_act_ok example_net (example_connect ! 1) u"
    unfolding client_run_def
    using untouched_env_ok example_addr_known
    by (simp add: example_connect_def getPeerAddr_def write_at_def example_addr_def del: client_step.simps)
  show "client_run_ok example_net client_has [example_connect ! 0] [2] ''c'' 1 2 example_client_world"
    using example_run(1) unfolding client_run_ok_def
    by (simp add: example_connect_def del: client_step.simps split: option.splits)
qed

theorem client_connects_witness:
  "\<exists>u v q ch obj. client_run example_net client_has [example_connect ! 0] [2] ''c'' 1 2 example_client_world = Some u
    \<and> client_step example_net client_has (example_connect ! 1) u = Some v \<and> cstate v = Connected
    \<and> connection (client v) = Some 7 \<and> client_objs (client v) 7 = Some obj
    \<and> cchannel u = Some q \<and> chans u q = Some ch \<and> cc_fd obj = fd ch"
proof -
  obtain u where u: "client_run example_net client_has [example_connect ! 0] [2] ''c'' 1 2 example_client_world = Some u"
      "connect_flag u" "client_act_ok example_net (example_connect ! 1) u" using example_connecting(2) by blast
  have a: "example_connect ! 1 = ClientEvent 7 (Inr example_addr) (Inr example_addr) 4 (Timestamp 9) second_env"
    by (simp add: example_connect_def)
  have r: "is_write 4" "\<not> is_error 4" by code_simp+
  have g: "getSocketError (so_error second_env) = 0" "\<not> isSelfConnect (sockname second_env) (peername second_env)" by code_simp+
  from client_connects [OF example_net_laws client_has_law example_client_ready example_connecting(1) u(1) u(3) [unfolded a] u(2) r g] u(1) a
  show ?thesis by auto
qed

theorem client_connect_again_aborts_witness:
  "\<exists>u v. client_run example_net client_has example_connect [2] ''c'' 1 2 example_client_world = Some u
    \<and> conn_closes second_env 7 u = Some v \<and> connection (client v) = None \<and> client_connect True second_env v = None"
proof -
  obtain u where u: "client_run example_net client_has example_connect [2] ''c'' 1 2 example_client_world = Some u"
      "connection (client u) = Some 7" "\<not> client_retry (client u)" using example_run(2) by blast
  from client_connect_again_aborts [OF example_net_laws client_has_law example_client_ready example_run(1) u(1,2), of second_env second_env]
    u show ?thesis by auto
qed


text \<open>Two connections to the IPv6 address of 32 hexadecimal digits, the first and the second of their client.\<close>

definition long_addr :: bytes where
  "long_addr = [10, 0, 0, 80] @ replicate 24 1"

theorem client_conn_names_witness:
  "\<exists>w' v' obj obj'. client_newConnection example_net 7 (Inl 0) (Inr long_addr) 3 example_client = Some w'
    \<and> client_objs (client w') 7 = Some obj
    \<and> client_newConnection example_net 7 (Inl 0) (Inr long_addr) 3
        (set_client (\<lambda>c. c\<lparr>client_nextConnId := 2\<rparr>) example_client) = Some v'
    \<and> client_objs (client v') 7 = Some obj' \<and> cc_name obj = cc_name obj'"
proof -
  let ?v = "set_client (\<lambda>c. c\<lparr>client_nextConnId := 2\<rparr>) example_client"
  have len: "length long_addr = 28" by (simp add: long_addr_def)
  have a: "getPeerAddr (Inr long_addr) = long_addr" by (simp add: getPeerAddr_def write_at_def len)
  have k: "known_family long_addr" "family long_addr = AF_INET6"
    by (simp_all add: known_family_def long_addr_def family_def read_at_def load16_def inet_consts)
  have t: "InetAddress_toIpPort example_net long_addr
      = Some (ip_text example_net long_addr @ CHR '':'' # dec (unat (toPort example_net long_addr)))"
    by (rule toIpPort_text [OF example_net_laws k(1)])
  have "length (ip_text example_net long_addr) = 32"
    using k(2) len by (simp add: ip_text_def example_net_def length_hex sin6_addr_def)
  then have l: "29 \<le> length (ip_text example_net long_addr @ CHR '':'' # dec (unat (toPort example_net long_addr)))"
    by simp
  have c: "connection (client example_client) = None" "client_objs (client example_client) = Map.empty"
      "client_nextConnId (client example_client) = 1" by (simp_all add: TcpClient_def Let_def)
  have "can_take_conn example_net 7 (Inr long_addr) (client example_client)"
      "can_take_conn example_net 7 (Inr long_addr) (client ?v)"
    using a k(1) c example_net_laws by (simp_all add: can_take_conn_def)
  from client_conn_names [OF this(1) _ this(2), unfolded a, OF _ _ _ t, of "Inl 0" 3 3] c l show ?thesis by auto
qed

end
