(* ===== verification/Spec2Isabelle.thy ===== *)
theory Spec2Isabelle
  imports Connections Acceptors Connectors Descriptors Servers Clients
begin

text \<open>
  \<^bold>\<open>SimpleNetBase\<close>: a verification development for the network library under \<^verbatim>\<open>src/SrcFile\<close>, a reactor
  in the style of muduo. One thread runs one \<^verbatim>\<open>EventLoop\<close>; the loop waits in a \<^verbatim>\<open>Poller\<close> for events on
  \<^verbatim>\<open>Channel\<close>s, calls their handlers, and then runs the functors that other threads and the handlers have
  queued. Timers, acceptors, connectors and connections are built on channels and functors; a server is an
  acceptor with a pool of loops and a map of connections, a client a connector with one connection.

  \<^bold>\<open>Conventions.\<close> A class is a record, or the extension of the record of the state it works on; an
  operation is a function that returns the new state as an option, where \<open>None\<close> is a failed \<open>assert\<close>,
  an \<open>abort\<close>, an empty \<open>boost::function\<close> called, the use of an object after its deletion, or a signed
  overflow (\<open>chk\<close>, theory \<open>Prelude\<close>). Objects live at addresses (\<open>ptr\<close>) in maps. What the operating
  system answers (clock, descriptors, results of \<open>read\<close>, \<open>write\<close>, \<open>connect\<close>, \<open>epoll_wait\<close>) is an argument of the
  operation. Callbacks of users are parameters, either with a contract (a locale) or as scripts of calls. A
  machine is a step function over a list of events with a protocol, \<open>run\<close> and \<open>run_ok\<close>; the locales
  \<open>safe_machine\<close> and \<open>safe_machine_with\<close> lift invariants of steps to runs. Concurrency is a step relation
  whose steps are the critical sections of the code, with the locale \<open>step_invariant\<close>.

  \<^bold>\<open>Theories\<close>, in the order of the dependencies, with the sources they model and what they show.
  \<^item> \<open>Prelude\<close>: \<open>std::set\<close> as strictly sorted lists, assertions, machines. \<open>Machine\<close>: 64-bit integers, binary
    floating point as rationals rounded to 53 bits (half to even), the conversions of \<open>snprintf\<close>.
  \<^item> \<open>Timestamps\<close> (\<^verbatim>\<open>Timestamp.h\<close>, \<^verbatim>\<open>Timestamp.c\<close>): arithmetic with its overflows, printing; printing loses
    nothing. \<open>Atomics\<close> (\<^verbatim>\<open>Atomic.h\<close>): tickets of a counter are distinct until it has gone round.
  \<^item> \<open>Timers\<close> (\<^verbatim>\<open>Timer.*\<close>, \<^verbatim>\<open>TimerId.h\<close>, \<^verbatim>\<open>TimerQueue.*\<close>): the two ordered sets, the timer descriptor, cancelling
    inside callbacks. Runs are safe and leak no timer; the queue refines a schedule from timer
    identities to (callback, due time, interval); a queue that is not empty is always armed.
  \<^item> \<open>Channels\<close> (\<^verbatim>\<open>Channel.*\<close>): dispatch of an event, equal to the list of callbacks that the bits select, with
    the locale of what a channel needs from its loop. \<open>Pollers\<close> (\<^verbatim>\<open>Poller.h\<close>, \<^verbatim>\<open>EPollPoller.c\<close>): the interest list of
    the kernel is exactly what the channels say, after any run.
  \<^item> \<open>EventLoops\<close> (\<^verbatim>\<open>EventLoop.*\<close>): functors in order and once each, no lost wakeup, the end of \<open>loop\<close> after \<open>quit\<close>,
    timers across threads, construction and destruction.
  \<^item> \<open>Connections\<close> (\<^verbatim>\<open>TcpConnection.*\<close>, \<^verbatim>\<open>WeakCallback.h\<close>): from \<open>connectEstablished\<close> on no run fails; no byte is
    lost or reordered; \<open>shutdown\<close> waits for the output; a closed connection passes its destructors. The
    library's \<open>Buffer\<close> is a parameter with the laws of \<^verbatim>\<open>Info/Buffer.txt\<close>.
  \<^item> \<open>Lives\<close>: a connection reduced to its state and registration, with the refinement proof; servers and
    clients are modelled over it.
  \<^item> \<open>Addresses\<close> (\<^verbatim>\<open>InetAddress.*\<close>, the conversions of \<^verbatim>\<open>SocketOps.c\<close>), \<open>Sockets\<close> and \<open>Descriptors\<close> (\<^verbatim>\<open>SocketOps.c\<close>):
    round trip of addresses, the descriptor table, the flags of descriptors.
  \<^item> \<open>Acceptors\<close> (\<^verbatim>\<open>Acceptor.*\<close>): accepting, and the way out of a full descriptor table.
  \<^item> \<open>Connectors\<close> (\<^verbatim>\<open>Connector.*\<close>): the connecting machine with its retries. The locale \<open>connector_client\<close> states what
    the callback for a new connection must keep; it is interpreted on a client that records descriptors
    and, in \<open>Clients\<close>, on \<open>TcpClient\<close>. No assertion fails, no descriptor leaks, delays are exact.
  \<^item> \<open>Mutexes\<close> (\<^verbatim>\<open>Mutex.h\<close>, \<^verbatim>\<open>Condition.*\<close>), \<open>Threads\<close> (\<^verbatim>\<open>Thread.*\<close>), \<open>Pools\<close> (\<^verbatim>\<open>EventLoopThread.*\<close>,
    \<^verbatim>\<open>EventLoopThreadPool.*\<close>): the holder is exact in every interleaving, a pthread is released once, a loop is handed
    over without a lost notification, and loops are given out round robin.
  \<^item> \<open>Servers\<close> (\<^verbatim>\<open>TcpServer.*\<close>): in any order of what peers, users and loops do, the map holds exactly the live
    connections; the destructor takes all of them down.
  \<^item> \<open>Clients\<close> (\<^verbatim>\<open>TcpClient.*\<close>): connects, reconnects, ends and the destructor, on top of the connector;
    a pending connect that succeeds ends in one connection over its descriptor.

  \<^bold>\<open>Bounds.\<close> Connection numbers stay below \<open>2 ^ 31 - 1\<close>, where the increment of the \<open>int\<close> would overflow;
  timer numbers below \<open>2 ^ 63 - 1\<close>; times within \<open>2 ^ 61\<close> microseconds of the epoch where retries are added,
  so that no sum overflows; the text \<open>ip:port\<close> has at most 51 characters, so a server's 64 bytes hold the
  whole name of a connection, while a client's 32 bytes do not. \<open>loop\<close> takes the list of what each turn
  of the poller returns, its fuel: the end after \<open>quit\<close> needs one more turn. The loops of the sources are
  structural recursions over the containers they walk.

  \<^bold>\<open>Failures that the theorems exhibit\<close>, each with the inputs that lead to it: \<open>shutdown\<close> after the
  close, \<open>connectDestroyed\<close> and the server's destructor while a connection is disconnecting, \<open>startRead\<close>
  after the close, a second \<open>disableAll\<close>, \<open>quit\<close> before \<open>loop\<close>, a functor queued before \<open>loop\<close>, the relative
  path of the spare descriptor, a loop that ends before \<open>startLoop\<close> has read it, \<open>connect\<close> after a
  connection has ended, and equal names of a client's connections.

  \<^bold>\<open>Not modelled.\<close> \<^verbatim>\<open>Buffer.h\<close>, \<^verbatim>\<open>StringPiece.h\<close>, \<^verbatim>\<open>Endian.h\<close>, \<^verbatim>\<open>CurrentThread.h\<close>, \<^verbatim>\<open>Socket.c\<close>, \<^verbatim>\<open>Poller.cc\<close> and
  \<^verbatim>\<open>CountDownLatch.c\<close> are not in the repository: what the code uses of them is a parameter, or state of the
  descriptor table. Since \<open>Socket\<close>'s destructor is among them, the models of servers and clients end with
  the connection object and do not close its descriptor. \<open>assertInLoopThread\<close> only prints, as
  \<open>abortNotInLoopThread\<close> does. Left out are the reads of kernel statistics (\<open>getTcpInfo\<close>), the text of the
  thread id, whose format is undefined, the user's context objects, which the library never reads,
  log and trace output, \<open>resolve\<close>'s use of \<open>gethostbyname_r\<close> beyond its result, and the signal disposition
  of \<open>IgnoreSigPipe\<close>, on which the return value \<open>EPIPE\<close> rests.
\<close>

end
